(* ===== verification/Go_Prelude.thy ===== *)
theory Go_Prelude
  imports Main "HOL-Library.Word" "HOL-Library.Stream" "HOL-Library.Monad_Syntax"
    "HOL-Library.Signed_Division"
begin

text \<open>
  The Go fragment the models share: bytes and byte slices with bounds-checked indexing
  (\<open>None\<close> is a run-time panic), the big-endian 16-bit fields every wire format of the
  repository uses, \<open>int64\<close> wrap-around, instants of time, and the pseudo-random source of
  \<open>math/rand\<close> as a stream of 64-bit draws. The generic facts about them are collected in
  \<open>go_simps\<close>.
\<close>

unbundle bit_operations_syntax

named_theorems go_simps \<open>facts that evaluate checked slices and wire fields\<close>

type_synonym byte = "8 word"
type_synonym bytes = "byte list"

section \<open>Errors of the standard library\<close>

text \<open>
  \<open>EOF\<close> and \<open>ErrUnexpectedEOF\<close> are the values of package \<open>io\<close>, \<open>ErrClosed\<close> is
  \<open>net.ErrClosed\<close>; every other error value a connection can return is an \<open>OtherErr\<close>.
\<close>

datatype io_err = EOF | ErrUnexpectedEOF | ErrClosed | OtherErr nat

section \<open>Slices\<close>

text \<open>\<open>p[i]\<close> and \<open>p[i:j]\<close>: out of range is a panic, the value \<open>None\<close>.\<close>

definition idx :: "'a list \<Rightarrow> nat \<Rightarrow> 'a option" where
  "idx p i = (if i < length p then Some (p ! i) else None)"

definition go_slice :: "'a list \<Rightarrow> nat \<Rightarrow> nat \<Rightarrow> 'a list option" where
  "go_slice p i j = (if i \<le> j \<and> j \<le> length p then Some (take (j - i) (drop i p)) else None)"

definition slice_to_end :: "'a list \<Rightarrow> nat \<Rightarrow> 'a list option" where
  "slice_to_end p i = go_slice p i (length p)"

lemma idx_Some [go_simps]: "i < length p \<Longrightarrow> idx p i = Some (p ! i)"
  by (simp add: idx_def)

lemma slice_Some [go_simps]: "i \<le> j \<Longrightarrow> j \<le> length p \<Longrightarrow> go_slice p i j = Some (take (j - i) (drop i p))"
  by (simp add: go_slice_def)

lemma slice_to_end_Some [go_simps]: "i \<le> length p \<Longrightarrow> slice_to_end p i = Some (drop i p)"
  by (simp add: slice_to_end_def go_slice_def)

lemma slice_length: "go_slice p i j = Some q \<Longrightarrow> length q = j - i \<and> j \<le> length p"
  by (auto simp: go_slice_def split: if_splits)

lemma slice_to_end_length: "slice_to_end p i = Some q \<Longrightarrow> length q = length p - i \<and> i \<le> length p"
  by (auto simp: slice_to_end_def dest: slice_length) (auto simp: go_slice_def split: if_splits)

section \<open>Big-endian fields\<close>

text \<open>\<open>binary.BigEndian.PutUint16\<close> and \<open>binary.BigEndian.Uint16\<close>.\<close>

definition put_uint16 :: "16 word \<Rightarrow> bytes" where
  "put_uint16 v = [ucast (drop_bit 8 v), ucast v]"

definition get_uint16 :: "bytes \<Rightarrow> 16 word option" where
  "get_uint16 b = do {
     b1 \<leftarrow> idx b 1;
     b0 \<leftarrow> idx b 0;
     Some (ucast b1 OR push_bit 8 (ucast b0)) }"

text \<open>The source also writes the field out by hand: \<open>int(a)<<8 | int(b)\<close>.\<close>

definition be16 :: "byte \<Rightarrow> byte \<Rightarrow> nat" where
  "be16 a b = push_bit 8 (unat a) OR unat b"

lemma length_put_uint16 [simp]: "length (put_uint16 v) = 2"
  by (simp add: put_uint16_def)

lemma bit_above: "b < 2 ^ n \<Longrightarrow> n \<le> k \<Longrightarrow> \<not> bit (b::nat) k"
  by (metis bit_take_bit_iff leD take_bit_nat_eq_self_iff)

lemma push_bit_or_eq_add:
  fixes a b :: nat
  assumes "b < 2 ^ n"
  shows "push_bit n a OR b = 2 ^ n * a + b"
proof -
  have "push_bit n a AND b = 0"
    by (rule bit_eqI) (use assms in \<open>auto simp: bit_simps dest: bit_above\<close>)
  then show ?thesis
    by (simp add: disjunctive_add_eq_or [symmetric] push_bit_eq_mult mult.commute)
qed

lemma be16_eq: "be16 a b = 256 * unat a + unat b"
  using push_bit_or_eq_add [of "unat b" 8 "unat a"] unsigned_less [of b, where ?'a = nat] by (simp add: be16_def)

lemma be16_bound: "be16 a b < 65536"
  using unsigned_less [of a, where ?'a = nat] unsigned_less [of b, where ?'a = nat] by (simp add: be16_eq)

lemma get_uint16_Some: "2 \<le> length b \<Longrightarrow> \<exists>v. get_uint16 b = Some v"
  by (cases b) (auto simp: get_uint16_def idx_def)

lemma unat_or_push_byte:
  fixes a b :: byte
  shows "unat (ucast b OR push_bit 8 (ucast a) :: 16 word) = be16 a b"
  unfolding be16_def by (rule bit_eqI) (auto simp: bit_simps dest: bit_imp_le_length)

lemma get_uint16_be16: "get_uint16 b = Some v \<Longrightarrow> unat v = be16 (b ! 0) (b ! 1)"
  by (auto simp: get_uint16_def idx_def bind_eq_Some_conv unat_or_push_byte split: if_splits)

lemma get_put_uint16 [simp, go_simps]: "get_uint16 (put_uint16 v @ xs) = Some v"
proof -
  have "ucast (ucast v :: byte) OR push_bit 8 (ucast (ucast (drop_bit 8 v) :: byte)) = v"
    by (rule bit_word_eqI) (auto simp: bit_simps)
  then show ?thesis by (simp add: get_uint16_def put_uint16_def idx_def)
qed

lemma get_put_uint16_single [simp]: "get_uint16 (put_uint16 v) = Some v"
  using get_put_uint16 [of v "[]"] by simp

lemma be16_put_uint16 [simp]: "be16 (ucast (drop_bit 8 v)) (ucast (v :: 16 word)) = unat v"
  using get_uint16_be16 [OF get_put_uint16_single, of v] by (simp add: put_uint16_def)

text \<open>The conversion \<open>uint16(m)\<close> of a length keeps the low 16 bits only.\<close>

definition to_uint16 :: "nat \<Rightarrow> 16 word" where
  "to_uint16 m = word_of_nat m"

lemma unat_to_uint16: "unat (to_uint16 m) = m mod 65536"
  by (simp add: to_uint16_def unat_of_nat)

lemma unat_to_uint16_small [simp]: "m < 65536 \<Longrightarrow> unat (to_uint16 m) = m"
  by (simp add: unat_to_uint16)

section \<open>Signed 64-bit arithmetic and time\<close>

definition wrap64 :: "int \<Rightarrow> int" where
  "wrap64 x = signed_take_bit 63 x"

lemma wrap64_id: "- (2 ^ 63) \<le> x \<Longrightarrow> x < 2 ^ 63 \<Longrightarrow> wrap64 x = x"
  by (simp add: wrap64_def signed_take_bit_int_eq_self)

lemma wrap64_range: "- (2 ^ 63) \<le> wrap64 x \<and> wrap64 x < 2 ^ 63"
  using signed_take_bit_int_greater_eq_minus_exp [of 63 x] signed_take_bit_int_less_exp [of 63 x]
  by (simp add: wrap64_def)

text \<open>
  A \<open>time.Time\<close> is an instant in nanoseconds; a \<open>time.Duration\<close> is an \<open>int\<close> in the
  \<open>int64\<close> range. \<open>t.Sub(u)\<close> saturates at the ends of that range.
\<close>

datatype instant = Instant (nanos: int)

instantiation instant :: linorder
begin

definition less_eq_instant :: "instant \<Rightarrow> instant \<Rightarrow> bool" where
  "less_eq_instant t u \<longleftrightarrow> nanos t \<le> nanos u"

definition less_instant :: "instant \<Rightarrow> instant \<Rightarrow> bool" where
  "less_instant t u \<longleftrightarrow> nanos t < nanos u"

instance
  by standard (auto simp: less_eq_instant_def less_instant_def instant.expand)

end

definition max_duration :: int where "max_duration = 2 ^ 63 - 1"

definition min_duration :: int where "min_duration = - (2 ^ 63)"

definition time_sub :: "instant \<Rightarrow> instant \<Rightarrow> int" where
  "time_sub t u = max min_duration (min max_duration (nanos t - nanos u))"

definition time_add :: "instant \<Rightarrow> int \<Rightarrow> instant" where
  "time_add t d = Instant (nanos t + d)"

definition second :: int where "second = 1000000000"

lemma time_sub_mono: "t \<le> t' \<Longrightarrow> time_sub t u \<le> time_sub t' u"
  by (simp add: time_sub_def less_eq_instant_def)

lemma time_sub_exact:
  "min_duration \<le> nanos t - nanos u \<Longrightarrow> nanos t - nanos u \<le> max_duration \<Longrightarrow>
   time_sub t u = nanos t - nanos u"
  by (simp add: time_sub_def)

section \<open>Pseudo-random draws\<close>

text \<open>
  The generator of \<open>math/rand\<close> is its sequence of 64-bit outputs. \<open>rand.Intn(n)\<close> and
  \<open>rand.Int63n(n)\<close> return a value in \<open>[0, n)\<close> and panic unless \<open>n > 0\<close>.
  Every value of the range is
  the result for some stream, so a statement about all streams is one about all draws.
\<close>

type_synonym rng = "64 word stream"

definition rand_Uint64 :: "rng \<Rightarrow> 64 word \<times> rng" where
  "rand_Uint64 r = (shd r, stl r)"

definition rand_Intn :: "int \<Rightarrow> rng \<Rightarrow> (int \<times> rng) option" where
  "rand_Intn n r = (if n \<le> 0 then None else Some (uint (shd r) mod n, stl r))"

lemma rand_Intn_Some: "0 < n \<Longrightarrow> \<exists>k. rand_Intn n r = Some (k, stl r) \<and> 0 \<le> k \<and> k < n"
  by (simp add: rand_Intn_def)

lemma rand_Intn_range: "rand_Intn n r = Some (k, r') \<Longrightarrow> 0 \<le> k \<and> k < n"
  by (auto simp: rand_Intn_def split: if_splits)

lemma rand_Intn_surj:
  assumes "0 \<le> k" "k < n" "n \<le> 2 ^ 64"
  shows "\<exists>r. rand_Intn n r = Some (k, r')"
proof -
  have "uint (word_of_int k :: 64 word) = k"
    using assms by (simp add: uint_word_of_int)
  then show ?thesis
    using assms by (intro exI [of _ "word_of_int k ## r'"]) (simp add: rand_Intn_def)
qed

section \<open>Lists of cells\<close>

lemma concat_all_Nil: "(\<forall>x \<in> set xs. x = []) \<longleftrightarrow> concat xs = []"
  by simp

section \<open>Reachable states\<close>

text \<open>An invariant of the steps that holds at the start holds in every reachable state.\<close>

lemma reach_invariant:
  assumes "r\<^sup>*\<^sup>* s0 s" and "P s0" and "\<And>s t. r s t \<Longrightarrow> P s \<Longrightarrow> P t"
  shows "P s"
  using assms(1)
proof (induction rule: rtranclp_induct)
  case base
  show ?case by (rule assms(2))
next
  case (step s t)
  then show ?case by (blast intro: assms(3))
qed

text \<open>The total weight of a table after an update at a key that was there.\<close>

lemma weight_map_upd:
  fixes w :: "'a \<Rightarrow> nat"
  assumes "finite (dom m)" "m c = Some p"
  shows "(\<Sum>x \<in> dom (m(c \<mapsto> q)). w (the ((m(c \<mapsto> q)) x))) + w p = (\<Sum>x \<in> dom m. w (the (m x))) + w q"
proof -
  have d: "dom (m(c \<mapsto> q)) = insert c (dom m - {c})" "dom m = insert c (dom m - {c})" using assms(2) by auto
  have "(\<Sum>x \<in> dom m - {c}. w (the ((m(c \<mapsto> q)) x))) = (\<Sum>x \<in> dom m - {c}. w (the (m x)))"
    by (intro sum.cong) auto
  then show ?thesis using assms by (subst d(1), subst d(2)) (simp add: sum.insert_remove)
qed

lemma weight_map_bound:
  fixes w :: "'a \<Rightarrow> nat"
  assumes "\<And>p. w p \<le> k"
  shows "(\<Sum>x \<in> dom m. w (the (m x))) \<le> k * card (dom m)"
  using sum_bounded_above [of "dom m" "\<lambda>x. w (the (m x))" k] assms by (simp add: mult.commute)

text \<open>
  A quantity that never grows along a run falls only finitely often, at most as many times as its
  first value says: how the theories bound the steps of one process among those of others.
\<close>

lemma falls_finitely:
  fixes w :: "nat \<Rightarrow> nat"
  assumes "\<And>n. w (Suc n) \<le> w n"
  shows "finite {n. w (Suc n) < w n} \<and> card {n. w (Suc n) < w n} \<le> w 0"
proof (rule finite_if_finite_subsets_card_bdd)
  have upto: "w N + card {n. n < N \<and> w (Suc n) < w n} \<le> w 0" for N
  proof (induction N)
    case (Suc N)
    have "{n. n < Suc N \<and> w (Suc n) < w n} =
        (if w (Suc N) < w N then insert N {n. n < N \<and> w (Suc n) < w n} else {n. n < N \<and> w (Suc n) < w n})"
      by (auto simp: less_Suc_eq)
    with Suc assms [of N] show ?case by auto
  qed simp
  fix G assume G: "G \<subseteq> {n. w (Suc n) < w n}" "finite G"
  then obtain N where "\<forall>n \<in> G. n < N" using finite_nat_set_iff_bounded by blast
  with G(1) have "G \<subseteq> {n. n < N \<and> w (Suc n) < w n}" by auto
  then have "card G \<le> card {n. n < N \<and> w (Suc n) < w n}" by (intro card_mono) auto
  with upto [of N] show "card G \<le> w 0" by simp
qed

lemma few_steps:
  fixes f :: "nat \<Rightarrow> 's" and w :: "'s \<Rightarrow> nat"
  assumes "\<And>n. w (f (Suc n)) \<le> w (f n)" and "\<And>s t. own s t \<Longrightarrow> P s \<Longrightarrow> w t < w s" and "\<And>n. P (f n)"
  shows "finite {n. own (f n) (f (Suc n))} \<and> card {n. own (f n) (f (Suc n))} \<le> w (f 0)"
proof -
  have sub: "{n. own (f n) (f (Suc n))} \<subseteq> {n. w (f (Suc n)) < w (f n)}" using assms(2,3) by auto
  have fall: "finite {n. w (f (Suc n)) < w (f n)} \<and> card {n. w (f (Suc n)) < w (f n)} \<le> w (f 0)"
    by (rule falls_finitely) (rule assms(1))
  with sub show ?thesis by (meson card_mono finite_subset order_trans)
qed

end
