(* ===== verification/Go_IO.thy ===== *)
theory Go_IO
  imports Go_Prelude
begin

text \<open>
  Reading from connections. \<open>instream\<close> is the read side of a base connection as its client
  sees it: the bytes that will still arrive and the error that comes after them;
  \<open>read_full\<close> is \<open>io.ReadFull\<close> on it. Below that, \<open>seg_conn\<close> is the same connection with
  the segmentation the network chose (\<open>Read\<close> returns at most one segment), and the locale
  \<open>reader\<close> states the contract of \<open>io.Reader\<close> under which the loop of \<open>io.ReadFull\<close>
  (\<open>read_full_loop\<close>) returns the same bytes whatever the segmentation.
\<close>

section \<open>The read side of a connection\<close>

record instream =
  avail :: bytes
  rd_err :: io_err

text \<open>
  \<open>io.ReadFull(r, buf)\<close> with \<open>len(buf) = n\<close>: the bytes stored in \<open>buf\<close>, the error, the
  connection after. \<open>io.EOF\<close> after a partial read is \<open>io.ErrUnexpectedEOF\<close>.
\<close>

definition unexpected :: "io_err \<Rightarrow> io_err" where
  "unexpected e = (if e = EOF then ErrUnexpectedEOF else e)"

definition read_full :: "nat \<Rightarrow> instream \<Rightarrow> bytes \<times> io_err option \<times> instream" where
  "read_full n s =
     (if n \<le> length (avail s) then (take n (avail s), None, s\<lparr>avail := drop n (avail s)\<rparr>)
      else (avail s, Some (if avail s = [] then rd_err s else unexpected (rd_err s)),
            s\<lparr>avail := []\<rparr>))"

lemma read_full_append [go_simps]:
  "length w = n \<Longrightarrow> avail s = w @ rest \<Longrightarrow> read_full n s = (w, None, s\<lparr>avail := rest\<rparr>)"
  by (auto simp: read_full_def)

lemma read_full_empty [go_simps]:
  "avail s = [] \<Longrightarrow> 0 < n \<Longrightarrow> read_full n s = ([], Some (rd_err s), s)"
  by (cases s) (simp add: read_full_def)

lemma read_full_ok:
  "read_full n s = (bs, None, s') \<Longrightarrow>
   n \<le> length (avail s) \<and> bs = take n (avail s) \<and> s' = s\<lparr>avail := drop n (avail s)\<rparr>"
  by (auto simp: read_full_def split: if_splits)

text \<open>Whatever happens, no byte is lost: what was stored and what is left is what there was.\<close>

lemma read_full_stream:
  "read_full n s = (bs, e, s') \<Longrightarrow> bs @ avail s' = avail s \<and> rd_err s' = rd_err s"
  by (auto simp: read_full_def split: if_splits)

lemma read_full_length:
  "read_full n s = (bs, e, s') \<Longrightarrow> length bs \<le> n \<and> (e = None \<longleftrightarrow> length bs = n)"
  by (auto simp: read_full_def split: if_splits)

lemma read_full_shrinks:
  "read_full n s = (bs, None, s') \<Longrightarrow> 0 < n \<Longrightarrow> length (avail s') < length (avail s)"
  by (auto dest!: read_full_ok)

section \<open>The contract of a reader and the loop of ReadFull\<close>

text \<open>
  A reader's \<open>Read(p)\<close> with \<open>len(p) = n\<close> returns the bytes it stored in \<open>p\<close>, an error,
  and the reader after; \<open>None\<close> is a panic or a call that never returns. The loop is that of
  \<open>io.ReadAtLeast(r, buf, len(buf))\<close>; \<open>ue\<close> turns \<open>io.EOF\<close> into \<open>io.ErrUnexpectedEOF\<close>.
\<close>

partial_function (option) read_full_loop ::
  "(nat \<Rightarrow> 's \<Rightarrow> (bytes \<times> 'e option \<times> 's) option) \<Rightarrow> ('e \<Rightarrow> 'e) \<Rightarrow> nat \<Rightarrow> bytes \<Rightarrow> 's \<Rightarrow>
   (bytes \<times> 'e option \<times> 's) option" where
  "read_full_loop rd ue n acc s =
     (if n \<le> length acc then Some (acc, None, s)
      else Option.bind (rd (n - length acc) s) (\<lambda>(bs, e, s').
        case e of
          None \<Rightarrow> read_full_loop rd ue n (acc @ bs) s'
        | Some err \<Rightarrow>
            Some (acc @ bs,
                  if n \<le> length (acc @ bs) then None
                  else Some (if acc @ bs = [] then err else ue err), s')))"

text \<open>
  \<open>delivers s bs e\<close>: a caller that keeps reading from \<open>s\<close> gets exactly \<open>bs\<close> and then the
  error \<open>e\<close>. A read with room for at least one byte makes progress.
\<close>

locale reader =
  fixes rd :: "nat \<Rightarrow> 's \<Rightarrow> (bytes \<times> 'e option \<times> 's) option"
    and delivers :: "'s \<Rightarrow> bytes \<Rightarrow> 'e \<Rightarrow> bool"
  assumes read_some: "delivers s bs e \<Longrightarrow> 0 < n \<Longrightarrow> bs \<noteq> [] \<Longrightarrow>
      \<exists>k s'. 0 < k \<and> k \<le> n \<and> k \<le> length bs \<and>
        rd n s = Some (take k bs, None, s') \<and> delivers s' (drop k bs) e"
    and read_end: "delivers s [] e \<Longrightarrow> 0 < n \<Longrightarrow>
      \<exists>s'. rd n s = Some ([], Some e, s') \<and> delivers s' [] e"
begin

lemma loop_full:
  "delivers s bs e \<Longrightarrow> length acc \<le> n \<Longrightarrow> n - length acc \<le> length bs \<Longrightarrow>
   \<exists>s'. read_full_loop rd ue n acc s = Some (acc @ take (n - length acc) bs, None, s') \<and>
        delivers s' (drop (n - length acc) bs) e"
proof (induction "n - length acc" arbitrary: acc s bs rule: less_induct)
  case less
  show ?case
  proof (cases "n \<le> length acc")
    case True
    with less.prems have "n = length acc" by simp
    then show ?thesis using less.prems read_full_loop.simps [of rd ue n acc s] by auto
  next
    case False
    with less.prems have "bs \<noteq> []" "0 < n - length acc" by auto
    with read_some [OF less.prems(1)] obtain k s' where
      k: "0 < k" "k \<le> n - length acc" "k \<le> length bs"
      and rd: "rd (n - length acc) s = Some (take k bs, None, s')"
      and d: "delivers s' (drop k bs) e" by blast
    let ?m = "n - length acc"
    have len: "n - length (acc @ take k bs) = ?m - k" using k by simp
    have "\<exists>s''. read_full_loop rd ue n (acc @ take k bs) s' =
        Some ((acc @ take k bs) @ take (?m - k) (drop k bs), None, s'') \<and>
        delivers s'' (drop (?m - k) (drop k bs)) e"
      unfolding len [symmetric] by (rule less.hyps) (use k d less.prems False in auto)
    moreover have "take k bs @ take (?m - k) (drop k bs) = take ?m bs"
      using k by (metis add_diff_inverse_nat not_le take_add)
    moreover have "drop (?m - k) (drop k bs) = drop ?m bs"
      using k by simp
    ultimately show ?thesis
      using False rd by (simp add: read_full_loop.simps [of rd ue n acc])
  qed
qed

lemma loop_short:
  "delivers s bs e \<Longrightarrow> length acc + length bs < n \<Longrightarrow>
   \<exists>s'. read_full_loop rd ue n acc s =
          Some (acc @ bs, Some (if acc @ bs = [] then e else ue e), s') \<and> delivers s' [] e"
proof (induction "length bs" arbitrary: acc s bs rule: less_induct)
  case less
  show ?case
  proof (cases "bs = []")
    case True
    with less.prems read_end [of s e "n - length acc"] show ?thesis
      by (auto simp: read_full_loop.simps [of rd ue n acc])
  next
    case False
    with less.prems read_some [of s bs e "n - length acc"] obtain k s' where
      k: "0 < k" "k \<le> length bs"
      and rd: "rd (n - length acc) s = Some (take k bs, None, s')"
      and d: "delivers s' (drop k bs) e" by auto
    have "\<exists>s''. read_full_loop rd ue n (acc @ take k bs) s' =
        Some ((acc @ take k bs) @ drop k bs,
              Some (if (acc @ take k bs) @ drop k bs = [] then e else ue e), s'') \<and>
        delivers s'' [] e"
      by (rule less.hyps) (use k d less.prems False in auto)
    then show ?thesis
      using rd less.prems by (simp add: read_full_loop.simps [of rd ue n acc])
  qed
qed

lemma read_full_delivers:
  "delivers s bs e \<Longrightarrow> n \<le> length bs \<Longrightarrow>
   \<exists>s'. read_full_loop rd ue n [] s = Some (take n bs, None, s') \<and> delivers s' (drop n bs) e"
  using loop_full [of s bs e "[]" n ue] by simp

lemma read_full_ends:
  "delivers s bs e \<Longrightarrow> length bs < n \<Longrightarrow>
   \<exists>s'. read_full_loop rd ue n [] s = Some (bs, Some (if bs = [] then e else ue e), s')"
  using loop_short [of s bs e "[]" n ue] by auto

end

section \<open>A base connection as the network segments it\<close>

record seg_conn =
  segs :: "bytes list"
  seg_err :: io_err

text \<open>
  \<open>conn.Read\<close> on a base connection: at most one segment, never more than fits in the
  buffer; segments are not empty.
\<close>

fun seg_read :: "nat \<Rightarrow> seg_conn \<Rightarrow> (bytes \<times> io_err option \<times> seg_conn) option" where
  "seg_read n s =
     (case segs s of
        [] \<Rightarrow> Some ([], Some (seg_err s), s)
      | seg # rest \<Rightarrow>
          Some (take n seg, None,
                s\<lparr>segs := (if length seg \<le> n then rest else drop n seg # rest)\<rparr>))"

definition seg_delivers :: "seg_conn \<Rightarrow> bytes \<Rightarrow> io_err \<Rightarrow> bool" where
  "seg_delivers s bs e \<longleftrightarrow> concat (segs s) = bs \<and> [] \<notin> set (segs s) \<and> seg_err s = e"

interpretation seg: reader seg_read seg_delivers
proof
  fix s bs e and n :: nat
  assume d: "seg_delivers s bs e" and n: "0 < n" and ne: "bs \<noteq> []"
  then obtain sg rest where segs: "segs s = sg # rest" "sg \<noteq> []"
    by (cases "segs s") (auto simp: seg_delivers_def)
  let ?s = "s\<lparr>segs := (if length sg \<le> n then rest else drop n sg # rest)\<rparr>"
  have "seg_read n s = Some (take (min n (length sg)) bs, None, ?s)"
    using segs d by (auto simp: seg_delivers_def min_def)
  moreover have "seg_delivers ?s (drop (min n (length sg)) bs) e"
    using segs d by (auto simp: seg_delivers_def min_def)
  moreover have "0 < min n (length sg)" "min n (length sg) \<le> n" "min n (length sg) \<le> length bs"
    using segs d n by (auto simp: seg_delivers_def)
  ultimately show "\<exists>k s'. 0 < k \<and> k \<le> n \<and> k \<le> length bs \<and>
      seg_read n s = Some (take k bs, None, s') \<and> seg_delivers s' (drop k bs) e" by blast
next
  fix s e and n :: nat
  assume "seg_delivers s [] e"
  then have "segs s = []" "seg_err s = e"
    by (cases "segs s"; auto simp: seg_delivers_def)+
  then show "\<exists>s'. seg_read n s = Some ([], Some e, s') \<and> seg_delivers s' [] e"
    by (simp add: seg_delivers_def)
qed

text \<open>
  So \<open>read_full\<close> on the joined bytes is what \<open>io.ReadFull\<close> computes on the segments: the
  models of the parsers may use \<open>instream\<close>.
\<close>

lemma read_full_seg:
  assumes "seg_delivers s (avail i) (rd_err i)"
  shows "\<exists>s'. read_full_loop seg_read unexpected n [] s =
           Some (fst (read_full n i), fst (snd (read_full n i)), s')"
proof (cases "n \<le> length (avail i)")
  case True
  with seg.read_full_delivers [OF assms True, of unexpected] show ?thesis
    by (auto simp: read_full_def)
next
  case False
  with seg.read_full_ends [OF assms, of n unexpected] show ?thesis
    by (auto simp: read_full_def)
qed

end
