(* ===== verification/Fill.thy ===== *)
theory Fill
  imports Go_Prelude
begin

text \<open>
  Padding generators, \<open>fill.go\<close>. A \<open>FillFunc\<close> fills all of a slice: it is given the length
  of the slice and the state of its randomness and returns the bytes written and the new
  state. That it writes the whole slice and nothing else is the contract \<open>filler\<close>, which the
  three generators of the package are shown to meet.
\<close>

type_synonym 'r fill_func = "nat \<Rightarrow> 'r \<Rightarrow> bytes \<times> 'r"

locale filler =
  fixes fl :: "nat \<Rightarrow> 'r \<Rightarrow> bytes \<times> 'r"
  assumes fill_length [simp]: "length (fst (fl n r)) = n"
begin

lemma fill_whole: "fl n r = (bs, r') \<Longrightarrow> length bs = n"
  using fill_length [of n r] by simp

lemma fill_none: "fst (fl 0 r) = []"
  using fill_length [of 0 r] by (simp del: fill_length)

end

section \<open>RandomFill\<close>

text \<open>The inner loop: \<open>p[i] = byte(v); v >>= 8; i++\<close>, at most 8 times per draw.\<close>

fun draw_bytes :: "nat \<Rightarrow> 64 word \<Rightarrow> bytes" where
  "draw_bytes 0 v = []"
| "draw_bytes (Suc j) v = ucast v # draw_bytes j (drop_bit 8 v)"

fun random_fill :: "nat \<Rightarrow> rng \<Rightarrow> bytes \<times> rng" where
  "random_fill n r =
     (if n = 0 then ([], r)
      else let (v, r1) = rand_Uint64 r;
               k = min 8 n;
               (bs, r2) = random_fill (n - k) r1
           in (draw_bytes k v @ bs, r2))"

declare random_fill.simps [simp del]

lemma length_draw_bytes [simp]: "length (draw_bytes k v) = k"
  by (induction k v rule: draw_bytes.induct) auto

lemma draw_bytes_nth: "i < k \<Longrightarrow> draw_bytes k v ! i = ucast (drop_bit (8 * i) v)"
  by (induction k v arbitrary: i rule: draw_bytes.induct)
    (auto simp: nth_Cons drop_bit_drop_bit add.commute split: nat.splits)

lemma random_fill_0 [simp]: "random_fill 0 r = ([], r)"
  by (simp add: random_fill.simps)

lemma random_fill_pos:
  "0 < n \<Longrightarrow> random_fill n r =
     (draw_bytes (min 8 n) (shd r) @ fst (random_fill (n - min 8 n) (stl r)),
      snd (random_fill (n - min 8 n) (stl r)))"
  by (simp add: random_fill.simps [of n] rand_Uint64_def Let_def split: prod.splits)

lemma length_random_fill: "length (fst (random_fill n r)) = n"
proof (induction n r rule: random_fill.induct)
  case (1 n r)
  show ?case
  proof (cases "n = 0")
    case False
    with "1.IH" [of "(shd r, stl r)" "shd r" "stl r" "min 8 n"] show ?thesis
      by (simp add: rand_Uint64_def random_fill_pos)
  qed simp
qed

section \<open>ZeroFill and PrintableFill\<close>

definition zero_fill :: "nat \<Rightarrow> 'r \<Rightarrow> bytes \<times> 'r" where
  "zero_fill n r = (replicate n 0, r)"

text \<open>
  \<open>p[i] = byte(lo + rand.Intn(hi-lo+1))\<close> with \<open>lo = 0x20\<close> and \<open>hi = 0x7e\<close>. The last branch
  is the panic of \<open>rand.Intn\<close>; it would leave the slice unfilled.
\<close>

fun printable_fill :: "nat \<Rightarrow> rng \<Rightarrow> bytes \<times> rng" where
  "printable_fill 0 r = ([], r)"
| "printable_fill (Suc n) r =
     (case rand_Intn (0x7e - 0x20 + 1) r of
        Some (k, r1) \<Rightarrow>
          (let (bs, r2) = printable_fill n r1 in (word_of_int (0x20 + k) # bs, r2))
      | None \<Rightarrow> ([], r))"

interpretation random_filler: filler random_fill
  by standard (rule length_random_fill)

interpretation zero_filler: filler zero_fill
  by standard (simp add: zero_fill_def)

interpretation printable_filler: filler printable_fill
proof
  fix n r
  show "length (fst (printable_fill n r)) = n"
    by (induction n r rule: printable_fill.induct)
      (auto simp: rand_Intn_def split: prod.splits)
qed

section \<open>What the generators write\<close>

lemma random_fill_nth:
  "i < n \<Longrightarrow> fst (random_fill n r) ! i = ucast (drop_bit (8 * (i mod 8)) (r !! (i div 8)))"
proof (induction n r arbitrary: i rule: random_fill.induct)
  case (1 n r)
  show ?case
  proof (cases "i < 8")
    case True
    with "1.prems" show ?thesis
      by (simp add: random_fill_pos nth_append draw_bytes_nth)
  next
    case False
    then have i: "i mod 8 = (i - 8) mod 8" "i div 8 = Suc ((i - 8) div 8)"
      by (simp_all add: le_mod_geq le_div_geq)
    have "fst (random_fill (n - 8) (stl r)) ! (i - 8) =
        ucast (drop_bit (8 * ((i - 8) mod 8)) (stl r !! ((i - 8) div 8)))"
      using "1.IH" [of "(shd r, stl r)" "shd r" "stl r" 8 "i - 8"] "1.prems" False
      by (simp add: rand_Uint64_def min_def)
    with "1.prems" False i show ?thesis
      by (simp add: random_fill_pos nth_append min_def)
  qed
qed

text \<open>
  RandomFill fills the whole slice from the generator's output: byte \<open>i\<close> is byte
  \<open>i mod 8\<close> (little end first) of draw \<open>i div 8\<close>, no draw is used twice and one draw is
  consumed for each eight bytes or part of eight.
\<close>

theorem random_fill_spec:
  "fst (random_fill n r) =
     map (\<lambda>i. ucast (drop_bit (8 * (i mod 8)) (r !! (i div 8)))) [0..<n] \<and>
   snd (random_fill n r) = sdrop ((n + 7) div 8) r"
proof
  show "fst (random_fill n r) =
      map (\<lambda>i. ucast (drop_bit (8 * (i mod 8)) (r !! (i div 8)))) [0..<n]"
    by (rule nth_equalityI) (simp_all add: random_fill_nth)
  show "snd (random_fill n r) = sdrop ((n + 7) div 8) r"
  proof (induction n r rule: random_fill.induct)
    case (1 n r)
    show ?case
    proof (cases "n = 0")
      case False
      with "1.IH" [of "(shd r, stl r)" "shd r" "stl r" "min 8 n"]
      have "snd (random_fill n r) = sdrop ((n - min 8 n + 7) div 8) (stl r)"
        by (simp add: rand_Uint64_def random_fill_pos)
      moreover have "(n + 7) div 8 = Suc ((n - min 8 n + 7) div 8)"
        using False by (auto simp: min_def)
      ultimately show ?thesis by simp
    qed simp
  qed
qed

lemma word_of_int_between:
  "0x20 \<le> m \<Longrightarrow> m \<le> 0x7e \<Longrightarrow> (0x20 :: byte) \<le> word_of_int m \<and> word_of_int m \<le> (0x7e :: byte)"
  by (simp add: word_le_def uint_word_of_int)

text \<open>
  PrintableFill writes printable ASCII only: every byte is in \<open>0x20 .. 0x7e\<close>, and the
  slice is filled to its end (the panic of \<open>rand.Intn\<close> is not reached).
\<close>

theorem printable_fill_range:
  "length (fst (printable_fill n r)) = n \<and>
   list_all (\<lambda>b. 0x20 \<le> b \<and> b \<le> 0x7e) (fst (printable_fill n r))"
proof
  show "list_all (\<lambda>b. 0x20 \<le> b \<and> b \<le> 0x7e) (fst (printable_fill n r))"
  proof (induction n r rule: printable_fill.induct)
    case (2 n r)
    obtain k where k: "rand_Intn 95 r = Some (k, stl r)" "0 \<le> k" "k < 95"
      using rand_Intn_Some [of 95 r] by auto
    then have "(0x20 :: byte) \<le> word_of_int (0x20 + k)" "word_of_int (0x20 + k) \<le> (0x7e :: byte)"
      using word_of_int_between [of "0x20 + k"] by simp_all
    with k 2 [of "(k, stl r)" k "stl r"] show ?case
      by (simp add: case_prod_beta Let_def)
  qed simp
qed simp

end
