(* ===== verification/Policy.thy ===== *)
theory Policy
  imports Complex_Main Fill
begin

text \<open>
  Configuration of the stream shaper, \<open>obfs.go\<close>, and the decisions \<open>newShapedConn\<close> in
  \<open>conn.go\<close> takes from it: whether to shape at all, the framing mode, and which background
  loops run. Durations are nanoseconds, rates (Go \<open>float64\<close>) are reals; the state \<open>'r\<close> is
  what the policy's closures read and write, their randomness included.
\<close>

section \<open>Policies\<close>

record paced_config =
  pc_rate :: real
  pc_decay :: real
  pc_min_rate :: real
  pc_queue :: int
  pc_no_pad :: bool

record front_config =
  fc_window :: int
  fc_max_count :: int

record 'r policy =
  p_cell_size :: int
  p_jitter :: int
  p_cover_every :: int
  p_fill :: "'r fill_func option"
  p_size_sampler :: "('r \<Rightarrow> int \<times> 'r) option"
  p_delay_sampler :: "('r \<Rightarrow> int \<times> 'r) option"
  p_front :: "front_config option"
  p_paced :: "paced_config option"

definition zero_policy :: "'r policy" where
  "zero_policy = \<lparr>p_cell_size = 0, p_jitter = 0, p_cover_every = 0, p_fill = None,
     p_size_sampler = None, p_delay_sampler = None, p_front = None, p_paced = None\<rparr>"

definition with_defaults :: "paced_config \<Rightarrow> paced_config" where
  "with_defaults cfg =
     (let cfg = (if pc_decay cfg \<le> 0 \<or> pc_decay cfg > 1 then cfg\<lparr>pc_decay := 1\<rparr> else cfg);
          cfg = (if pc_min_rate cfg \<le> 0 then cfg\<lparr>pc_min_rate := 1\<rparr> else cfg);
          cfg = (if pc_queue cfg \<le> 0 then cfg\<lparr>pc_queue := 1024\<rparr> else cfg)
      in cfg)"

definition paced_valid :: "paced_config \<Rightarrow> bool" where
  "paced_valid cfg \<longleftrightarrow>
     0 < pc_decay cfg \<and> pc_decay cfg \<le> 1 \<and> 0 < pc_min_rate cfg \<and> 0 < pc_queue cfg"

section \<open>The shaper a policy configures\<close>

text \<open>
  The immutable fields of \<open>shapedConn\<close>. \<open>morph\<close> is \<open>sizeSampler != nil\<close>; \<open>pace\<close> is
  \<open>None\<close> unless \<open>paced\<close>. \<open>cell_size\<close> and \<open>max_data\<close> are used in fixed-cell mode only,
  where the policy's value is greater than \<open>hdr_size\<close>.
\<close>

definition hdr_size :: nat where "hdr_size = 2"

record 'r shaper =
  cell_size :: nat
  max_data :: nat
  fill :: "'r fill_func"
  jitter :: int
  size_sampler :: "('r \<Rightarrow> int \<times> 'r) option"
  delay_sampler :: "('r \<Rightarrow> int \<times> 'r) option"
  pace :: "paced_config option"

abbreviation morph :: "'r shaper \<Rightarrow> bool" where
  "morph c \<equiv> size_sampler c \<noteq> None"

abbreviation paced :: "'r shaper \<Rightarrow> bool" where
  "paced c \<equiv> pace c \<noteq> None"

datatype background = CoverLoop int | FrontLoop front_config | PacingLoop

text \<open>
  \<open>None\<close>: the base connection is returned unchanged. \<open>rf\<close> is the package's
  \<open>RandomFill\<close>, the default of \<open>Policy.Fill\<close>.
\<close>

definition new_shaped_conn ::
  "'r fill_func \<Rightarrow> 'r policy \<Rightarrow> ('r shaper \<times> background list) option" where
  "new_shaped_conn rf p =
     (if p_size_sampler p = None \<and> p_cell_size p \<le> int hdr_size then None
      else
        let fl = (case p_fill p of None \<Rightarrow> rf | Some f \<Rightarrow> f);
            pc = (case p_paced p of None \<Rightarrow> None
                  | Some cfg \<Rightarrow> if pc_rate cfg > 0 then Some (with_defaults cfg) else None);
            c = \<lparr>cell_size = nat (p_cell_size p), max_data = nat (p_cell_size p - int hdr_size),
                 fill = fl, jitter = p_jitter p, size_sampler = p_size_sampler p,
                 delay_sampler = p_delay_sampler p, pace = pc\<rparr>;
            loops =
              (if pc = None then
                 (if p_cover_every p > 0 then [CoverLoop (p_cover_every p)] else []) @
                 (case p_front p of None \<Rightarrow> []
                  | Some f \<Rightarrow> if fc_window f > 0 \<and> fc_max_count f > 0 then [FrontLoop f] else [])
               else [PacingLoop])
        in Some (c, loops))"

text \<open>
  \<open>Wrap\<close> returns the base connection or a shaped one; \<open>Dialer\<close> and \<open>shapedListener.Accept\<close>
  wrap every connection the underlying function returns and pass its error on.
\<close>

datatype ('b, 'r) conn = BaseConn 'b | ShapedConn 'b "'r shaper" "background list"

definition wrap :: "'r fill_func \<Rightarrow> 'b \<Rightarrow> 'r policy \<Rightarrow> ('b, 'r) conn" where
  "wrap rf base p =
     (case new_shaped_conn rf p of None \<Rightarrow> BaseConn base | Some (c, ls) \<Rightarrow> ShapedConn base c ls)"

text \<open>
  The methods of \<open>shapedConn\<close> that forward to the base: an address, and one of the three deadlines, whose
  setter \<open>f\<close> gives the error and the base after.
\<close>

fun conn_addr :: "('b \<Rightarrow> 'a) \<Rightarrow> ('b, 'r) conn \<Rightarrow> 'a" where
  "conn_addr addr (BaseConn base) = addr base"
| "conn_addr addr (ShapedConn base c ls) = addr base"

fun conn_set_deadline :: "('b \<Rightarrow> 'e option \<times> 'b) \<Rightarrow> ('b, 'r) conn \<Rightarrow> 'e option \<times> ('b, 'r) conn" where
  "conn_set_deadline f (BaseConn base) = (let (err, b) = f base in (err, BaseConn b))"
| "conn_set_deadline f (ShapedConn base c ls) = (let (err, b) = f base in (err, ShapedConn b c ls))"

definition dialer ::
  "'r fill_func \<Rightarrow> (unit \<Rightarrow> 'e + 'b) \<Rightarrow> 'r policy \<Rightarrow> unit \<Rightarrow> 'e + ('b, 'r) conn" where
  "dialer rf dial p = (\<lambda>u. case dial u of Inl err \<Rightarrow> Inl err | Inr c \<Rightarrow> Inr (wrap rf c p))"

definition listener_accept ::
  "'r fill_func \<Rightarrow> 'e + 'b \<Rightarrow> 'r policy \<Rightarrow> 'e + ('b, 'r) conn" where
  "listener_accept rf accepted p =
     (case accepted of Inl err \<Rightarrow> Inl err | Inr c \<Rightarrow> Inr (wrap rf c p))"

section \<open>What a policy guarantees\<close>

lemmas policy_defs = new_shaped_conn_def Let_def hdr_size_def

lemma with_defaults_valid: "paced_valid (with_defaults cfg)"
  by (simp add: with_defaults_def paced_valid_def Let_def)

lemma with_defaults_rate [simp]:
  "pc_rate (with_defaults cfg) = pc_rate cfg" "pc_no_pad (with_defaults cfg) = pc_no_pad cfg"
  by (simp_all add: with_defaults_def Let_def)

lemma with_defaults_keeps: "paced_valid cfg \<Longrightarrow> with_defaults cfg = cfg"
  by (auto simp: with_defaults_def paced_valid_def Let_def)

text \<open>
  The defaults of a pacing policy: whatever the user set, \<open>withDefaults\<close> yields a decay
  in \<open>(0, 1]\<close>, a positive floor rate and a positive queue bound, it changes nothing in a
  configuration that already has them, and it never touches the rate or the padding switch.
\<close>

theorem with_defaults_spec:
  "paced_valid (with_defaults cfg) \<and>
   (with_defaults cfg = cfg \<longleftrightarrow> paced_valid cfg) \<and>
   pc_rate (with_defaults cfg) = pc_rate cfg \<and> pc_no_pad (with_defaults cfg) = pc_no_pad cfg"
  using with_defaults_valid [of cfg] with_defaults_keeps [of cfg] by auto

lemma new_shaped_None_iff:
  "new_shaped_conn rf p = None \<longleftrightarrow> p_size_sampler p = None \<and> p_cell_size p \<le> 2"
  by (simp add: policy_defs)

lemma wrap_Base_iff: "wrap rf base p = BaseConn base \<longleftrightarrow> new_shaped_conn rf p = None"
  by (simp add: wrap_def split: option.split)

lemma new_shaped_fixed:
  "new_shaped_conn rf p = Some (c, ls) \<Longrightarrow> \<not> morph c \<Longrightarrow>
   hdr_size < cell_size c \<and> max_data c = cell_size c - hdr_size"
  by (auto simp: policy_defs split: if_splits option.splits)

lemma new_shaped_paced:
  "new_shaped_conn rf p = Some (c, ls) \<Longrightarrow> pace c = Some cfg \<Longrightarrow> paced_valid cfg \<and> pc_rate cfg > 0"
  by (auto simp: with_defaults_valid policy_defs split: if_splits option.splits)

lemma new_shaped_filler:
  "new_shaped_conn rf p = Some (c, ls) \<Longrightarrow> filler rf \<Longrightarrow>
   (\<And>f. p_fill p = Some f \<Longrightarrow> filler f) \<Longrightarrow> filler (fill c)"
  by (auto simp: policy_defs split: if_splits option.splits)

text \<open>
  Which policies shape: \<open>Wrap\<close> hands the base connection back unchanged exactly when there
  is no size sampler and the cell size is at most the 2-byte header; in particular the zero
  policy does, and pacing, cover or FRONT settings alone switch nothing on.
\<close>

theorem wrap_disabled_iff:
  "(wrap rf base p = BaseConn base \<longleftrightarrow> p_size_sampler p = None \<and> p_cell_size p \<le> 2) \<and>
   wrap rf base (zero_policy\<lparr>p_paced := pc, p_front := fc, p_cover_every := ce\<rparr>) = BaseConn base"
  by (simp add: wrap_Base_iff new_shaped_None_iff zero_policy_def)

text \<open>
  The pacer owns all writes: a shaped connection runs the pacing loop if and only if it is
  paced, and then it runs no cover loop and no FRONT loop beside it; otherwise it runs at most
  one of each, and only with the positive parameters their tickers and draws need.
\<close>

theorem new_shaped_loops:
  assumes "new_shaped_conn rf p = Some (c, ls)"
  shows "(paced c \<longleftrightarrow> ls = [PacingLoop]) \<and> (PacingLoop \<in> set ls \<longleftrightarrow> paced c) \<and> distinct ls \<and>
    list_all (\<lambda>l. case l of CoverLoop d \<Rightarrow> 0 < d
                | FrontLoop f \<Rightarrow> 0 < fc_window f \<and> 0 < fc_max_count f | PacingLoop \<Rightarrow> True) ls"
  using assms by (auto simp: policy_defs split: if_splits option.splits)

theorem new_shaped_loops_witness:
  "\<exists>c. new_shaped_conn zero_fill ((zero_policy :: unit policy)\<lparr>p_cell_size := 512,
       p_cover_every := 50000000, p_front := Some \<lparr>fc_window = 2000000000, fc_max_count = 30\<rparr>\<rparr>) =
     Some (c, [CoverLoop 50000000, FrontLoop \<lparr>fc_window = 2000000000, fc_max_count = 30\<rparr>]) \<and>
     \<not> paced c"
proof -
  let ?p = "(zero_policy :: unit policy)\<lparr>p_cell_size := 512, p_cover_every := 50000000,
       p_front := Some \<lparr>fc_window = 2000000000, fc_max_count = 30\<rparr>\<rparr>"
  let ?ls = "[CoverLoop 50000000, FrontLoop \<lparr>fc_window = 2000000000, fc_max_count = 30\<rparr>]"
  obtain c where c: "new_shaped_conn zero_fill ?p = Some (c, ?ls)"
    by (simp add: policy_defs zero_policy_def)
  from new_shaped_loops [OF c] have "\<not> paced c" by simp
  with c show ?thesis by blast
qed

end
