(* ===== verification/Framing.thy ===== *)
theory Framing
  imports Go_IO Policy
begin

text \<open>
  The part of a shaped connection that both framing modes share: the read state, the loop
  \<open>for len(c.pending) == 0\<close> of \<open>Read\<close> and \<open>readMorph\<close>, and the contract between a reader
  of cells and a writer of cells. The locale \<open>framing\<close> states what a mode must guarantee of
  one cell; its clients, proved once, are that \<open>Read\<close> returns on every input, and that a
  stream of cells, cover cells included, is delivered as the payload stream. \<open>framer\<close> adds
  the writer's side: whatever order data and cover are sent in, the peer reads the data.
\<close>

datatype conn_err = CorruptCell | IoErr io_err

definition conn_unexpected :: "conn_err \<Rightarrow> conn_err" where
  "conn_unexpected e = (case e of IoErr err \<Rightarrow> IoErr (unexpected err) | CorruptCell \<Rightarrow> CorruptCell)"

section \<open>The read side\<close>

text \<open>
  \<open>src\<close> is the base connection, \<open>pending\<close> the undelivered data of the last cell,
  \<open>rbuf_cap\<close> the capacity of the buffer that morpher mode grows cell by cell.
\<close>

record rstate =
  src :: instream
  pending :: bytes
  rbuf_cap :: nat

type_synonym next_cell = "rstate \<Rightarrow> ((conn_err + bytes) \<times> rstate) option"

text \<open>
  Cells are read until one carries data; \<open>None\<close> is a panic inside a cell or a loop that
  never ends.
\<close>

partial_function (option) fill_pending ::
  "(rstate \<Rightarrow> ((conn_err + bytes) \<times> rstate) option) \<Rightarrow> rstate \<Rightarrow> (conn_err option \<times> rstate) option"
where
  "fill_pending nc s =
     (if pending s \<noteq> [] then Some (None, s)
      else Option.bind (nc s) (\<lambda>(r, s'). case r of
          Inl e \<Rightarrow> Some (Some e, s')
        | Inr d \<Rightarrow> fill_pending nc (s'\<lparr>pending := d\<rparr>)))"

lemma fill_pending_keeps:
  assumes step: "\<And>s x s'. P s \<Longrightarrow> nc s = Some (x, s') \<Longrightarrow> P s'"
    and pend: "\<And>s d. P s \<Longrightarrow> P (s\<lparr>pending := d\<rparr>)"
    and ret: "fill_pending nc s = Some (e, s')" and P: "P s"
  shows "P s'"
proof -
  have "nc = nc \<longrightarrow> P s \<longrightarrow> P (snd (e, s'))"
  proof (rule fill_pending.raw_induct [where P = "\<lambda>f s y. f = nc \<longrightarrow> P s \<longrightarrow> P (snd y)", OF _ ret], intro impI)
    fix f nc' s y
    assume IH: "\<And>g b y. f g b = Some y \<Longrightarrow> g = nc \<longrightarrow> P b \<longrightarrow> P (snd y)"
      and eq': "(if pending s \<noteq> [] then Some (None, s)
        else Option.bind (nc' s) (\<lambda>(r, s'). case r of
          Inl e \<Rightarrow> Some (Some e, s') | Inr d \<Rightarrow> f nc' (s'\<lparr>pending := d\<rparr>))) = Some y"
      and nc': "nc' = nc" and s: "P s"
    note eq = eq' [unfolded nc']
    show "P (snd y)"
    proof (cases "pending s = []")
      case True
      with eq obtain r s1 where r: "nc s = Some (r, s1)"
        "(case r of Inl e \<Rightarrow> Some (Some e, s1) | Inr d \<Rightarrow> f nc (s1\<lparr>pending := d\<rparr>)) = Some y"
        by (auto simp: bind_eq_Some_conv)
      from step [OF s r(1)] have "P s1" .
      with r(2) pend IH show ?thesis by (cases r) auto
    qed (use eq s in auto)
  qed
  with P show ?thesis by simp
qed

text \<open>\<open>k := copy(p, c.pending); c.pending = c.pending[k:]; return k, nil\<close>.\<close>

definition conn_read ::
  "(rstate \<Rightarrow> ((conn_err + bytes) \<times> rstate) option) \<Rightarrow> nat \<Rightarrow> rstate \<Rightarrow>
   (bytes \<times> conn_err option \<times> rstate) option" where
  "conn_read nc n s = Option.bind (fill_pending nc s) (\<lambda>(e, s'). case e of
      Some err \<Rightarrow> Some ([], Some err, s')
    | None \<Rightarrow> Some (take n (pending s'), None, s'\<lparr>pending := drop n (pending s')\<rparr>))"

lemma conn_read_pending:
  "pending s \<noteq> [] \<Longrightarrow>
   conn_read nc n s = Some (take n (pending s), None, s\<lparr>pending := drop n (pending s)\<rparr>)"
  by (simp add: conn_read_def fill_pending.simps [of nc s])

lemma conn_read_error:
  "pending s = [] \<Longrightarrow> nc s = Some (Inl e, s') \<Longrightarrow> conn_read nc n s = Some ([], Some e, s')"
  by (simp add: conn_read_def fill_pending.simps [of _ s])

text \<open>
  A caller that reads with a buffer of \<open>n\<close> bytes until an error, at most \<open>f\<close> times: what it
  got and the error, or \<open>None\<close> if the reader panics, hangs or is still without an error.
\<close>

fun drain ::
  "(nat \<Rightarrow> rstate \<Rightarrow> (bytes \<times> conn_err option \<times> rstate) option) \<Rightarrow> nat \<Rightarrow> nat \<Rightarrow> rstate \<Rightarrow>
   (bytes \<times> conn_err) option" where
  "drain rd 0 n s = None"
| "drain rd (Suc f) n s = Option.bind (rd n s) (\<lambda>(bs, e, s'). case e of
      Some err \<Rightarrow> Some (bs, err)
    | None \<Rightarrow> map_option (\<lambda>(rest, err). (bs @ rest, err)) (drain rd f n s'))"

text \<open>A caller that reads with buffers of the given lengths and carries on after errors.\<close>

fun run_reads ::
  "(nat \<Rightarrow> rstate \<Rightarrow> (bytes \<times> conn_err option \<times> rstate) option) \<Rightarrow> nat list \<Rightarrow> rstate \<Rightarrow>
   rstate option" where
  "run_reads rd [] s = Some s"
| "run_reads rd (n # ns) s = Option.bind (rd n s) (\<lambda>(bs, e, s'). run_reads rd ns s')"

definition unread :: "rstate \<Rightarrow> nat" where
  "unread s = length (pending s) + length (avail (src s))"

section \<open>The contract of a framing mode\<close>

text \<open>
  \<open>frame c w d\<close>: the wire bytes \<open>w\<close> are one cell carrying the data \<open>d\<close> (none for cover).
  Reading a cell never panics, on any input, and consumes something unless it fails.
\<close>

locale framing =
  fixes wf :: "'c \<Rightarrow> bool"
    and nc :: "'c \<Rightarrow> rstate \<Rightarrow> ((conn_err + bytes) \<times> rstate) option"
    and frame :: "'c \<Rightarrow> bytes \<Rightarrow> bytes \<Rightarrow> bool"
  assumes next_frame: "wf c \<Longrightarrow> frame c w d \<Longrightarrow> avail (src s) = w @ rest \<Longrightarrow>
      \<exists>k. nc c s = Some (Inr d, s\<lparr>src := (src s)\<lparr>avail := rest\<rparr>, rbuf_cap := k\<rparr>)"
    and next_end: "wf c \<Longrightarrow> avail (src s) = [] \<Longrightarrow> nc c s = Some (Inl (IoErr (rd_err (src s))), s)"
    and next_total: "wf c \<Longrightarrow> \<exists>r s'. nc c s = Some (r, s') \<and> pending s' = pending s \<and>
      (\<forall>d. r = Inr d \<longrightarrow> length d + length (avail (src s')) < length (avail (src s)))"
begin

text \<open>\<open>Read\<close> returns, with data or an error, for every input.\<close>

lemma fill_pending_total:
  "wf c \<Longrightarrow> \<exists>e s'. fill_pending (nc c) s = Some (e, s') \<and> (e = None \<longleftrightarrow> pending s' \<noteq> []) \<and>
     (e = None \<longrightarrow> unread s' \<le> unread s)"
proof (induction "length (avail (src s))" arbitrary: s rule: less_induct)
  case less
  obtain r s1 where nc: "nc c s = Some (r, s1)" and p1: "pending s1 = pending s"
    and shrink: "\<And>d. r = Inr d \<Longrightarrow> length d + length (avail (src s1)) < length (avail (src s))"
    using next_total [OF less.prems, of s] by blast
  show ?case
  proof (cases "pending s \<noteq> []")
    case True
    then show ?thesis by (simp add: fill_pending.simps [of _ s])
  next
    case False
    show ?thesis
    proof (cases r)
      case (Inl e)
      with nc False p1 show ?thesis by (simp add: fill_pending.simps [of _ s])
    next
      case (Inr d)
      with shrink [of d] have "length d + length (avail (src s1)) < length (avail (src s))" by simp
      moreover from this have "length (avail (src (s1\<lparr>pending := d\<rparr>))) < length (avail (src s))" by simp
      from less.hyps [OF this less.prems] obtain e s' where
        "fill_pending (nc c) (s1\<lparr>pending := d\<rparr>) = Some (e, s')" "e = None \<longleftrightarrow> pending s' \<noteq> []"
        "e = None \<longrightarrow> unread s' \<le> unread (s1\<lparr>pending := d\<rparr>)" by blast
      ultimately show ?thesis
        using nc Inr False by (auto simp: fill_pending.simps [of _ s] unread_def)
    qed
  qed
qed

lemma read_total:
  assumes "wf c"
  shows "\<exists>bs e s'. conn_read (nc c) n s = Some (bs, e, s') \<and> length bs \<le> n \<and>
    (e = None \<longrightarrow> 0 < n \<longrightarrow> bs \<noteq> []) \<and> (e \<noteq> None \<longrightarrow> bs = []) \<and>
    (e = None \<longrightarrow> unread s' + length bs \<le> unread s)"
proof -
  obtain e s' where "fill_pending (nc c) s = Some (e, s')" "e = None \<longleftrightarrow> pending s' \<noteq> []"
    "e = None \<longrightarrow> unread s' \<le> unread s"
    using fill_pending_total [OF assms] by blast
  then show ?thesis by (cases e) (auto simp: conn_read_def unread_def)
qed

lemma drain_total:
  "wf c \<Longrightarrow> 0 < n \<Longrightarrow> unread s < f \<Longrightarrow> \<exists>bs err. drain (conn_read (nc c)) f n s = Some (bs, err)"
proof (induction f arbitrary: s)
  case (Suc f)
  obtain bs e s' where rd: "conn_read (nc c) n s = Some (bs, e, s')"
    and ne: "e = None \<longrightarrow> bs \<noteq> []" and le: "e = None \<longrightarrow> unread s' + length bs \<le> unread s"
    using read_total [OF Suc.prems(1), of n s] Suc.prems(2) by blast
  show ?case
  proof (cases e)
    case None
    with ne le Suc.prems(3) have "unread s' < f" by (cases bs) auto
    from Suc.IH [OF Suc.prems(1,2) this] rd None show ?thesis by auto
  next
    case (Some err)
    with rd show ?thesis by simp
  qed
qed simp

text \<open>What a stream of cells delivers.\<close>

definition delivers :: "'c \<Rightarrow> rstate \<Rightarrow> bytes \<Rightarrow> conn_err \<Rightarrow> bool" where
  "delivers c s bs e \<longleftrightarrow> wf c \<and> e = IoErr (rd_err (src s)) \<and>
     (\<exists>ws ds. list_all2 (frame c) ws ds \<and> avail (src s) = concat ws \<and> bs = pending s @ concat ds)"

lemma deliversI:
  "wf c \<Longrightarrow> list_all2 (frame c) ws ds \<Longrightarrow> avail (src s) = concat ws \<Longrightarrow>
   delivers c s (pending s @ concat ds) (IoErr (rd_err (src s)))"
  by (auto simp: delivers_def)

lemma fill_pending_cells:
  assumes "wf c" "list_all2 (frame c) ws ds" "avail (src s) = concat ws"
  shows "\<exists>s' e. fill_pending (nc c) s = Some (e, s') \<and>
    e = (if pending s @ concat ds = [] then Some (IoErr (rd_err (src s))) else None) \<and>
    delivers c s' (pending s @ concat ds) (IoErr (rd_err (src s))) \<and>
    (pending s @ concat ds \<noteq> [] \<longrightarrow> pending s' \<noteq> [])"
  using assms(2,3)
proof (induction ws ds arbitrary: s rule: list_all2_induct)
  case Nil
  then show ?case
    using next_end [OF assms(1), of s] deliversI [OF assms(1), of "[]" "[]" s]
    by (auto simp: fill_pending.simps [of _ s])
next
  case (Cons w ws d ds)
  show ?case
  proof (cases "pending s \<noteq> []")
    case True
    with Cons.hyps Cons.prems deliversI [OF assms(1), of "w # ws" "d # ds" s] show ?thesis
      by (auto simp: fill_pending.simps [of _ s])
  next
    case False
    from Cons.prems next_frame [OF assms(1) Cons.hyps(1), of s "concat ws"] obtain k where
      nc: "nc c s = Some (Inr d, s\<lparr>src := (src s)\<lparr>avail := concat ws\<rparr>, rbuf_cap := k\<rparr>)" by auto
    let ?s = "s\<lparr>src := (src s)\<lparr>avail := concat ws\<rparr>, rbuf_cap := k, pending := d\<rparr>"
    have fields: "avail (src ?s) = concat ws" "rd_err (src ?s) = rd_err (src s)" "pending ?s = d"
      by simp_all
    note Cons.IH [OF fields(1), unfolded fields(2,3)]
    with nc False show ?thesis by (simp add: fill_pending.simps [of _ s])
  qed
qed

lemma delivers_drop:
  assumes "delivers c s bs e" "k \<le> length (pending s)"
  shows "delivers c (s\<lparr>pending := drop k (pending s)\<rparr>) (drop k bs) e"
proof -
  from assms obtain ws ds where "list_all2 (frame c) ws ds" "avail (src s) = concat ws"
    "bs = pending s @ concat ds" by (auto simp: delivers_def)
  with assms show ?thesis
    unfolding delivers_def by (intro conjI exI [of _ ws] exI [of _ ds]) simp_all
qed

lemma fill_pending_delivers:
  assumes "delivers c s bs e"
  obtains s' where "delivers c s' bs e"
    "fill_pending (nc c) s = Some (if bs = [] then Some e else None, s')"
    "bs \<noteq> [] \<Longrightarrow> pending s' \<noteq> []"
proof -
  from assms obtain ws ds where w: "wf c" "list_all2 (frame c) ws ds" "avail (src s) = concat ws"
    and bs: "bs = pending s @ concat ds" and e: "e = IoErr (rd_err (src s))"
    by (auto simp: delivers_def)
  from fill_pending_cells [OF w] show ?thesis
    unfolding bs [symmetric] e [symmetric] by (auto intro: that)
qed

end

text \<open>
  So a shaped connection meets the contract of \<open>io.Reader\<close> over its payload stream, and
  \<open>io.ReadFull\<close> on it is covered by the lemmas of \<open>reader\<close>.
\<close>

sublocale framing \<subseteq> shaped_reader: reader "conn_read (nc c)" "delivers c" for c
proof
  fix s bs e and n :: nat
  assume d: "delivers c s bs e" and n: "0 < n" and ne: "bs \<noteq> []"
  from fill_pending_delivers [OF d] ne obtain s1 where
    f: "fill_pending (nc c) s = Some (None, s1)" and d1: "delivers c s1 bs e" and p: "pending s1 \<noteq> []"
    by metis
  let ?k = "min n (length (pending s1))"
  let ?s = "s1\<lparr>pending := drop n (pending s1)\<rparr>"
  from d1 obtain t where t: "bs = pending s1 @ t" by (auto simp: delivers_def)
  from delivers_drop [OF d1, of ?k] have "delivers c ?s (drop ?k bs) e"
    by (cases "n \<le> length (pending s1)") (simp_all add: min_def)
  moreover have "conn_read (nc c) n s = Some (take ?k bs, None, ?s)"
    using f t by (simp add: conn_read_def min_def)
  ultimately show "\<exists>k s'. 0 < k \<and> k \<le> n \<and> k \<le> length bs \<and>
      conn_read (nc c) n s = Some (take k bs, None, s') \<and> delivers c s' (drop k bs) e"
    using n p t by (intro exI [of _ ?k] exI [of _ ?s]) auto
next
  fix s e and n :: nat
  assume d: "delivers c s [] e"
  from fill_pending_delivers [OF d] obtain s' where
    "delivers c s' [] e" "fill_pending (nc c) s = Some (Some e, s')" by (metis (full_types))
  then show "\<exists>s'. conn_read (nc c) n s = Some ([], Some e, s') \<and> delivers c s' [] e"
    by (simp add: conn_read_def)
qed

section \<open>The writer's side\<close>

text \<open>
  \<open>cells c p r\<close> frames the bytes of one \<open>Write\<close>, \<open>cover c r\<close> builds one cover cell; both
  draw padding from \<open>r\<close>.
\<close>

datatype send = SendData bytes | SendCover

definition sent_data :: "send list \<Rightarrow> bytes" where
  "sent_data evs = concat (map (\<lambda>ev. case ev of SendData p \<Rightarrow> p | SendCover \<Rightarrow> []) evs)"

lemma sent_data_simps [simp]:
  "sent_data [] = []"
  "sent_data (SendData p # evs) = p @ sent_data evs"
  "sent_data (SendCover # evs) = sent_data evs"
  by (simp_all add: sent_data_def)

fun emit ::
  "(bytes \<Rightarrow> 'r \<Rightarrow> bytes list \<times> 'r) \<Rightarrow> ('r \<Rightarrow> bytes \<times> 'r) \<Rightarrow> send list \<Rightarrow> 'r \<Rightarrow> bytes list \<times> 'r"
where
  "emit cells cover [] r = ([], r)"
| "emit cells cover (SendData p # evs) r =
     (let (ws, r1) = cells p r; (rest, r2) = emit cells cover evs r1 in (ws @ rest, r2))"
| "emit cells cover (SendCover # evs) r =
     (let (w, r1) = cover r; (rest, r2) = emit cells cover evs r1 in (w # rest, r2))"

locale framer = framing wf nc frame
  for wf :: "'c \<Rightarrow> bool" and nc and frame +
  fixes cells :: "'c \<Rightarrow> bytes \<Rightarrow> 'r \<Rightarrow> bytes list \<times> 'r"
    and cover :: "'c \<Rightarrow> 'r \<Rightarrow> bytes \<times> 'r"
  assumes cells_frame: "wf c \<Longrightarrow> cells c p r = (ws, r') \<Longrightarrow>
      \<exists>ds. list_all2 (frame c) ws ds \<and> concat ds = p"
    and cover_frame: "wf c \<Longrightarrow> cover c r = (w, r') \<Longrightarrow> frame c w []"
begin

lemma emit_frames:
  "wf c \<Longrightarrow> emit (cells c) (cover c) evs r = (ws, r') \<Longrightarrow>
   \<exists>ds. list_all2 (frame c) ws ds \<and> concat ds = sent_data evs"
proof (induction "cells c" "cover c" evs r arbitrary: ws r' rule: emit.induct)
  case (1 r)
  then show ?case by auto
next
  case (2 p evs r)
  obtain ws1 r1 where 1: "cells c p r = (ws1, r1)" by force
  obtain ws2 r2 where 2: "emit (cells c) (cover c) evs r1 = (ws2, r2)" by force
  from "2.hyps" [OF 1 [symmetric] refl "2.prems"(1) 2] cells_frame [OF "2.prems"(1) 1]
  obtain ds1 ds2 where "list_all2 (frame c) ws1 ds1" "concat ds1 = p"
    "list_all2 (frame c) ws2 ds2" "concat ds2 = sent_data evs" by blast
  with "2.prems"(2) 1 2 show ?case
    by (intro exI [of _ "ds1 @ ds2"]) (auto intro: list_all2_appendI)
next
  case (3 evs r)
  obtain w r1 where 1: "cover c r = (w, r1)" by force
  obtain ws2 r2 where 2: "emit (cells c) (cover c) evs r1 = (ws2, r2)" by force
  from "3.hyps" [OF 1 [symmetric] refl "3.prems"(1) 2] cover_frame [OF "3.prems"(1) 1]
  obtain ds2 where "frame c w []" "list_all2 (frame c) ws2 ds2" "concat ds2 = sent_data evs"
    by blast
  with "3.prems"(2) 1 2 show ?case
    by (intro exI [of _ "[] # ds2"]) auto
qed

text \<open>The peer of a writer that sent \<open>evs\<close> reads exactly the data, whatever cover there is.\<close>

lemma emit_delivers:
  assumes "wf c" "emit (cells c) (cover c) evs r = (ws, r')"
    and "avail (src s) = concat ws" "pending s = []"
  shows "delivers c s (sent_data evs) (IoErr (rd_err (src s)))"
  using emit_frames [OF assms(1,2)] deliversI [OF assms(1) _ assms(3)] assms(4) by force

lemma emit_read_full:
  assumes "wf c" "emit (cells c) (cover c) evs r = (ws, r')"
    and "avail (src s) = concat ws" "pending s = []" "n \<le> length (sent_data evs)"
  shows "\<exists>s'. read_full_loop (conn_read (nc c)) conn_unexpected n [] s =
      Some (take n (sent_data evs), None, s')"
  using shaped_reader.read_full_delivers [OF emit_delivers [OF assms(1-4)] assms(5)] by blast

lemma emit_read_all:
  assumes "wf c" "emit (cells c) (cover c) evs r = (ws, r')"
    and "avail (src s) = concat ws" "pending s = []" "length (sent_data evs) < n"
  shows "\<exists>s' e. read_full_loop (conn_read (nc c)) conn_unexpected n [] s =
      Some (sent_data evs, Some e, s')"
  using shaped_reader.read_full_ends [OF emit_delivers [OF assms(1-4)] assms(5)] by blast

end

end
