(* ===== verification/Fixed_Cells.thy ===== *)
theory Fixed_Cells
  imports Framing
begin

text \<open>
  Fixed-cell framing, \<open>conn.go\<close>: every wire cell is
  \<^verbatim>\<open>[2-byte big-endian real length n][n data bytes][padding]\<close> and exactly \<open>cell_size\<close>
  bytes long; length 0 marks a cover cell. The writer (\<open>fixedCells\<close>, \<open>coverCell\<close>) and one
  turn of the reader's loop (\<open>Read\<close>) are shown to meet \<open>framing\<close> and \<open>framer\<close>.
\<close>

section \<open>Writer\<close>

text \<open>
  The loop over the cells: \<open>PutUint16(cell[:hdrSize], uint16(m))\<close>, \<open>copy\<close> of \<open>m\<close> bytes,
  \<open>fill(cell[hdrSize+m:])\<close>. The conversion \<open>uint16(m)\<close> is the source's.
\<close>

fun fixed_loop :: "'r shaper \<Rightarrow> nat \<Rightarrow> bytes \<Rightarrow> 'r \<Rightarrow> bytes list \<times> 'r" where
  "fixed_loop c 0 source r = ([], r)"
| "fixed_loop c (Suc i) source r =
     (let m = (if length source > max_data c then max_data c else length source);
          (pad, r1) = fill c (cell_size c - hdr_size - m) r;
          cell = put_uint16 (to_uint16 m) @ take m source @ pad;
          (rest, r2) = fixed_loop c i (drop m source) r1
      in (cell # rest, r2))"

text \<open>
  \<open>fixedCells\<close> returns the buffer and the cells that alias it; a caller flushes the buffer
  or enqueues the cells, never both.
\<close>

definition fixed_cells :: "'r shaper \<Rightarrow> bytes \<Rightarrow> 'r \<Rightarrow> (bytes \<times> bytes list) \<times> 'r" where
  "fixed_cells c p r =
     (let n_cells = (length p + max_data c - 1) div max_data c;
          (cells, r1) = fixed_loop c n_cells p r
      in ((concat cells, cells), r1))"

definition fixed_cover_cell :: "'r shaper \<Rightarrow> 'r \<Rightarrow> bytes \<times> 'r" where
  "fixed_cover_cell c r =
     (let (pad, r1) = fill c (cell_size c - hdr_size) r in (replicate hdr_size 0 @ pad, r1))"

section \<open>Reader\<close>

text \<open>
  One turn of the loop in \<open>Read\<close>: \<open>io.ReadFull\<close> of a cell, the length field, the check
  \<open>n > c.maxData\<close>, the slice \<open>c.cell[hdrSize : hdrSize+n]\<close>.
\<close>

definition fixed_cell :: "'r shaper \<Rightarrow> rstate \<Rightarrow> ((conn_err + bytes) \<times> rstate) option" where
  "fixed_cell c s =
     (case read_full (cell_size c) (src s) of
        (_, Some e, i) \<Rightarrow> Some (Inl (IoErr e), s\<lparr>src := i\<rparr>)
      | (cell, None, i) \<Rightarrow> do {
          h \<leftarrow> go_slice cell 0 hdr_size;
          v \<leftarrow> get_uint16 h;
          let n = unat v;
          (if n > max_data c then Some (Inl CorruptCell, s\<lparr>src := i\<rparr>)
           else do {
             d \<leftarrow> go_slice cell hdr_size (hdr_size + n);
             Some (Inr d, s\<lparr>src := i\<rparr>) }) })"

definition fixed_read :: "'r shaper \<Rightarrow> nat \<Rightarrow> rstate \<Rightarrow> (bytes \<times> conn_err option \<times> rstate) option" where
  "fixed_read c = conn_read (fixed_cell c)"

section \<open>One cell\<close>

definition fixed_ok :: "'r shaper \<Rightarrow> bool" where
  "fixed_ok c \<longleftrightarrow> hdr_size < cell_size c \<and> max_data c = cell_size c - hdr_size"

definition fixed_frame :: "'r shaper \<Rightarrow> bytes \<Rightarrow> bytes \<Rightarrow> bool" where
  "fixed_frame c w d \<longleftrightarrow> length w = cell_size c \<and> length d \<le> max_data c \<and> length d < 65536 \<and>
     take (hdr_size + length d) w = put_uint16 (to_uint16 (length d)) @ d"

lemma fixed_ok_hdr: "fixed_ok c \<Longrightarrow> 2 < cell_size c \<and> max_data c = cell_size c - 2"
  by (simp add: fixed_ok_def hdr_size_def)

lemma fixed_frame_split:
  assumes "fixed_frame c w d"
  obtains pad where "w = put_uint16 (to_uint16 (length d)) @ d @ pad"
proof -
  have "w = take (hdr_size + length d) w @ drop (hdr_size + length d) w" by simp
  also have "take (hdr_size + length d) w = put_uint16 (to_uint16 (length d)) @ d"
    using assms by (simp add: fixed_frame_def)
  finally show ?thesis by (intro that) simp
qed

lemma fixed_cell_frame:
  assumes "fixed_ok c" "fixed_frame c w d" "avail (src s) = w @ rest"
  shows "fixed_cell c s = Some (Inr d, s\<lparr>src := (src s)\<lparr>avail := rest\<rparr>\<rparr>)"
proof -
  from assms(2) obtain pad where w: "w = put_uint16 (to_uint16 (length d)) @ d @ pad"
    by (rule fixed_frame_split)
  have len: "length w = cell_size c" "length d \<le> max_data c" "length d < 65536"
    using assms(2) by (auto simp: fixed_frame_def)
  have "read_full (cell_size c) (src s) = (w, None, (src s)\<lparr>avail := rest\<rparr>)"
    using len assms(3) by (simp add: read_full_append)
  moreover have "go_slice w 0 hdr_size = Some (put_uint16 (to_uint16 (length d)))"
    by (simp add: w hdr_size_def go_slice_def)
  moreover have "go_slice w hdr_size (hdr_size + length d) = Some d"
    by (simp add: w hdr_size_def go_slice_def)
  ultimately show ?thesis
    using len by (simp add: fixed_cell_def)
qed

lemma fixed_cell_end:
  "fixed_ok c \<Longrightarrow> avail (src s) = [] \<Longrightarrow> fixed_cell c s = Some (Inl (IoErr (rd_err (src s))), s)"
  by (simp add: fixed_cell_def read_full_empty fixed_ok_def)

text \<open>Every outcome of one turn of the loop, on any input; there is no panic among them.\<close>

lemma fixed_cell_cases:
  assumes "fixed_ok c"
  obtains e where "fixed_cell c s = Some (Inl (IoErr e), s\<lparr>src := (src s)\<lparr>avail := []\<rparr>\<rparr>)"
      "length (avail (src s)) < cell_size c"
  | "fixed_cell c s = Some (Inl CorruptCell, s\<lparr>src := (src s)\<lparr>avail := drop (cell_size c) (avail (src s))\<rparr>\<rparr>)"
      "cell_size c \<le> length (avail (src s))"
      "be16 (avail (src s) ! 0) (avail (src s) ! 1) > max_data c"
  | "fixed_cell c s = Some
       (Inr (take (be16 (avail (src s) ! 0) (avail (src s) ! 1)) (drop hdr_size (avail (src s)))),
        s\<lparr>src := (src s)\<lparr>avail := drop (cell_size c) (avail (src s))\<rparr>\<rparr>)"
      "cell_size c \<le> length (avail (src s))"
      "be16 (avail (src s) ! 0) (avail (src s) ! 1) \<le> max_data c"
proof (cases "length (avail (src s)) < cell_size c")
  case True
  then show ?thesis using that(1) by (auto simp: fixed_cell_def read_full_def)
next
  case False
  let ?a = "avail (src s)"
  let ?w = "take (cell_size c) ?a"
  have sz: "2 < cell_size c" "max_data c = cell_size c - 2"
    using fixed_ok_hdr [OF assms] by auto
  have h: "go_slice ?w 0 hdr_size = Some (take 2 ?a)"
    using False sz by (simp add: go_slice_def hdr_size_def min_def)
  obtain v where v: "get_uint16 (take 2 ?a) = Some v"
    using get_uint16_Some [of "take 2 ?a"] False sz by auto
  then have uv: "unat v = be16 (?a ! 0) (?a ! 1)"
    using get_uint16_be16 [OF v] by simp
  have "go_slice ?w hdr_size (hdr_size + unat v) = Some (take (unat v) (drop hdr_size ?a))"
    if "unat v \<le> max_data c"
    using that False sz by (simp add: go_slice_def hdr_size_def drop_take min_def)
  then show ?thesis
    using that(2,3) False h v uv by (cases "unat v > max_data c") (auto simp: fixed_cell_def read_full_def)
qed

interpretation fixed: framing fixed_ok fixed_cell fixed_frame
proof
  fix c :: "'r shaper" and w d rest and s :: rstate
  assume "fixed_ok c" "fixed_frame c w d" "avail (src s) = w @ rest"
  from fixed_cell_frame [OF this] show
    "\<exists>k. fixed_cell c s = Some (Inr d, s\<lparr>src := (src s)\<lparr>avail := rest\<rparr>, rbuf_cap := k\<rparr>)"
    by (intro exI [of _ "rbuf_cap s"]) simp
next
  fix c :: "'r shaper" and s :: rstate
  assume "fixed_ok c" "avail (src s) = []"
  then show "fixed_cell c s = Some (Inl (IoErr (rd_err (src s))), s)" by (rule fixed_cell_end)
next
  fix c :: "'r shaper" and s :: rstate
  assume ok: "fixed_ok c"
  then have "max_data c < cell_size c" by (simp add: fixed_ok_def hdr_size_def)
  then show "\<exists>r s'. fixed_cell c s = Some (r, s') \<and> pending s' = pending s \<and>
      (\<forall>d. r = Inr d \<longrightarrow> length d + length (avail (src s')) < length (avail (src s)))"
    by (cases rule: fixed_cell_cases [OF ok, of s]) auto
qed

section \<open>The writer frames\<close>

text \<open>
  The length field holds 16 bits, so the writer's cells are frames only when \<open>max_data\<close> fits
  into it; \<open>newShapedConn\<close> does not check this.
\<close>

definition fixed_wf :: "'r shaper \<Rightarrow> bool" where
  "fixed_wf c \<longleftrightarrow> fixed_ok c \<and> max_data c < 65536 \<and> filler (fill c)"

lemma fixed_loop_lengths:
  assumes "fixed_ok c" "filler (fill c)"
  shows "fixed_loop c i source r = (ws, r') \<Longrightarrow>
    length ws = i \<and> list_all (\<lambda>w. length w = cell_size c) ws"
proof (induction i arbitrary: source r ws r')
  case (Suc i)
  then show ?case
    using filler.fill_whole [OF assms(2)] fixed_ok_hdr [OF assms(1)]
    by (auto simp: Let_def hdr_size_def split: prod.splits if_splits)
qed simp

lemma fixed_loop_frames:
  assumes "fixed_wf c"
  shows "fixed_loop c i source r = (ws, r') \<Longrightarrow> length source \<le> i * max_data c \<Longrightarrow>
    \<exists>ds. list_all2 (fixed_frame c) ws ds \<and> concat ds = source"
proof (induction i arbitrary: source r ws r')
  case (Suc i)
  define m where "m = (if length source > max_data c then max_data c else length source)"
  obtain pad r1 where pad: "fill c (cell_size c - hdr_size - m) r = (pad, r1)" by force
  obtain ws1 r2 where rec: "fixed_loop c i (drop m source) r1 = (ws1, r2)" by force
  have ws: "ws = (put_uint16 (to_uint16 m) @ take m source @ pad) # ws1"
    using Suc.prems(1) pad rec by (simp add: m_def Let_def)
  have len: "length pad = cell_size c - hdr_size - m"
    using filler.fill_whole [of "fill c", OF _ pad] assms by (simp add: fixed_wf_def)
  have "length (drop m source) \<le> i * max_data c"
    using Suc.prems(2) by (auto simp: m_def)
  from Suc.IH [OF rec this] obtain ds where
    ds: "list_all2 (fixed_frame c) ws1 ds" "concat ds = drop m source" by blast
  have "fixed_frame c (put_uint16 (to_uint16 m) @ take m source @ pad) (take m source)"
    using assms len by (auto simp: fixed_frame_def fixed_wf_def fixed_ok_def hdr_size_def m_def)
  with ds ws show ?case
    by (intro exI [of _ "take m source # ds"]) simp
qed simp

lemma fixed_cover_frame:
  assumes "fixed_wf c" "fixed_cover_cell c r = (w, r')"
  shows "fixed_frame c w []"
proof -
  obtain pad where "fill c (cell_size c - hdr_size) r = (pad, r')" "w = replicate hdr_size 0 @ pad"
    using assms(2) by (auto simp: fixed_cover_cell_def split: prod.splits)
  moreover from this have "length pad = cell_size c - hdr_size"
    using assms(1) filler.fill_whole by (auto simp: fixed_wf_def)
  moreover have "put_uint16 (to_uint16 0) = replicate hdr_size 0"
    by (simp add: put_uint16_def to_uint16_def hdr_size_def numeral_2_eq_2)
  ultimately show ?thesis
    using assms(1) by (auto simp: fixed_frame_def fixed_wf_def fixed_ok_def hdr_size_def)
qed

lemma ceil_div_covers: "0 < m \<Longrightarrow> n \<le> ((n + m - 1) div m) * (m :: nat)"
  using mod_less_divisor [of m "n + m - 1"] div_mult_mod_eq [of "n + m - 1" m] by linarith

lemma fixed_cells_frames:
  assumes "fixed_wf c" "fixed_cells c p r = ((buf, ws), r')"
  shows "\<exists>ds. list_all2 (fixed_frame c) ws ds \<and> concat ds = p"
  using assms fixed_loop_frames [OF assms(1)] ceil_div_covers [of "max_data c" "length p"]
  by (auto simp: fixed_cells_def fixed_wf_def fixed_ok_def hdr_size_def Let_def split: prod.splits)

interpretation fixed_framer: framer fixed_wf fixed_cell fixed_frame
  "\<lambda>c p r. (snd (fst (fixed_cells c p r)), snd (fixed_cells c p r))" fixed_cover_cell
proof
  fix c :: "'r shaper" and w d rest and s :: rstate
  assume "fixed_wf c" "fixed_frame c w d" "avail (src s) = w @ rest"
  then show "\<exists>k. fixed_cell c s = Some (Inr d, s\<lparr>src := (src s)\<lparr>avail := rest\<rparr>, rbuf_cap := k\<rparr>)"
    by (intro fixed.next_frame) (auto simp: fixed_wf_def)
next
  fix c :: "'r shaper" and s :: rstate
  assume "fixed_wf c" "avail (src s) = []"
  then show "fixed_cell c s = Some (Inl (IoErr (rd_err (src s))), s)"
    by (intro fixed.next_end) (auto simp: fixed_wf_def)
next
  fix c :: "'r shaper" and s :: rstate
  assume "fixed_wf c"
  then show "\<exists>r s'. fixed_cell c s = Some (r, s') \<and> pending s' = pending s \<and>
      (\<forall>d. r = Inr d \<longrightarrow> length d + length (avail (src s')) < length (avail (src s)))"
    by (intro fixed.next_total) (auto simp: fixed_wf_def)
next
  fix c :: "'r shaper" and p ws and r r' :: 'r
  assume "fixed_wf c" "(snd (fst (fixed_cells c p r)), snd (fixed_cells c p r)) = (ws, r')"
  then show "\<exists>ds. list_all2 (fixed_frame c) ws ds \<and> concat ds = p"
    by (intro fixed_cells_frames [where buf = "fst (fst (fixed_cells c p r))" and r' = r'])
      (auto simp: prod_eq_iff)
next
  fix c :: "'r shaper" and r r' :: 'r and w
  assume "fixed_wf c" "fixed_cover_cell c r = (w, r')"
  then show "fixed_frame c w []" by (rule fixed_cover_frame)
qed

section \<open>Properties of fixed-cell mode\<close>

lemma fixed_read_total:
  assumes "fixed_ok c"
  shows "\<exists>bs e s'. fixed_read c n s = Some (bs, e, s') \<and> length bs \<le> n \<and>
    (e = None \<longrightarrow> 0 < n \<longrightarrow> bs \<noteq> []) \<and> (e \<noteq> None \<longrightarrow> bs = [])"
  using fixed.read_total [OF assms, of n s] by (auto simp: fixed_read_def)

text \<open>
  The fixed-cell reader never panics and never hangs: for every shaper \<open>Wrap\<close> builds in
  fixed mode, every input of the peer, every state of the connection and every non-empty buffer,
  a caller that keeps calling \<open>Read\<close> gets an error after at most one call per unread byte
  and one more.
\<close>

theorem fixed_drain_terminates:
  assumes "new_shaped_conn rf p = Some (c, ls)" and "\<not> morph c"
    and "0 < n" and "length (pending s) + length (avail (src s)) < f"
  shows "\<exists>bs err. drain (fixed_read c) f n s = Some (bs, err)"
proof -
  have "fixed_ok c"
    using new_shaped_fixed [OF assms(1,2)] by (simp add: fixed_ok_def)
  from fixed.drain_total [OF this assms(3)] assms(4) show ?thesis
    by (simp add: fixed_read_def unread_def)
qed

definition fixed4 :: "unit shaper" where
  "fixed4 = \<lparr>cell_size = 4, max_data = 2, fill = zero_fill, jitter = 0, size_sampler = None,
     delay_sampler = None, pace = None\<rparr>"

lemma fixed4_wf: "fixed_wf fixed4"
  by (simp add: fixed4_def fixed_wf_def fixed_ok_def hdr_size_def zero_filler.filler_axioms)

lemma fixed4_new: "new_shaped_conn zero_fill (zero_policy\<lparr>p_cell_size := 4\<rparr>) = Some (fixed4, [])"
  by (simp add: fixed4_def policy_defs zero_policy_def)

theorem fixed_drain_terminates_witness:
  "\<exists>bs err. drain (fixed_read fixed4) 9 37
     \<lparr>src = \<lparr>avail = [0x00, 0x02, 0x68, 0x69, 0xff, 0xff, 0x01, 0x02], rd_err = EOF\<rparr>,
      pending = [], rbuf_cap = 0\<rparr> = Some (bs, err)"
  by (rule fixed_drain_terminates [OF fixed4_new]) (simp_all add: fixed4_def)

text \<open>
  Every wire cell has exactly \<open>CellSize\<close> bytes: the buffer \<open>fixedCells\<close> builds is its
  cells joined, each of them \<open>CellSize\<close> bytes long, and their number depends on the length
  of the message only (one per started \<open>maxData\<close> bytes); a cover cell has the same size.
\<close>

theorem fixed_cells_uniform:
  assumes "fixed_ok c" and "filler (fill c)"
    and "fixed_cells c p r = ((buf, ws), r1)" and "fixed_cover_cell c r = (cv, r2)"
  shows "buf = concat ws \<and> list_all (\<lambda>w. length w = cell_size c) ws \<and>
    length ws = (length p + max_data c - 1) div max_data c \<and> length cv = cell_size c"
proof (intro conjI)
  from assms(3) have loop: "fixed_loop c ((length p + max_data c - 1) div max_data c) p r = (ws, r1)"
    and "buf = concat ws"
    by (auto simp: fixed_cells_def Let_def split: prod.splits)
  then show "buf = concat ws" by simp
  from fixed_loop_lengths [OF assms(1,2) loop] show
    "list_all (\<lambda>w. length w = cell_size c) ws"
    "length ws = (length p + max_data c - 1) div max_data c" by auto
  from assms(1,4) show "length cv = cell_size c"
    using filler.fill_length [OF assms(2), of "cell_size c - hdr_size" r]
    by (auto simp: fixed_cover_cell_def fixed_ok_def split: prod.splits)
qed

theorem fixed_cells_uniform_witness:
  "list_all (\<lambda>w. length w = 4) (snd (fst (fixed_cells fixed4 [1, 2, 3, 4, 5] ())))"
proof -
  obtain buf ws r1 cv r2 where "fixed_cells fixed4 [1, 2, 3, 4, 5] () = ((buf, ws), r1)"
    "fixed_cover_cell fixed4 () = (cv, r2)" by (metis prod.collapse)
  then show ?thesis
    using fixed_cells_uniform [of fixed4 "[1, 2, 3, 4, 5]" "()" buf ws r1 cv r2] fixed4_wf
    by (simp add: fixed_wf_def) (simp add: fixed4_def)
qed

text \<open>
  A lying length field is an error, not data: when a whole cell has arrived and its length
  field exceeds \<open>maxData\<close>, \<open>Read\<close> returns \<open>errCorruptCell\<close> and no byte of the cell, and
  the connection is positioned at the next cell.
\<close>

theorem fixed_read_corrupt:
  assumes "fixed_ok c" and "pending s = []" and "avail (src s) = w @ rest"
    and "length w = cell_size c" and "be16 (w ! 0) (w ! 1) > max_data c"
  shows "fixed_read c n s = Some ([], Some CorruptCell, s\<lparr>src := (src s)\<lparr>avail := rest\<rparr>\<rparr>)"
proof -
  have "1 < length w" using assms(1,4) by (simp add: fixed_ok_def hdr_size_def)
  then have be: "be16 (avail (src s) ! 0) (avail (src s) ! 1) = be16 (w ! 0) (w ! 1)"
    using assms(3) by (cases w) (auto simp: nth_append)
  have "fixed_cell c s = Some (Inl CorruptCell, s\<lparr>src := (src s)\<lparr>avail := rest\<rparr>\<rparr>)"
    by (cases rule: fixed_cell_cases [OF assms(1), of s]) (use assms be in auto)
  with assms(2) show ?thesis
    by (simp add: fixed_read_def conn_read_def fill_pending.simps [of _ s])
qed

theorem fixed_read_corrupt_witness:
  "fixed_read fixed4 10 \<lparr>src = \<lparr>avail = [0x00, 0x03, 1, 2] @ [0x00, 0x01, 7, 0], rd_err = EOF\<rparr>,
     pending = [], rbuf_cap = 0\<rparr> =
   Some ([], Some CorruptCell, \<lparr>src = \<lparr>avail = [0x00, 0x01, 7, 0], rd_err = EOF\<rparr>,
     pending = [], rbuf_cap = 0\<rparr>)"
proof -
  let ?s = "\<lparr>src = \<lparr>avail = [0x00, 0x03, 1, 2] @ [0x00, 0x01, 7, 0], rd_err = EOF\<rparr>,
     pending = [], rbuf_cap = 0\<rparr>"
  have "fixed_ok fixed4" using fixed4_wf by (simp add: fixed_wf_def)
  from fixed_read_corrupt [OF this, of ?s "[0x00, 0x03, 1, 2]" "[0x00, 0x01, 7, 0]" 10]
  show ?thesis by (simp add: fixed4_def be16_eq)
qed

text \<open>
  The length field is 16 bits and \<open>newShapedConn\<close> bounds the cell size from below only:
  with cells of more than 65537 bytes, a full cell's length wraps around. A write of exactly
  65536 bytes becomes one cell whose length field is 0, which the peer discards as cover: the
  write succeeds and the data is lost.
\<close>

theorem fixed_oversize_lost:
  assumes "65538 \<le> cell_size c" and "max_data c = cell_size c - hdr_size" and "filler (fill c)"
    and "length p = 65536" and "fixed_cells c p r = ((buf, ws), r')"
    and "avail (src s) = buf" and "pending s = []"
  shows "\<exists>s'. fixed_read c n s = Some ([], Some (IoErr (rd_err (src s))), s')"
proof -
  have ok: "fixed_ok c" using assms(1,2) by (simp add: fixed_ok_def hdr_size_def)
  have md: "65536 \<le> max_data c" using assms(1,2) by (simp add: hdr_size_def)
  have "(length p + max_data c - 1) div max_data c = Suc 0"
    using assms(4) md by (intro div_nat_eqI) auto
  then obtain pad where pad: "buf = put_uint16 (to_uint16 65536) @ p @ pad"
    "pad = fst (fill c (cell_size c - hdr_size - 65536) r)"
    using assms(4,5) md by (auto simp: fixed_cells_def Let_def split: prod.splits)
  have "to_uint16 65536 = 0"
    by (metis mod_self unat_eq_zero unat_to_uint16)
  then have fields: "buf ! 0 = 0" "buf ! 1 = 0"
    using pad by (simp_all add: put_uint16_def)
  have len: "length buf = cell_size c"
    using pad assms(1,4) filler.fill_length [OF assms(3), of "cell_size c - hdr_size - 65536" r]
    by (simp add: hdr_size_def)
  let ?s1 = "s\<lparr>src := (src s)\<lparr>avail := []\<rparr>\<rparr>"
  have "fixed_cell c s = Some (Inr [], ?s1)"
    by (cases rule: fixed_cell_cases [OF ok, of s]) (use assms(6) len fields in \<open>auto simp: be16_eq\<close>)
  moreover have "fixed_cell c (?s1\<lparr>pending := []\<rparr>) =
      Some (Inl (IoErr (rd_err (src s))), ?s1\<lparr>pending := []\<rparr>)"
    using fixed_cell_end [OF ok, of "?s1\<lparr>pending := []\<rparr>"] by simp
  ultimately show ?thesis
    using assms(7) by (simp add: fixed_read_def conn_read_def fill_pending.simps)
qed

definition oversize :: "unit shaper" where
  "oversize = \<lparr>cell_size = 65538, max_data = 65536, fill = zero_fill, jitter = 0,
     size_sampler = None, delay_sampler = None, pace = None\<rparr>"

theorem fixed_oversize_lost_witness:
  "new_shaped_conn zero_fill (zero_policy\<lparr>p_cell_size := 65538\<rparr>) = Some (oversize, []) \<and>
   (\<exists>s'. fixed_read oversize 10
      \<lparr>src = \<lparr>avail = fst (fst (fixed_cells oversize (replicate 65536 7) ())), rd_err = EOF\<rparr>,
       pending = [], rbuf_cap = 0\<rparr> = Some ([], Some (IoErr EOF), s'))"
proof
  show "new_shaped_conn zero_fill (zero_policy\<lparr>p_cell_size := 65538\<rparr>) = Some (oversize, [])"
    by (simp add: oversize_def policy_defs zero_policy_def)
  obtain buf ws r where b: "fixed_cells oversize (replicate 65536 7) () = ((buf, ws), r)"
    by (metis prod.collapse)
  let ?s = "\<lparr>src = \<lparr>avail = buf, rd_err = EOF\<rparr>, pending = [], rbuf_cap = 0\<rparr>"
  have "\<exists>s'. fixed_read oversize 10 ?s = Some ([], Some (IoErr (rd_err (src ?s))), s')"
    by (rule fixed_oversize_lost [OF _ _ _ _ b])
      (simp_all add: oversize_def hdr_size_def zero_filler.filler_axioms)
  with b show "\<exists>s'. fixed_read oversize 10
      \<lparr>src = \<lparr>avail = fst (fst (fixed_cells oversize (replicate 65536 7) ())), rd_err = EOF\<rparr>,
       pending = [], rbuf_cap = 0\<rparr> = Some ([], Some (IoErr EOF), s')"
    by simp
qed

end
