(* ===== verification/Morph.thy ===== *)
theory Morph
  imports Framing
begin

text \<open>
  Morpher framing, \<open>morph.go\<close>: cells of sampled sizes,
  \<^verbatim>\<open>[2B total N][N bytes: [2B real R][R data bytes][N-2-R padding]]\<close>, with \<open>R = 0\<close> for
  cover. The writer (\<open>morphCells\<close>, \<open>morphCoverCell\<close>), one turn of the loop of
  \<open>readMorph\<close>, and the proof that they meet \<open>framing\<close> and \<open>framer\<close> for every sampler.
\<close>

definition morph_overhead :: nat where "morph_overhead = 4"

definition max_morph_cell :: nat where "max_morph_cell = 65535"

section \<open>Writer\<close>

text \<open>The sampled size, raised to \<open>lo\<close> and cut to \<open>maxMorphCell\<close>, as both writers do.\<close>

definition clamp_size :: "nat \<Rightarrow> int \<Rightarrow> nat" where
  "clamp_size lo s =
     (let s = (if s < int lo then int lo else s);
          s = (if s > int max_morph_cell then int max_morph_cell else s)
      in nat s)"

lemma clamp_size_bounds: "lo \<le> 65535 \<Longrightarrow> lo \<le> clamp_size lo s \<and> clamp_size lo s \<le> 65535"
  by (auto simp: clamp_size_def max_morph_cell_def Let_def nat_le_iff le_nat_iff)

lemma clamp_size_id: "int lo \<le> s \<Longrightarrow> s \<le> 65535 \<Longrightarrow> clamp_size lo s = nat s"
  by (simp add: clamp_size_def max_morph_cell_def Let_def)

lemma clamp_progress: "morph_overhead < clamp_size (Suc morph_overhead) d"
  using clamp_size_bounds [of "Suc morph_overhead" d] by (simp add: morph_overhead_def)

function morph_cells ::
  "'r fill_func \<Rightarrow> ('r \<Rightarrow> int \<times> 'r) \<Rightarrow> bytes \<Rightarrow> 'r \<Rightarrow> bytes list \<times> 'r" where
  "morph_cells fl sampler remaining r =
     (if remaining = [] then ([], r)
      else let (drawn, r1) = sampler r;
               s = clamp_size (morph_overhead + 1) drawn;
               cap = s - morph_overhead;
               k = (if cap > length remaining then length remaining else cap);
               (pad, r2) = fl (s - 4 - k) r1;
               cell = put_uint16 (to_uint16 (s - 2)) @ put_uint16 (to_uint16 k) @
                      take k remaining @ pad;
               (rest, r3) = morph_cells fl sampler (drop k remaining) r2
           in (cell # rest, r3))"
  by pat_completeness auto

termination morph_cells
  by (relation "measure (\<lambda>(fl, sampler, remaining, r). length remaining)")
    (auto simp: clamp_progress)

declare morph_cells.simps [simp del]

definition morph_cover_cell ::
  "'r fill_func \<Rightarrow> ('r \<Rightarrow> int \<times> 'r) \<Rightarrow> 'r \<Rightarrow> bytes \<times> 'r" where
  "morph_cover_cell fl sampler r =
     (let (drawn, r1) = sampler r;
          s = clamp_size morph_overhead drawn;
          (pad, r2) = fl (s - 4) r1
      in (put_uint16 (to_uint16 (s - 2)) @ [0, 0] @ pad, r2))"

section \<open>Reader\<close>

text \<open>
  One turn of the loop of \<open>readMorph\<close>: the total length, the check \<open>n < 2\<close>, the buffer
  grown to \<open>n\<close> when its capacity is smaller, the body, the check \<open>r > n-2\<close>.
\<close>

definition morph_cell :: "rstate \<Rightarrow> ((conn_err + bytes) \<times> rstate) option" where
  "morph_cell s =
     (case read_full 2 (src s) of
        (_, Some e, i) \<Rightarrow> Some (Inl (IoErr e), s\<lparr>src := i\<rparr>)
      | (hdr, None, i) \<Rightarrow> do {
          v \<leftarrow> get_uint16 hdr;
          let n = unat v;
          (if n < 2 then Some (Inl CorruptCell, s\<lparr>src := i\<rparr>)
           else
             let s = s\<lparr>rbuf_cap := (if rbuf_cap s < n then n else rbuf_cap s)\<rparr> in
             (case read_full n i of
                (_, Some e, i) \<Rightarrow> Some (Inl (IoErr e), s\<lparr>src := i\<rparr>)
              | (rbuf, None, i) \<Rightarrow> do {
                  h \<leftarrow> go_slice rbuf 0 2;
                  rv \<leftarrow> get_uint16 h;
                  let r = unat rv;
                  (if r > n - 2 then Some (Inl CorruptCell, s\<lparr>src := i\<rparr>)
                   else do {
                     d \<leftarrow> go_slice rbuf 2 (2 + r);
                     Some (Inr d, s\<lparr>src := i\<rparr>) }) })) })"

definition morph_read :: "nat \<Rightarrow> rstate \<Rightarrow> (bytes \<times> conn_err option \<times> rstate) option" where
  "morph_read = conn_read morph_cell"

section \<open>One cell\<close>

definition morph_frame :: "bytes \<Rightarrow> bytes \<Rightarrow> bool" where
  "morph_frame w d \<longleftrightarrow> morph_overhead + length d \<le> length w \<and> length w \<le> max_morph_cell \<and>
     take (morph_overhead + length d) w =
       put_uint16 (to_uint16 (length w - 2)) @ put_uint16 (to_uint16 (length d)) @ d"

lemma morph_frameI:
  assumes "w = put_uint16 (to_uint16 (s - 2)) @ put_uint16 (to_uint16 (length d)) @ d @ pad"
    and "length pad = s - 4 - length d" "4 + length d \<le> s" "s \<le> 65535"
  shows "morph_frame w d"
proof -
  have "length w = s" using assms by simp
  with assms show ?thesis
    by (simp add: morph_frame_def morph_overhead_def max_morph_cell_def)
qed

lemma morph_frame_split:
  assumes "morph_frame w d"
  obtains pad where
    "w = put_uint16 (to_uint16 (length w - 2)) @ put_uint16 (to_uint16 (length d)) @ d @ pad"
    "4 + length d \<le> length w" "length w \<le> 65535"
proof -
  have "w = take (morph_overhead + length d) w @ drop (morph_overhead + length d) w" by simp
  also have "take (morph_overhead + length d) w =
      put_uint16 (to_uint16 (length w - 2)) @ put_uint16 (to_uint16 (length d)) @ d"
    using assms by (simp add: morph_frame_def)
  finally show ?thesis
    using assms by (intro that [of "drop (morph_overhead + length d) w"])
      (simp_all add: morph_frame_def morph_overhead_def max_morph_cell_def)
qed

lemma morph_cell_frame:
  assumes "morph_frame w d" "avail (src s) = w @ rest"
  shows "morph_cell s = Some (Inr d, s\<lparr>src := (src s)\<lparr>avail := rest\<rparr>,
           rbuf_cap := max (rbuf_cap s) (length w - 2)\<rparr>)"
proof -
  from assms(1) obtain pad where
    w: "w = put_uint16 (to_uint16 (length w - 2)) @ put_uint16 (to_uint16 (length d)) @ d @ pad"
    and len: "4 + length d \<le> length w" "length w \<le> 65535" by (rule morph_frame_split)
  let ?h = "put_uint16 (to_uint16 (length w - 2))"
  let ?b = "put_uint16 (to_uint16 (length d)) @ d @ pad"
  have lb: "length ?b = length w - 2" using arg_cong [OF w, of length] by simp
  have a: "avail (src s) = ?h @ ?b @ rest" using w assms(2) by simp
  have r1: "read_full 2 (src s) = (?h, None, (src s)\<lparr>avail := ?b @ rest\<rparr>)"
    by (rule read_full_append [OF _ a]) simp
  have r2: "read_full (length w - 2) ((src s)\<lparr>avail := ?b @ rest\<rparr>) = (?b, None, (src s)\<lparr>avail := rest\<rparr>)"
    using read_full_append [OF lb, of "(src s)\<lparr>avail := ?b @ rest\<rparr>" rest] by simp
  have "go_slice ?b 0 2 = Some (put_uint16 (to_uint16 (length d)))"
    "go_slice ?b 2 (2 + length d) = Some d"
    by (simp_all add: go_slice_def)
  with r1 r2 len show ?thesis
    by (auto simp: morph_cell_def Let_def max_def)
qed

lemma morph_cell_end:
  "avail (src s) = [] \<Longrightarrow> morph_cell s = Some (Inl (IoErr (rd_err (src s))), s)"
  by (simp add: morph_cell_def read_full_empty)

lemma morph_cell_total:
  "\<exists>x s'. morph_cell s = Some (x, s') \<and> pending s' = pending s \<and>
     rbuf_cap s' \<le> max (rbuf_cap s) 65535 \<and>
     (\<forall>d. x = Inr d \<longrightarrow> length d + length (avail (src s')) < length (avail (src s)))"
proof -
  obtain hdr e i where r1: "read_full 2 (src s) = (hdr, e, i)" by (metis prod_cases3)
  show ?thesis
  proof (cases e)
    case (Some err)
    with r1 show ?thesis by (simp add: morph_cell_def)
  next
    case None
    with r1 have l1: "length hdr = 2" "length (avail i) + 2 = length (avail (src s))"
      by (auto dest: read_full_ok)
    then obtain v where v: "get_uint16 hdr = Some v" using get_uint16_Some [of hdr] by auto
    have vb: "unat v < 65536" using unsigned_less [of v, where ?'a = nat] by simp
    obtain body e2 j where r2: "read_full (unat v) i = (body, e2, j)" by (metis prod_cases3)
    consider "unat v < 2" | "2 \<le> unat v" "e2 \<noteq> None" | "2 \<le> unat v" "e2 = None" by fastforce
    then show ?thesis
    proof cases
      case 1
      with r1 None v show ?thesis by (simp add: morph_cell_def Let_def)
    next
      case 2
      with r1 r2 None v vb show ?thesis by (auto simp: morph_cell_def Let_def)
    next
      case 3
      with r2 have l2: "length body = unat v" "length (avail j) + unat v = length (avail i)"
        by (auto dest: read_full_ok)
      have h: "go_slice body 0 2 = Some (take 2 body)" using l2 3 by (simp add: go_slice_def)
      obtain rv where rv: "get_uint16 (take 2 body) = Some rv"
        using get_uint16_Some [of "take 2 body"] l2 3 by auto
      have d: "go_slice body 2 (2 + unat rv) = Some (take (unat rv) (drop 2 body))"
        if "unat rv \<le> unat v - 2"
        using that l2 3 by (simp add: go_slice_def)
      show ?thesis
        using r1 None v 3 r2 h rv d l1 l2 vb
        by (cases "unat rv > unat v - 2") (auto simp: morph_cell_def Let_def)
    qed
  qed
qed

section \<open>The contracts\<close>

text \<open>The configuration of the mode: the padding generator and the sampler of the writer.\<close>

type_synonym 'r morpher = "'r fill_func \<times> ('r \<Rightarrow> int \<times> 'r)"

definition morph_wf :: "'r morpher \<Rightarrow> bool" where
  "morph_wf c \<longleftrightarrow> filler (fst c)"

lemma morph_cells_Nil [simp]: "morph_cells fl sampler [] r = ([], r)"
  by (simp add: morph_cells.simps)

text \<open>One turn of the writer's loop.\<close>

lemma morph_cells_step:
  assumes "p \<noteq> []"
  obtains s k pad r1 r2 where "s = clamp_size 5 (fst (sampler r))" "r1 = snd (sampler r)"
    "k = min (s - 4) (length p)" "0 < k" "k \<le> s - 4" "5 \<le> s" "s \<le> 65535"
    "fl (s - 4 - k) r1 = (pad, r2)"
    "morph_cells fl sampler p r =
      ((put_uint16 (to_uint16 (s - 2)) @ put_uint16 (to_uint16 k) @ take k p @ pad) #
         fst (morph_cells fl sampler (drop k p) r2),
       snd (morph_cells fl sampler (drop k p) r2))"
proof -
  define s where "s = clamp_size 5 (fst (sampler r))"
  define k where "k = min (s - 4) (length p)"
  obtain pad r2 where pad: "fl (s - 4 - k) (snd (sampler r)) = (pad, r2)" by force
  have s: "5 \<le> s" "s \<le> 65535" using clamp_size_bounds [of 5] by (simp_all add: s_def)
  have k: "k = (if s - 4 > length p then length p else s - 4)" by (simp add: k_def min_def)
  have k0: "0 < k" using s assms by (simp add: k_def)
  show ?thesis
  proof (rule that [OF s_def refl k_def k0 _ s pad])
    show "k \<le> s - 4" by (simp add: k_def)
    have o: "morph_overhead = 4" "4 + 1 = (5 :: nat)" by (simp_all add: morph_overhead_def)
    show "morph_cells fl sampler p r =
      ((put_uint16 (to_uint16 (s - 2)) @ put_uint16 (to_uint16 k) @ take k p @ pad) #
         fst (morph_cells fl sampler (drop k p) r2),
       snd (morph_cells fl sampler (drop k p) r2))"
      using assms pad
      by (subst morph_cells.simps)
        (simp only: o s_def [symmetric] k [symmetric] Let_def case_prod_beta fst_conv snd_conv
          if_False prod.collapse)
  qed
qed

lemma morph_cells_frames:
  assumes "filler fl"
  shows "\<exists>ds. list_all2 morph_frame (fst (morph_cells fl sampler p r)) ds \<and> concat ds = p \<and>
    list_all (\<lambda>d. d \<noteq> []) ds"
proof (induction "length p" arbitrary: p r rule: less_induct)
  case less
  show ?case
  proof (cases "p = []")
    case False
    from morph_cells_step [OF False, of sampler r fl] obtain s k pad r1 r2 where
      k: "k = min (s - 4) (length p)" "0 < k" "k \<le> s - 4" and s: "5 \<le> s" "s \<le> 65535" and
      pad: "fl (s - 4 - k) r1 = (pad, r2)" and
      eq: "morph_cells fl sampler p r =
        ((put_uint16 (to_uint16 (s - 2)) @ put_uint16 (to_uint16 k) @ take k p @ pad) #
           fst (morph_cells fl sampler (drop k p) r2),
         snd (morph_cells fl sampler (drop k p) r2))" by metis
    have lk: "length (take k p) = k" using k by simp
    have "morph_frame (put_uint16 (to_uint16 (s - 2)) @ put_uint16 (to_uint16 k) @ take k p @ pad)
        (take k p)"
      by (rule morph_frameI [where s = s and pad = pad])
        (use k s filler.fill_whole [OF assms pad] lk in auto)
    moreover have "length (drop k p) < length p" using k False by simp
    from less [OF this, of r2] obtain ds where
      "list_all2 morph_frame (fst (morph_cells fl sampler (drop k p) r2)) ds"
      "concat ds = drop k p" "list_all (\<lambda>d. d \<noteq> []) ds" by blast
    ultimately show ?thesis
      using eq k False by (intro exI [of _ "take k p # ds"]) simp
  qed simp
qed

lemma morph_cover_frame:
  assumes "filler fl"
  shows "morph_frame (fst (morph_cover_cell fl sampler r)) []"
proof -
  define s where "s = clamp_size morph_overhead (fst (sampler r))"
  obtain pad r2 where pad: "fl (s - 4) (snd (sampler r)) = (pad, r2)" by force
  have "fst (morph_cover_cell fl sampler r) =
      put_uint16 (to_uint16 (s - 2)) @ put_uint16 (to_uint16 (length ([] :: bytes))) @ [] @ pad"
    using pad by (simp add: morph_cover_cell_def s_def case_prod_beta Let_def)
      (simp add: put_uint16_def to_uint16_def)
  then show ?thesis
    by (rule morph_frameI)
      (use filler.fill_whole [OF assms pad] clamp_size_bounds [of morph_overhead "fst (sampler r)"]
        in \<open>auto simp: s_def morph_overhead_def\<close>)
qed

interpretation morpher: framer morph_wf "\<lambda>_. morph_cell" "\<lambda>_. morph_frame"
  "\<lambda>c. morph_cells (fst c) (snd c)" "\<lambda>c. morph_cover_cell (fst c) (snd c)"
proof
  fix c :: "'r morpher" and w d rest and s :: rstate
  assume "morph_frame w d" "avail (src s) = w @ rest"
  from morph_cell_frame [OF this] show
    "\<exists>k. morph_cell s = Some (Inr d, s\<lparr>src := (src s)\<lparr>avail := rest\<rparr>, rbuf_cap := k\<rparr>)" by blast
next
  fix s :: rstate
  assume "avail (src s) = []"
  then show "morph_cell s = Some (Inl (IoErr (rd_err (src s))), s)" by (rule morph_cell_end)
next
  fix s :: rstate
  show "\<exists>r s'. morph_cell s = Some (r, s') \<and> pending s' = pending s \<and>
      (\<forall>d. r = Inr d \<longrightarrow> length d + length (avail (src s')) < length (avail (src s)))"
    using morph_cell_total [of s] by blast
next
  fix c :: "'r morpher" and p ws and r r' :: 'r
  assume "morph_wf c" "morph_cells (fst c) (snd c) p r = (ws, r')"
  then show "\<exists>ds. list_all2 morph_frame ws ds \<and> concat ds = p"
    using morph_cells_frames [of "fst c" "snd c" p r] by (auto simp: morph_wf_def)
next
  fix c :: "'r morpher" and r r' :: 'r and w
  assume "morph_wf c" "morph_cover_cell (fst c) (snd c) r = (w, r')"
  then show "morph_frame w []"
    using morph_cover_frame [of "fst c" "snd c" r] by (simp add: morph_wf_def)
qed

section \<open>Properties of morpher mode\<close>

text \<open>
  The morpher reader never panics and never hangs: for every input of the peer, every state
  of the connection and every non-empty buffer, a caller that keeps calling \<open>Read\<close> gets an
  error after at most one call per unread byte and one more.
\<close>

theorem morph_drain_terminates:
  assumes "0 < n" and "length (pending s) + length (avail (src s)) < f"
  shows "\<exists>bs err. drain morph_read f n s = Some (bs, err)"
  using morpher.drain_total [of "(zero_fill, Pair 0)" n s f] assms
  by (simp add: morph_read_def unread_def morph_wf_def zero_filler.filler_axioms)

theorem morph_drain_terminates_witness:
  "\<exists>bs err. drain morph_read 7 37
     \<lparr>src = \<lparr>avail = [0x00, 0x04, 0x00, 0x02, 0x68, 0x69], rd_err = EOF\<rparr>,
      pending = [], rbuf_cap = 0\<rparr> = Some (bs, err)"
  by (rule morph_drain_terminates) simp_all

lemma morph_read_cap:
  assumes "morph_read n s = Some (bs, e, s')" "rbuf_cap s \<le> 65535"
  shows "rbuf_cap s' \<le> 65535"
proof -
  obtain e1 s1 where f: "fill_pending morph_cell s = Some (e1, s1)"
    and s': "rbuf_cap s' = rbuf_cap s1"
    using assms(1) by (auto simp: morph_read_def conn_read_def bind_eq_Some_conv split: option.splits)
  have "rbuf_cap s1 \<le> 65535"
  proof (rule fill_pending_keeps [where P = "\<lambda>s. rbuf_cap s \<le> 65535", OF _ _ f assms(2)])
    fix s x s'
    assume "rbuf_cap s \<le> 65535" "morph_cell s = Some (x, s')"
    then show "rbuf_cap s' \<le> 65535"
      using morph_cell_total [of s] by (auto simp: max_def split: if_splits)
  qed simp
  with s' show ?thesis by simp
qed

lemma morph_read_total:
  "\<exists>bs e s'. morph_read n s = Some (bs, e, s')"
  using morpher.read_total [of "(zero_fill, Pair 0)" n s]
  by (auto simp: morph_read_def morph_wf_def zero_filler.filler_axioms)

lemma run_reads_cap:
  "rbuf_cap s \<le> 65535 \<Longrightarrow> \<exists>s'. run_reads morph_read ns s = Some s' \<and> rbuf_cap s' \<le> 65535"
proof (induction ns arbitrary: s)
  case (Cons n ns)
  obtain bs e s1 where rd: "morph_read n s = Some (bs, e, s1)" using morph_read_total by blast
  from Cons.IH [OF morph_read_cap [OF rd Cons.prems]] rd show ?case by simp
qed simp

text \<open>
  A peer cannot make the morpher reader allocate: from a fresh connection, whatever the
  peer sends and however often the caller reads, errors included, no read panics or hangs and
  the read buffer never grows beyond 65535 bytes.
\<close>

theorem morph_buffer_bounded:
  "\<exists>s'. run_reads morph_read ns \<lparr>src = i, pending = [], rbuf_cap = 0\<rparr> = Some s' \<and>
        rbuf_cap s' \<le> 65535"
  by (rule run_reads_cap) simp

lemma morph_cells_sizes:
  assumes "filler fl"
  shows "list_all (\<lambda>w. \<exists>r. length w = clamp_size 5 (fst (sampler r)))
    (fst (morph_cells fl sampler p r))"
proof (induction "length p" arbitrary: p r rule: less_induct)
  case less
  show ?case
  proof (cases "p = []")
    case False
    from morph_cells_step [OF False, of sampler r fl] obtain s k pad r1 r2 where
      s: "s = clamp_size 5 (fst (sampler r))" "5 \<le> s" and
      k: "k = min (s - 4) (length p)" "0 < k" "k \<le> s - 4" and
      pad: "fl (s - 4 - k) r1 = (pad, r2)" and
      eq: "morph_cells fl sampler p r =
        ((put_uint16 (to_uint16 (s - 2)) @ put_uint16 (to_uint16 k) @ take k p @ pad) #
           fst (morph_cells fl sampler (drop k p) r2),
         snd (morph_cells fl sampler (drop k p) r2))" by metis
    have "length (drop k p) < length p" using k False by simp
    from less [OF this, of r2] have rest: "list_all (\<lambda>w. \<exists>r. length w = clamp_size 5 (fst (sampler r)))
        (fst (morph_cells fl sampler (drop k p) r2))" .
    have "length (put_uint16 (to_uint16 (s - 2)) @ put_uint16 (to_uint16 k) @ take k p @ pad) =
        clamp_size 5 (fst (sampler r))"
      using k s filler.fill_whole [OF assms pad] by simp
    with rest show ?thesis unfolding eq fst_conv list.pred_inject by blast
  qed simp
qed



text \<open>
  Lying length fields are errors, not data: a total length below 2, and a real length that
  exceeds the cell's body, make \<open>Read\<close> return \<open>errCorruptCell\<close> and no data.
\<close>

theorem morph_read_corrupt:
  assumes "pending s = []"
    and "avail (src s) = [a, b] @ rest \<and> be16 a b < 2 \<or>
         avail (src s) = [a, b, a', b'] @ rest \<and> 2 \<le> be16 a b \<and>
         be16 a b - 2 \<le> length rest \<and> be16 a b - 2 < be16 a' b'"
  shows "\<exists>s'. morph_read n s = Some ([], Some CorruptCell, s')"
proof -
  have be: "get_uint16 [a, b] = Some v \<Longrightarrow> unat v = be16 a b" for a b v
    using get_uint16_be16 [of "[a, b]" v] by simp
  obtain v where v: "get_uint16 [a, b] = Some v" using get_uint16_Some [of "[a, b]"] by auto
  obtain v' where v': "get_uint16 [a', b'] = Some v'" using get_uint16_Some [of "[a', b']"] by auto
  from assms(2) have "\<exists>s'. morph_cell s = Some (Inl CorruptCell, s')"
  proof
    assume h: "avail (src s) = [a, b] @ rest \<and> be16 a b < 2"
    then have "read_full 2 (src s) = ([a, b], None, (src s)\<lparr>avail := rest\<rparr>)"
      by (intro read_full_append) simp_all
    with h v be [OF v] show ?thesis by (simp add: morph_cell_def Let_def)
  next
    assume h: "avail (src s) = [a, b, a', b'] @ rest \<and> 2 \<le> be16 a b \<and>
         be16 a b - 2 \<le> length rest \<and> be16 a b - 2 < be16 a' b'"
    let ?i = "(src s)\<lparr>avail := [a', b'] @ rest\<rparr>"
    let ?body = "[a', b'] @ take (be16 a b - 2) rest"
    have r1: "read_full 2 (src s) = ([a, b], None, ?i)"
      using h by (intro read_full_append) simp_all
    have r2: "read_full (unat v) ?i = (?body, None, ?i\<lparr>avail := drop (be16 a b - 2) rest\<rparr>)"
      using h be [OF v] by (intro read_full_append) auto
    have "go_slice ?body 0 2 = Some [a', b']" by (simp add: go_slice_def)
    with h r1 r2 v v' be [OF v] be [OF v'] show ?thesis by (simp add: morph_cell_def Let_def)
  qed
  then show ?thesis
    using conn_read_error [OF assms(1), of morph_cell] by (auto simp: morph_read_def)
qed

theorem morph_read_corrupt_witness:
  "\<exists>s'. morph_read 10 \<lparr>src = \<lparr>avail = [0x00, 0x03, 0x00, 0x02] @ [0x07], rd_err = EOF\<rparr>,
     pending = [], rbuf_cap = 0\<rparr> = Some ([], Some CorruptCell, s')"
  by (rule morph_read_corrupt [where a = 0 and b = 3 and a' = 0 and b' = 2 and rest = "[7]"])
    (simp_all add: be16_eq)

text \<open>
  A cell cut off right after its length field looks like a clean end: the second
  \<open>io.ReadFull\<close> of \<open>readMorph\<close> has read nothing yet, so it passes \<open>io.EOF\<close> on and not
  \<open>io.ErrUnexpectedEOF\<close>, although the header announced a cell; fixed-cell mode reports the same
  truncation as unexpected.
\<close>

theorem morph_truncation_is_clean_eof:
  assumes "avail (src s) = [a, b]" and "2 \<le> be16 a b" and "rd_err (src s) = EOF" and "pending s = []"
  shows "\<exists>s'. morph_read n s = Some ([], Some (IoErr EOF), s')"
proof -
  obtain v where v: "get_uint16 [a, b] = Some v" using get_uint16_Some [of "[a, b]"] by auto
  then have uv: "unat v = be16 a b" using get_uint16_be16 [OF v] by simp
  let ?i = "(src s)\<lparr>avail := []\<rparr>"
  have "read_full 2 (src s) = ([a, b], None, ?i)"
    using assms(1) by (intro read_full_append) simp_all
  moreover have "read_full (unat v) ?i = ([], Some EOF, ?i)"
    using assms(2,3) uv read_full_empty [of ?i "unat v"] by simp
  ultimately have "\<exists>s'. morph_cell s = Some (Inl (IoErr EOF), s')"
    using assms(2) v uv by (simp add: morph_cell_def Let_def)
  then show ?thesis
    using conn_read_error [OF assms(4), of morph_cell] by (auto simp: morph_read_def)
qed

theorem morph_truncation_is_clean_eof_witness:
  "\<exists>s'. morph_read 16 \<lparr>src = \<lparr>avail = [0x01, 0x00], rd_err = EOF\<rparr>, pending = [], rbuf_cap = 0\<rparr> =
     Some ([], Some (IoErr EOF), s')"
  by (rule morph_truncation_is_clean_eof [where a = 1 and b = 0]) (simp_all add: be16_eq)

end
