(* ===== verification/Samplers.thy ===== *)
theory Samplers
  imports Policy "HOL-Library.Multiset"
begin

text \<open>
  The size and delay samplers of \<open>morph.go\<close> (\<open>UniformSize\<close>, \<open>SampledSize\<close>, \<open>PoissonDelay\<close>),
  and the draws of \<open>conn.go\<close>: the jitter and the FRONT schedule. \<open>SampledSize\<close> is generic in
  the type of weights and uses none of its laws, so what is proved of the sizes it returns
  holds for floating-point weights, rounding included; where logarithms or exact proportions
  matter, \<open>float64\<close> is read as the reals.
\<close>

definition default_cell_size :: int where "default_cell_size = 512"

text \<open>\<open>rand.Float64()\<close>: a multiple of \<open>2 ^ -53\<close> in \<open>[0, 1)\<close>.\<close>

definition rand_Float64 :: "rng \<Rightarrow> real \<times> rng" where
  "rand_Float64 r = (real (unat (shd r) mod 2 ^ 53) / 2 ^ 53, stl r)"

lemma rand_Float64_range: "0 \<le> fst (rand_Float64 r) \<and> fst (rand_Float64 r) < 1"
  by (simp add: rand_Float64_def)

section \<open>UniformSize\<close>

text \<open>
  \<open>None\<close> is the panic of \<open>rand.Intn\<close>. The arithmetic is that of 64-bit \<open>int\<close>: for extreme
  bounds \<open>max - min + 1\<close> wraps around, and the sampler returns \<open>min\<close>.
\<close>

definition uniform_size :: "int \<Rightarrow> int \<Rightarrow> rng \<Rightarrow> (int \<times> rng) option" where
  "uniform_size mn mx =
     (let (mn, mx) = (if mn > mx then (mx, mn) else (mn, mx));
          span = wrap64 (mx - mn + 1)
      in (\<lambda>r. if span \<le> 1 then Some (mn, r)
              else map_option (\<lambda>(k, r'). (wrap64 (mn + k), r')) (rand_Intn span r)))"

lemma wrap64_over: "2 ^ 63 \<le> x \<Longrightarrow> x \<le> 2 ^ 64 \<Longrightarrow> wrap64 x \<le> 0"
  using signed_take_bit_int_less_eq [of 63 x] by (simp add: wrap64_def)

lemma uniform_size_sym: "uniform_size mn mx = uniform_size (min mn mx) (max mn mx)"
  by (auto simp: uniform_size_def min_def max_def)

lemma uniform_size_ordered:
  assumes "- (2 ^ 63) \<le> mn" "mn \<le> mx" "mx < 2 ^ 63"
  shows "\<exists>k r'. uniform_size mn mx r = Some (k, r') \<and> mn \<le> k \<and> k \<le> mx"
proof (cases "mx - mn + 1 < 2 ^ 63")
  case False
  then have "wrap64 (mx - mn + 1) \<le> 1" using wrap64_over [of "mx - mn + 1"] assms by simp
  with assms show ?thesis by (simp add: uniform_size_def Let_def)
next
  case True
  then have span: "wrap64 (mx - mn + 1) = mx - mn + 1" using assms by (intro wrap64_id) auto
  show ?thesis
  proof (cases "mx - mn + 1 \<le> 1")
    case True
    with span assms show ?thesis by (simp add: uniform_size_def Let_def)
  next
    case False
    then obtain k where k: "rand_Intn (mx - mn + 1) r = Some (k, stl r)" "0 \<le> k" "k < mx - mn + 1"
      using rand_Intn_Some [of "mx - mn + 1" r] by auto
    have "wrap64 (mn + k) = mn + k" using k assms by (intro wrap64_id) auto
    with k span False assms show ?thesis by (auto simp: uniform_size_def Let_def)
  qed
qed

text \<open>
  \<open>UniformSize\<close> never panics and stays between its bounds, given in either order, for all
  64-bit bounds and every draw; and every size between them is drawn by some state of the
  generator whenever the interval's length fits into an \<open>int\<close>.
\<close>

theorem uniform_size_range:
  assumes "- (2 ^ 63) \<le> min a b" and "max a b < 2 ^ 63"
  shows "(\<exists>k r'. uniform_size a b r = Some (k, r') \<and> min a b \<le> k \<and> k \<le> max a b) \<and>
    (min a b \<le> k \<longrightarrow> k \<le> max a b \<longrightarrow> max a b - min a b + 1 < 2 ^ 63 \<longrightarrow>
      (\<exists>r r'. uniform_size a b r = Some (k, r')))"
proof (intro conjI impI)
  show "\<exists>k r'. uniform_size a b r = Some (k, r') \<and> min a b \<le> k \<and> k \<le> max a b"
    using uniform_size_ordered [of "min a b" "max a b" r] assms
    by (simp add: uniform_size_sym [of a b])
  assume k: "min a b \<le> k" "k \<le> max a b" and len: "max a b - min a b + 1 < 2 ^ 63"
  define mn mx where "mn = min a b" and "mx = max a b"
  have o: "mn \<le> mx" "- (2 ^ 63) \<le> mn" "mx < 2 ^ 63" "mn \<le> k" "k \<le> mx" "mx - mn + 1 < 2 ^ 63"
    using assms k len by (auto simp: mn_def mx_def)
  have span: "wrap64 (mx - mn + 1) = mx - mn + 1" using o by (intro wrap64_id) auto
  have "\<exists>r r'. uniform_size mn mx r = Some (k, r')"
  proof (cases "mx - mn + 1 \<le> 1")
    case True
    with o span show ?thesis by (simp add: uniform_size_def Let_def)
  next
    case False
    with o rand_Intn_surj [of "k - mn" "mx - mn + 1"] obtain r r' where
      "rand_Intn (mx - mn + 1) r = Some (k - mn, r')" by fastforce
    moreover have "wrap64 k = k" using o by (intro wrap64_id) auto
    ultimately have "uniform_size mn mx r = Some (k, r')"
      using False o span by (simp add: uniform_size_def Let_def)
    then show ?thesis by blast
  qed
  then show "\<exists>r r'. uniform_size a b r = Some (k, r')"
    by (simp add: mn_def mx_def uniform_size_sym [of a b])
qed

theorem uniform_size_range_witness:
  "(\<exists>k r'. uniform_size 1400 1200 (sconst 7) = Some (k, r') \<and> 1200 \<le> k \<and> k \<le> 1400) \<and>
   (\<exists>r r'. uniform_size 1400 1200 r = Some (1399, r'))"
  using uniform_size_range [of 1400 1200 "sconst 7" 1399] by simp

section \<open>SampledSize\<close>

text \<open>
  The cumulative table over the sorted sizes with positive weight, and the total. \<open>ks\<close> is the
  order in which the range loop over the Go map meets its keys.
\<close>

fun size_table :: "(int \<Rightarrow> 'w :: {zero, plus, ord}) \<Rightarrow> 'w \<Rightarrow> int list \<Rightarrow> (int \<times> 'w) list \<times> 'w" where
  "size_table weights tot [] = ([], tot)"
| "size_table weights tot (s # sizes) =
     (if weights s > 0 then
        let tot = tot + weights s;
            (table, final) = size_table weights tot sizes
        in ((s, tot) # table, final)
      else size_table weights tot sizes)"

text \<open>The first bucket above \<open>x\<close>, or the last bucket: \<open>table[len(table)-1]\<close>.\<close>

fun pick_size :: "(int \<times> 'w :: ord) list \<Rightarrow> 'w \<Rightarrow> int option" where
  "pick_size [] x = None"
| "pick_size [(s, cum)] x = Some s"
| "pick_size ((s, cum) # b # table) x = (if x < cum then Some s else pick_size (b # table) x)"

definition sampled_size ::
  "int list \<Rightarrow> (int \<Rightarrow> 'w :: {zero, plus, times, ord}) \<Rightarrow> ('r \<Rightarrow> 'w \<times> 'r) \<Rightarrow> 'r \<Rightarrow> (int \<times> 'r) option"
where
  "sampled_size ks weights float64 =
     (let sizes = sort ks;
          (table, tot) = size_table weights 0 sizes
      in if table = [] then (\<lambda>r. Some (default_cell_size, r))
         else (\<lambda>r. let (u, r') = float64 r
                   in map_option (\<lambda>s. (s, r')) (pick_size table (u * tot))))"

lemma size_table_keys: "map fst (fst (size_table weights t ks)) = filter (\<lambda>s. weights s > 0) ks"
  by (induction weights t ks rule: size_table.induct) (auto simp: Let_def split: prod.splits)

lemma pick_size_in: "table \<noteq> [] \<Longrightarrow> \<exists>s. pick_size table x = Some s \<and> s \<in> set (map fst table)"
  by (induction table x rule: pick_size.induct) auto

text \<open>
  \<open>SampledSize\<close> only ever returns a size of its map that has a positive weight, or
  \<open>DefaultCellSize\<close> when there is none, whatever the arithmetic of the weights and the draw do;
  it never panics; and the sizes do not depend on the order in which Go iterates over the map.
\<close>

theorem sampled_size_support:
  fixes weights :: "int \<Rightarrow> 'w :: {zero, plus, times, ord}"
  shows "\<exists>s r'. sampled_size ks weights float64 r = Some (s, r') \<and>
      (if filter (\<lambda>s. weights s > 0) ks = [] then s = 512
       else s \<in> set ks \<and> weights s > 0) \<and>
      sampled_size (sort ks) weights float64 = sampled_size ks weights float64"
proof -
  obtain table tot where t: "size_table weights 0 (sort ks) = (table, tot)" by force
  have keys: "map fst table = filter (\<lambda>s. weights s > 0) (sort ks)"
    using size_table_keys [of weights 0 "sort ks"] t by simp
  have empty: "table = [] \<longleftrightarrow> filter (\<lambda>s. weights s > 0) ks = []"
    using arg_cong [OF keys, of "\<lambda>l. l = []"] by (simp add: filter_empty_conv)
  have order: "sampled_size (sort ks) weights float64 = sampled_size ks weights float64"
    by (simp add: sampled_size_def sorted_sort_id)
  show ?thesis
  proof (cases "table = []")
    case True
    with t empty order show ?thesis by (simp add: sampled_size_def default_cell_size_def)
  next
    case False
    obtain s where s: "pick_size table (fst (float64 r) * tot) = Some s" "s \<in> set (map fst table)"
      using pick_size_in [OF False] by blast
    then have "s \<in> set ks \<and> weights s > 0" unfolding keys by simp
    with False s t empty order show ?thesis by (simp add: sampled_size_def case_prod_beta)
  qed
qed

lemma size_table_total:
  fixes weights :: "int \<Rightarrow> real"
  shows "snd (size_table weights t ks) = t + sum_list (map weights (filter (\<lambda>s. weights s > 0) ks))"
  by (induction weights t ks rule: size_table.induct) (auto simp: Let_def split: prod.splits)

text \<open>The bucket of a draw: with exact weights, the one whose cumulative interval holds it.\<close>

lemma pick_size_interval:
  fixes weights :: "int \<Rightarrow> real"
  shows "filter (\<lambda>s. weights s > 0) ks = pre @ s # post \<Longrightarrow>
    t + sum_list (map weights pre) \<le> x \<Longrightarrow> x < t + sum_list (map weights (pre @ [s])) \<Longrightarrow>
    pick_size (fst (size_table weights t ks)) x = Some s"
proof (induction weights t ks arbitrary: pre rule: size_table.induct)
  case (2 weights t k ks)
  show ?case
  proof (cases "weights k > 0")
    case False
    with 2 show ?thesis by simp
  next
    case True
    let ?rest = "fst (size_table weights (t + weights k) ks)"
    have tab: "fst (size_table weights t (k # ks)) = (k, t + weights k) # ?rest"
      using True by (simp add: Let_def split: prod.splits)
    show ?thesis
    proof (cases pre)
      case Nil
      with 2 True tab show ?thesis by (cases ?rest) auto
    next
      case (Cons p pre')
      with "2.prems"(1) True have f: "p = k" "filter (\<lambda>s. weights s > 0) ks = pre' @ s # post" by auto
      then have IH: "pick_size ?rest x = Some s"
        using "2.IH"(1) [OF True refl, of pre'] "2.prems" Cons by (simp add: algebra_simps)
      have "set pre' \<subseteq> set (filter (\<lambda>s. weights s > 0) ks)" using f by auto
      then have "0 \<le> sum_list (map weights pre')" by (intro sum_list_nonneg) auto
      then have "\<not> x < t + weights k" using "2.prems"(2) Cons f by simp
      with IH tab show ?thesis by (cases ?rest) auto
    qed
  qed
qed simp

text \<open>
  \<open>SampledSize\<close> draws by weight: reading the weights as exact numbers, size \<open>s\<close> is
  returned for precisely the draws \<open>u\<close> whose multiple \<open>u * total\<close> lies in the interval of
  length \<open>weights s\<close> that starts after the weights of the smaller sizes, so its probability is
  \<open>weights s / total\<close>.
\<close>

theorem sampled_size_proportional:
  fixes weights :: "int \<Rightarrow> real"
  assumes "filter (\<lambda>s. weights s > 0) (sort ks) = pre @ s # post"
    and "tot = sum_list (map weights (pre @ s # post))" and "float64 r = (u, r')"
    and "sum_list (map weights pre) \<le> u * tot"
    and "u * tot < sum_list (map weights pre) + weights s"
  shows "sampled_size ks weights float64 r = Some (s, r')"
proof -
  let ?t = "size_table weights 0 (sort ks)"
  have "snd ?t = tot" using size_table_total [of weights 0 "sort ks"] assms(1,2) by simp
  moreover have "pick_size (fst ?t) (u * tot) = Some s"
    by (rule pick_size_interval [OF assms(1)]) (use assms(4,5) in simp_all)
  moreover from this have "fst ?t \<noteq> []" by auto
  ultimately show ?thesis
    using assms(3) by (simp add: sampled_size_def case_prod_beta)
qed

theorem sampled_size_proportional_witness:
  "sampled_size [1300, 600, 120] (\<lambda>s. if s = 1300 then 6 else if s = 600 then 2 else (1 :: real))
     (\<lambda>r. (0.25, r)) () = Some (600, ())"
  by (rule sampled_size_proportional [where pre = "[120]" and post = "[1300]" and tot = 9 and
        u = "0.25"]) simp_all

section \<open>Delays\<close>

text \<open>
  \<open>math.SmallestNonzeroFloat64\<close>, and the conversion \<open>time.Duration(x)\<close> of a float, which
  truncates towards zero.
\<close>

definition smallest_float :: real where "smallest_float = 2 powr (- 1074)"

definition trunc_duration :: "real \<Rightarrow> int" where
  "trunc_duration x = (if x < 0 then \<lceil>x\<rceil> else \<lfloor>x\<rfloor>)"

definition positive_draw :: "real \<Rightarrow> real" where
  "positive_draw u = (if u \<le> 0 then smallest_float else u)"

definition poisson_delay :: "int \<Rightarrow> rng \<Rightarrow> int \<times> rng" where
  "poisson_delay mean r =
     (if mean \<le> 0 then (0, r)
      else let (u, r') = rand_Float64 r
           in (trunc_duration (- real_of_int mean * ln (positive_draw u)), r'))"

text \<open>
  \<open>applyJitter\<close>: the sleep before a flush, \<open>rand.Int63n(int64(c.jitter) + 1)\<close>, uniform in
  \<open>[0, jitter]\<close>; \<open>None\<close> is the panic of \<open>Int63n\<close>.
\<close>

definition jitter_delay :: "int \<Rightarrow> rng \<Rightarrow> (int \<times> rng) option" where
  "jitter_delay jit r = (if jit > 0 then rand_Intn (wrap64 (jit + 1)) r else Some (0, r))"

lemma jitter_delay_range:
  "0 \<le> jit \<Longrightarrow> jit < max_duration \<Longrightarrow>
   \<exists>d r'. jitter_delay jit r = Some (d, r') \<and> 0 \<le> d \<and> d \<le> jit"
  using rand_Intn_Some [of "jit + 1" r] wrap64_id [of "jit + 1"]
  by (auto simp: jitter_delay_def max_duration_def)

lemma positive_draw_range: "0 \<le> u \<Longrightarrow> u < 1 \<Longrightarrow> 0 < positive_draw u \<and> positive_draw u < 1"
  by (auto simp: positive_draw_def smallest_float_def powr_minus_divide)

lemma trunc_duration_nonneg: "0 \<le> (x :: real) \<Longrightarrow> 0 \<le> trunc_duration x"
  by (simp add: trunc_duration_def)

lemma poisson_delay_nonneg: "0 \<le> fst (poisson_delay mean r)"
proof (cases "mean \<le> 0")
  case False
  have "ln (positive_draw (fst (rand_Float64 r))) \<le> 0"
    using positive_draw_range rand_Float64_range [of r] by (simp add: less_imp_le)
  then have "0 \<le> - real_of_int mean * ln (positive_draw (fst (rand_Float64 r)))"
    using False by (simp add: mult_nonneg_nonpos)
  from trunc_duration_nonneg [OF this] False show ?thesis
    by (simp add: poisson_delay_def case_prod_beta)
qed (simp add: poisson_delay_def)

section \<open>The FRONT schedule\<close>

text \<open>
  \<open>frontLoop\<close> up to its sends: the budget \<open>n = 1 + rand.Intn(cfg.MaxCount)\<close>, the scale
  \<open>sigma\<close>, one Rayleigh sample per dummy cell cut to the window, and the sort.
\<close>

fun rayleigh_times :: "real \<Rightarrow> int \<Rightarrow> nat \<Rightarrow> rng \<Rightarrow> int list \<times> rng" where
  "rayleigh_times sigma window 0 r = ([], r)"
| "rayleigh_times sigma window (Suc n) r =
     (let (u, r1) = rand_Float64 r;
          t = trunc_duration (sigma * sqrt (- 2 * ln (positive_draw u)));
          t = (if t > window then window else t);
          (ts, r2) = rayleigh_times sigma window n r1
      in (t # ts, r2))"

definition front_times :: "front_config \<Rightarrow> rng \<Rightarrow> (int list \<times> rng) option" where
  "front_times cfg r = Option.bind (rand_Intn (fc_max_count cfg) r) (\<lambda>(k, r1).
     let n = 1 + k;
         (u, r2) = rand_Float64 r1;
         sigma = real_of_int (fc_window cfg) * (3 / 10 + 4 / 10 * u);
         (times, r3) = rayleigh_times sigma (fc_window cfg) (nat n) r2
     in Some (sort times, r3))"

lemma rayleigh_times_range:
  "0 \<le> sigma \<Longrightarrow> 0 \<le> window \<Longrightarrow> length (fst (rayleigh_times sigma window n r)) = n \<and>
   list_all (\<lambda>t. 0 \<le> t \<and> t \<le> window) (fst (rayleigh_times sigma window n r))"
proof (induction n arbitrary: r)
  case (Suc n)
  have "ln (positive_draw (fst (rand_Float64 r))) \<le> 0"
    using positive_draw_range rand_Float64_range [of r] by (simp add: less_imp_le)
  then have "0 \<le> sigma * sqrt (- 2 * ln (positive_draw (fst (rand_Float64 r))))"
    using Suc.prems(1) by simp
  from trunc_duration_nonneg [OF this] Suc.IH [OF Suc.prems, of "snd (rand_Float64 r)"] Suc.prems(2)
  show ?case by (simp add: case_prod_beta Let_def)
qed simp

text \<open>
  The FRONT schedule: with the positive window and count under which the loop is started,
  it draws without a panic, has at least one and at most \<open>MaxCount\<close> send times, in ascending
  order and all inside the window.
\<close>

theorem front_times_schedule:
  assumes "0 < fc_window cfg" and "0 < fc_max_count cfg"
  shows "\<exists>times r'. front_times cfg r = Some (times, r') \<and> sorted times \<and> times \<noteq> [] \<and>
    int (length times) \<le> fc_max_count cfg \<and> list_all (\<lambda>t. 0 \<le> t \<and> t \<le> fc_window cfg) times"
proof -
  obtain k where k: "rand_Intn (fc_max_count cfg) r = Some (k, stl r)" "0 \<le> k" "k < fc_max_count cfg"
    using rand_Intn_Some [OF assms(2)] by blast
  define u where "u = fst (rand_Float64 (stl r))"
  define sigma where "sigma = real_of_int (fc_window cfg) * (3 / 10 + 4 / 10 * u)"
  have "0 \<le> sigma" using assms(1) rand_Float64_range [of "stl r"] by (simp add: sigma_def u_def)
  define ts where "ts = fst (rayleigh_times sigma (fc_window cfg) (nat (1 + k)) (snd (rand_Float64 (stl r))))"
  from \<open>0 \<le> sigma\<close> assms(1) have ts: "length ts = nat (1 + k)"
    "list_all (\<lambda>t. 0 \<le> t \<and> t \<le> fc_window cfg) ts"
    using rayleigh_times_range [of sigma "fc_window cfg"] by (simp_all add: ts_def)
  have "\<exists>r'. front_times cfg r = Some (sort ts, r')"
    using k(1) by (simp add: front_times_def case_prod_beta Let_def ts_def sigma_def u_def)
  moreover have "sort ts \<noteq> []"
  proof
    assume "sort ts = []"
    then have "length ts = 0" by (metis length_sort list.size(3))
    with ts(1) k(2) show False by simp
  qed
  moreover have "int (length (sort ts)) \<le> fc_max_count cfg" using ts(1) k by simp
  moreover have "list_all (\<lambda>t. 0 \<le> t \<and> t \<le> fc_window cfg) (sort ts)"
    using ts(2) unfolding list_all_iff set_sort .
  ultimately show ?thesis using sorted_sort [of ts] by blast
qed

theorem front_times_schedule_witness:
  "\<exists>times r'. front_times \<lparr>fc_window = 2000000000, fc_max_count = 30\<rparr> (sconst 5) = Some (times, r') \<and>
     times \<noteq> [] \<and> length times \<le> 30"
  using front_times_schedule [of "\<lparr>fc_window = 2000000000, fc_max_count = 30\<rparr>" "sconst 5"] by auto

end
