(* ===== verification/Shaped_Conn.thy ===== *)
theory Shaped_Conn
  imports Fixed_Cells Morph Samplers
begin

text \<open>
  The shaped connection of \<open>conn.go\<close> and \<open>morph.go\<close> outside paced mode: \<open>Write\<close> and
  \<open>Read\<close> with their dispatch on the framing mode, the delay before a flush, the cover and
  FRONT loops, and \<open>Close\<close>. The flush and the loops run under \<open>writeMu\<close>, so a step of the
  relation \<open>shaped_step\<close> is one critical section; steps of the application, of the loops and
  of the clock interleave freely.
\<close>

section \<open>Dispatch on the framing mode\<close>

definition frame_cells :: "'r shaper \<Rightarrow> bytes \<Rightarrow> 'r \<Rightarrow> bytes list \<times> 'r" where
  "frame_cells c p r =
     (case size_sampler c of
        Some smp \<Rightarrow> morph_cells (fill c) smp p r
      | None \<Rightarrow> (case fixed_cells c p r of ((buf, cells), r') \<Rightarrow> (cells, r')))"

definition cover_cell :: "'r shaper \<Rightarrow> 'r \<Rightarrow> bytes \<times> 'r" where
  "cover_cell c r =
     (case size_sampler c of
        Some smp \<Rightarrow> morph_cover_cell (fill c) smp r
      | None \<Rightarrow> fixed_cover_cell c r)"

definition shaped_cell :: "'r shaper \<Rightarrow> rstate \<Rightarrow> ((conn_err + bytes) \<times> rstate) option" where
  "shaped_cell c = (case size_sampler c of Some _ \<Rightarrow> morph_cell | None \<Rightarrow> fixed_cell c)"

definition shaped_read :: "'r shaper \<Rightarrow> nat \<Rightarrow> rstate \<Rightarrow> (bytes \<times> conn_err option \<times> rstate) option" where
  "shaped_read c = (case size_sampler c of Some _ \<Rightarrow> morph_read | None \<Rightarrow> fixed_read c)"

lemma shaped_read_eq: "shaped_read c = conn_read (shaped_cell c)"
  by (auto simp: shaped_read_def shaped_cell_def morph_read_def fixed_read_def split: option.split)

definition shaped_wf :: "'r shaper \<Rightarrow> bool" where
  "shaped_wf c \<longleftrightarrow> (case size_sampler c of Some _ \<Rightarrow> filler (fill c) | None \<Rightarrow> fixed_wf c)"

definition shaped_frame :: "'r shaper \<Rightarrow> bytes \<Rightarrow> bytes \<Rightarrow> bool" where
  "shaped_frame c = (case size_sampler c of Some _ \<Rightarrow> morph_frame | None \<Rightarrow> fixed_frame c)"

lemmas dispatch_defs = shaped_cell_def shaped_wf_def shaped_frame_def frame_cells_def cover_cell_def

interpretation shaped: framer shaped_wf shaped_cell shaped_frame frame_cells cover_cell
proof
  fix c :: "'r shaper" and w d rest and s :: rstate
  assume "shaped_wf c" "shaped_frame c w d" "avail (src s) = w @ rest"
  then show "\<exists>k. shaped_cell c s = Some (Inr d, s\<lparr>src := (src s)\<lparr>avail := rest\<rparr>, rbuf_cap := k\<rparr>)"
    using fixed_framer.next_frame [of c w d s rest] morph_cell_frame [of w d s rest]
    by (auto simp: dispatch_defs split: option.splits)
next
  fix c :: "'r shaper" and s :: rstate
  assume "shaped_wf c" "avail (src s) = []"
  then show "shaped_cell c s = Some (Inl (IoErr (rd_err (src s))), s)"
    using fixed_framer.next_end [of c s] morph_cell_end [of s]
    by (auto simp: dispatch_defs split: option.splits)
next
  fix c :: "'r shaper" and s :: rstate
  assume "shaped_wf c"
  then show "\<exists>r s'. shaped_cell c s = Some (r, s') \<and> pending s' = pending s \<and>
      (\<forall>d. r = Inr d \<longrightarrow> length d + length (avail (src s')) < length (avail (src s)))"
    using fixed_framer.next_total [of c s] morph_cell_total [of s]
    by (auto simp: dispatch_defs split: option.splits)
next
  fix c :: "'r shaper" and p ws and r r' :: 'r
  assume "shaped_wf c" "frame_cells c p r = (ws, r')"
  then show "\<exists>ds. list_all2 (shaped_frame c) ws ds \<and> concat ds = p"
    using fixed_cells_frames [of c p r "fst (fst (fixed_cells c p r))" ws r']
      morph_cells_frames [of "fill c" _ p r]
    by (auto simp: dispatch_defs split: option.splits prod.splits) (metis fst_conv)
next
  fix c :: "'r shaper" and r r' :: 'r and w
  assume "shaped_wf c" "cover_cell c r = (w, r')"
  then show "shaped_frame c w []"
    using fixed_cover_frame [of c r w r'] morph_cover_frame [of "fill c" _ r]
    by (auto simp: dispatch_defs split: option.splits) (metis fst_conv)
qed

text \<open>
  Peers match when both run morpher mode or both use the same fixed cell size; everything else
  in their policies may differ.
\<close>

definition matching :: "'r shaper \<Rightarrow> 'q shaper \<Rightarrow> bool" where
  "matching c c' \<longleftrightarrow>
     (if morph c then morph c'
      else \<not> morph c' \<and> cell_size c = cell_size c' \<and> max_data c = max_data c')"

lemma matching_sym: "matching c c' \<Longrightarrow> matching c' c"
  by (auto simp: matching_def split: if_splits)

lemma matching_frame: "matching c c' \<Longrightarrow> shaped_frame c = shaped_frame c'"
  by (auto simp: matching_def shaped_frame_def fixed_frame_def fun_eq_iff split: option.splits if_splits)

lemma new_shaped_wf:
  assumes "new_shaped_conn rf p = Some (c, ls)" and "filler (fill c)" and "p_cell_size p \<le> 65537"
  shows "shaped_wf c"
proof (cases "size_sampler c")
  case (Some smp)
  with assms(2) show ?thesis by (simp add: shaped_wf_def)
next
  case None
  have "cell_size c = nat (p_cell_size p)"
    using assms(1) by (auto simp: policy_defs split: if_splits)
  with None assms new_shaped_fixed [OF assms(1)] show ?thesis
    by (auto simp: shaped_wf_def fixed_wf_def fixed_ok_def hdr_size_def)
qed

section \<open>Write, cover and FRONT\<close>

text \<open>
  The outcome of one \<open>base.Write(buf)\<close>: everything was accepted, or an error came after
  \<open>k\<close> bytes had gone out.
\<close>

datatype base_write = WriteOk | WriteErr io_err nat

fun on_wire :: "base_write \<Rightarrow> bytes \<Rightarrow> bytes" where
  "on_wire WriteOk buf = buf"
| "on_wire (WriteErr e k) buf = take k buf"

text \<open>
  The write side of a connection that is not paced. \<open>wire\<close> is what the base has accepted,
  \<open>rnd\<close> the state of the policy's closures and randomness. \<open>accepted\<close> (the data of the
  writes that returned without an error) and \<open>failed\<close> (a base write has failed) are for the
  statements only; \<open>front_due\<close> are the FRONT sends still to come, as times since
  \<open>started\<close>.
\<close>

record 'r sstate =
  wire :: bytes
  rnd :: 'r
  last_write :: instant
  clock :: instant
  started :: instant
  front_due :: "int list"
  closing :: bool
  base_closed :: bool
  accepted :: bytes
  failed :: bool

text \<open>
  \<open>applyDelay\<close>: the duration slept, by the sampler if there is one, else by the jitter.
  \<open>jd\<close> is \<open>jitter_delay\<close> on the generator inside \<open>'r\<close>.
\<close>

definition apply_delay ::
  "(int \<Rightarrow> 'r \<Rightarrow> (int \<times> 'r) option) \<Rightarrow> 'r shaper \<Rightarrow> 'r \<Rightarrow> (int \<times> 'r) option" where
  "apply_delay jd c r =
     (case delay_sampler c of
        Some f \<Rightarrow> (let (d, r') = f r in Some (if d > 0 then d else 0, r'))
      | None \<Rightarrow> jd (jitter c) r)"

text \<open>
  The critical section \<open>base.Write(buf)\<close>, \<open>lastWrite = time.Now()\<close>: the error, and the state
  after.
\<close>

definition flush :: "base_write \<Rightarrow> bytes \<Rightarrow> 'r sstate \<Rightarrow> io_err option \<times> 'r sstate" where
  "flush res buf s =
     (case res of
        WriteOk \<Rightarrow> (None, s\<lparr>wire := wire s @ buf, last_write := clock s\<rparr>)
      | WriteErr e k \<Rightarrow> (Some e, s\<lparr>wire := wire s @ take k buf, failed := True\<rparr>))"

text \<open>
  \<open>Write\<close> and \<open>writeMorph\<close>: \<open>None\<close> is the panic of the jitter draw. The clock of the state
  is the time of the flush, \<open>d\<close> the sleep before it.
\<close>

definition shaped_write ::
  "(int \<Rightarrow> 'r \<Rightarrow> (int \<times> 'r) option) \<Rightarrow> 'r shaper \<Rightarrow> bytes \<Rightarrow> base_write \<Rightarrow> 'r sstate \<Rightarrow>
   ((nat \<times> io_err option) \<times> 'r sstate) option" where
  "shaped_write jd c p res s =
     (if p = [] then Some ((0, None), s)
      else let (cells, r1) = frame_cells c p (rnd s) in do {
        (d, r2) \<leftarrow> apply_delay jd c r1;
        let s1 = s\<lparr>rnd := r2, clock := time_add (clock s) d\<rparr>;
        (case flush res (concat cells) s1 of
           (Some e, s2) \<Rightarrow> Some ((0, Some e), s2)
         | (None, s2) \<Rightarrow> Some ((length p, None), s2\<lparr>accepted := accepted s2 @ p\<rparr>)) })"

text \<open>
  \<open>writeMorph\<close> as it stands: the cells are collected into one buffer, the delay comes before
  the lock, and the base sees a single write. \<open>Write\<close> of a connection with a size sampler is
  this function.
\<close>

definition write_morph ::
  "(int \<Rightarrow> 'r \<Rightarrow> (int \<times> 'r) option) \<Rightarrow> 'r shaper \<Rightarrow> ('r \<Rightarrow> int \<times> 'r) \<Rightarrow> bytes \<Rightarrow> base_write \<Rightarrow>
   'r sstate \<Rightarrow> ((nat \<times> io_err option) \<times> 'r sstate) option" where
  "write_morph jd c smp p res s =
     (if p = [] then Some ((0, None), s)
      else let (cells, r1) = morph_cells (fill c) smp p (rnd s);
               buf = foldl (@) [] cells in do {
        (d, r2) \<leftarrow> apply_delay jd c r1;
        let (err, s2) = flush res buf (s\<lparr>rnd := r2, clock := time_add (clock s) d\<rparr>);
        (case err of
           Some e \<Rightarrow> Some ((0, Some e), s2)
         | None \<Rightarrow> Some ((length p, None), s2\<lparr>accepted := accepted s2 @ p\<rparr>)) })"

lemma foldl_append: "foldl (@) xs yss = xs @ concat yss"
  by (induction yss arbitrary: xs) auto

lemma shaped_write_morph:
  "size_sampler c = Some smp \<Longrightarrow> shaped_write jd c p res s = write_morph jd c smp p res s"
  by (cases res) (auto simp: shaped_write_def write_morph_def frame_cells_def flush_def Let_def
      foldl_append split: prod.splits)

text \<open>One tick of \<open>coverLoop\<close>.\<close>

definition cover_tick :: "'r shaper \<Rightarrow> int \<Rightarrow> base_write \<Rightarrow> 'r sstate \<Rightarrow> 'r sstate" where
  "cover_tick c interval res s =
     (if time_sub (clock s) (last_write s) \<ge> interval then
        let (cell, r1) = cover_cell c (rnd s) in snd (flush res cell (s\<lparr>rnd := r1\<rparr>))
      else s)"

text \<open>One send of \<open>frontLoop\<close>.\<close>

definition front_send :: "'r shaper \<Rightarrow> base_write \<Rightarrow> 'r sstate \<Rightarrow> 'r sstate" where
  "front_send c res s =
     (let (cell, r1) = cover_cell c (rnd s)
      in snd (flush res cell (s\<lparr>rnd := r1, front_due := tl (front_due s)\<rparr>)))"

text \<open>
  The interleavings. \<open>closing\<close> is \<open>close(c.done)\<close>; until \<open>wg.Wait\<close> has returned and
  \<open>base.Close\<close> has run, a loop may still win one more tick. A closed base refuses writes.
\<close>

inductive shaped_step ::
  "(int \<Rightarrow> 'r \<Rightarrow> (int \<times> 'r) option) \<Rightarrow> 'r shaper \<Rightarrow> background list \<Rightarrow>
   'r sstate \<Rightarrow> 'r sstate \<Rightarrow> bool" for jd c ls where
  pass_time: "clock s \<le> t \<Longrightarrow> shaped_step jd c ls s (s\<lparr>clock := t\<rparr>)"
| app_write: "shaped_write jd c p res s = Some (r, s') \<Longrightarrow> (base_closed s \<Longrightarrow> res \<noteq> WriteOk) \<Longrightarrow>
    shaped_step jd c ls s s'"
| idle_cover: "CoverLoop d \<in> set ls \<Longrightarrow> \<not> base_closed s \<Longrightarrow>
    shaped_step jd c ls s (cover_tick c d res s)"
| front_cover: "FrontLoop f \<in> set ls \<Longrightarrow> \<not> base_closed s \<Longrightarrow> front_due s \<noteq> [] \<Longrightarrow>
    hd (front_due s) \<le> time_sub (clock s) (started s) \<Longrightarrow>
    shaped_step jd c ls s (front_send c res s)"
| close_done: "shaped_step jd c ls s (s\<lparr>closing := True\<rparr>)"
| close_base: "closing s \<Longrightarrow> shaped_step jd c ls s (s\<lparr>base_closed := True\<rparr>)"

definition shaped_init :: "'r \<Rightarrow> instant \<Rightarrow> int list \<Rightarrow> 'r sstate" where
  "shaped_init r now due = \<lparr>wire = [], rnd = r, last_write = now, clock = now, started = now,
     front_due = due, closing = False, base_closed = False, accepted = [], failed = False\<rparr>"

section \<open>The wire carries the accepted data\<close>

definition wire_inv :: "'r shaper \<Rightarrow> 'r sstate \<Rightarrow> bool" where
  "wire_inv c s \<longleftrightarrow> failed s \<or>
     (\<exists>ws ds. list_all2 (shaped_frame c) ws ds \<and> wire s = concat ws \<and> accepted s = concat ds)"

lemma wire_invI:
  "list_all2 (shaped_frame c) ws ds \<Longrightarrow> wire s = concat ws \<Longrightarrow> accepted s = concat ds \<Longrightarrow> wire_inv c s"
  by (auto simp: wire_inv_def)

lemma wire_inv_append:
  assumes "wire_inv c s" "list_all2 (shaped_frame c) ws ds"
    and "wire s' = wire s @ concat ws" "accepted s' = accepted s @ concat ds" "failed s' = failed s"
  shows "wire_inv c s'"
proof (cases "failed s")
  case False
  with assms(1) obtain ws0 ds0 where "list_all2 (shaped_frame c) ws0 ds0" "wire s = concat ws0"
    "accepted s = concat ds0" by (auto simp: wire_inv_def)
  with assms(2-4) show ?thesis
    by (intro wire_invI [of c "ws0 @ ws" "ds0 @ ds"]) (auto intro: list_all2_appendI)
qed (use assms(5) in \<open>simp add: wire_inv_def\<close>)

lemma wire_inv_fields [simp]:
  "wire_inv c (s\<lparr>rnd := x\<rparr>) = wire_inv c s" "wire_inv c (s\<lparr>front_due := due\<rparr>) = wire_inv c s"
  "wire_inv c (s\<lparr>clock := t\<rparr>) = wire_inv c s" "wire_inv c (s\<lparr>closing := b\<rparr>) = wire_inv c s"
  "wire_inv c (s\<lparr>base_closed := b\<rparr>) = wire_inv c s"
  by (simp_all add: wire_inv_def)

lemma flush_cover_inv:
  assumes "shaped_wf c" "cover_cell c r = (cell, r1)" "wire_inv c s"
  shows "wire_inv c (snd (flush res cell s))"
proof (cases res)
  case WriteOk
  have "list_all2 (shaped_frame c) [cell] [[]]"
    using shaped.cover_frame [OF assms(1,2)] by simp
  then show ?thesis
    by (rule wire_inv_append [OF assms(3)]) (simp_all add: flush_def WriteOk)
next
  case (WriteErr e k)
  then show ?thesis by (simp add: flush_def wire_inv_def)
qed

lemma shaped_write_inv:
  assumes "shaped_wf c" "wire_inv c s" "shaped_write jd c p res s = Some (r, s')"
  shows "wire_inv c s'"
proof (cases "p = []")
  case False
  obtain cells r1 where f: "frame_cells c p (rnd s) = (cells, r1)" by force
  from shaped.cells_frame [OF assms(1) f] obtain ds where
    ds: "list_all2 (shaped_frame c) cells ds" "concat ds = p" by blast
  show ?thesis
  proof (cases res)
    case WriteOk
    show ?thesis
      by (rule wire_inv_append [OF assms(2) ds(1)])
        (use assms(3) False f ds(2) in \<open>auto simp: shaped_write_def flush_def WriteOk Let_def
          bind_eq_Some_conv\<close>)
  next
    case (WriteErr e k)
    then show ?thesis
      using assms(3) False f
      by (auto simp: shaped_write_def flush_def wire_inv_def Let_def bind_eq_Some_conv)
  qed
qed (use assms in \<open>simp add: shaped_write_def\<close>)

lemma shaped_step_inv: "shaped_step jd c ls s s' \<Longrightarrow> shaped_wf c \<Longrightarrow> wire_inv c s \<Longrightarrow> wire_inv c s'"
proof (induction rule: shaped_step.induct)
  case (app_write p res s r s')
  then show ?case by (blast intro: shaped_write_inv)
next
  case (idle_cover d s res)
  obtain cell r1 where cc: "cover_cell c (rnd s) = (cell, r1)" by force
  from flush_cover_inv [OF idle_cover(3) cc, of "s\<lparr>rnd := r1\<rparr>" res] idle_cover(4) cc show ?case
    by (simp add: cover_tick_def)
next
  case (front_cover f s res)
  obtain cell r1 where cc: "cover_cell c (rnd s) = (cell, r1)" by force
  from flush_cover_inv [OF front_cover(5) cc, of "s\<lparr>rnd := r1, front_due := tl (front_due s)\<rparr>" res]
    front_cover(6) cc
  show ?case by (simp add: front_send_def)
qed simp_all

lemma shaped_reach_inv:
  assumes "(shaped_step jd c ls)\<^sup>*\<^sup>* (shaped_init r now due) s" "shaped_wf c"
  shows "wire_inv c s"
  using assms(1)
proof (induction rule: rtranclp_induct)
  case base
  show ?case by (rule wire_invI [of c "[]" "[]"]) (simp_all add: shaped_init_def)
next
  case (step s t)
  then show ?case using assms(2) by (blast intro: shaped_step_inv)
qed

lemma fixed_cell_cong:
  assumes "cell_size c = cell_size c'" "max_data c = max_data c'"
  shows "fixed_cell c = fixed_cell c'"
  unfolding fixed_cell_def assms by (rule refl)

lemma matching_cell: "matching c c' \<Longrightarrow> shaped_cell c' = shaped_cell c"
  using fixed_cell_cong [of c c']
  by (auto simp: matching_def shaped_cell_def split: option.splits if_splits)

lemma matching_read: "matching c c' \<Longrightarrow> shaped_read c' = shaped_read c"
  by (simp add: shaped_read_eq matching_cell)

text \<open>What a peer reads, from any wire contents that keep the invariant.\<close>

lemma wire_inv_read_full:
  assumes "wire_inv c s" "\<not> failed s" "shaped_wf c" "matching c c'"
    and "avail (src i) = wire s" "pending i = []" "n \<le> length (accepted s)"
  shows "\<exists>t. read_full_loop (shaped_read c') conn_unexpected n [] i = Some (take n (accepted s), None, t)"
proof -
  from assms(1,2) obtain ws ds where "list_all2 (shaped_frame c) ws ds" "wire s = concat ws"
    "accepted s = concat ds" by (auto simp: wire_inv_def)
  with assms(3,5,6) have "shaped.delivers c i (accepted s) (IoErr (rd_err (src i)))"
    using shaped.deliversI [of c ws ds i] by simp
  from shaped.shaped_reader.read_full_delivers [OF this assms(7), of conn_unexpected] show ?thesis
    unfolding shaped_read_eq matching_cell [OF assms(4)] by blast
qed

section \<open>Properties of the shaped connection\<close>

text \<open>
  C35. Reading never panics and never hangs, in either mode: for every connection \<open>Wrap\<close> builds, every
  input of the peer, malformed or not, every state of the read buffer and every non-empty
  argument, a caller that keeps calling \<open>Read\<close> gets an error after at most one call per unread byte and
  one more.
\<close>

theorem shaped_drain_terminates:
  assumes "new_shaped_conn rf p = Some (c, ls)" and "0 < n" and "unread s < f"
  shows "\<exists>bs err. drain (shaped_read c) f n s = Some (bs, err)"
proof (cases "size_sampler c")
  case None
  then show ?thesis
    using fixed_drain_terminates [OF assms(1) _ assms(2), of s f] assms(3) by (simp add: shaped_read_def unread_def)
next
  case (Some smp)
  then show ?thesis
    using morph_drain_terminates [OF assms(2), of s f] assms(3) by (simp add: shaped_read_def unread_def)
qed

theorem shaped_drain_terminates_witness:
  "\<exists>bs err. drain (shaped_read fixed4) 9 37
     \<lparr>src = \<lparr>avail = [0x00, 0x02, 0x68, 0x69, 0xff, 0xff, 0x01, 0x02], rd_err = EOF\<rparr>,
      pending = [], rbuf_cap = 0\<rparr> = Some (bs, err)"
  by (rule shaped_drain_terminates [OF fixed4_new]) (simp_all add: unread_def)

lemma shaped_delivers:
  assumes "new_shaped_conn rf p = Some (c, ls)" and "filler (fill c)" and "p_cell_size p \<le> 65537"
    and "(shaped_step jd c ls)\<^sup>*\<^sup>* (shaped_init r now due) s" and "\<not> failed s"
    and "matching c c'" and "n \<le> length (accepted s)"
  shows "\<exists>t. read_full_loop (shaped_read c') conn_unexpected n []
      \<lparr>src = \<lparr>avail = wire s, rd_err = e\<rparr>, pending = [], rbuf_cap = k\<rparr> =
    Some (take n (accepted s), None, t)"
proof -
  have wf: "shaped_wf c" by (rule new_shaped_wf [OF assms(1-3)])
  show ?thesis
    by (rule wire_inv_read_full [OF shaped_reach_inv [OF assms(4) wf] assms(5) wf assms(6)])
      (use assms(7) in simp_all)
qed

text \<open>
  C1. End to end: whatever order the application's writes, the cover loop, the FRONT loop, the
  clock and \<open>Close\<close> interleave in, and whatever padding, sizes and delays are drawn, as long as
  no base write has failed a peer with a matching policy that calls \<open>io.ReadFull\<close> on its shaped
  connection gets exactly the bytes the successful writes accepted, in order; cover never shows.
\<close>

theorem shaped_end_to_end:
  assumes "new_shaped_conn rf p = Some (c, ls)" and "filler (fill c)" and "p_cell_size p \<le> 65537"
    and "(shaped_step jd c ls)\<^sup>*\<^sup>* (shaped_init r now due) s" and "\<not> failed s"
    and "matching c c'" and "n \<le> length (accepted s)"
  shows "\<exists>t. read_full_loop (shaped_read c') conn_unexpected n []
      \<lparr>src = \<lparr>avail = wire s, rd_err = e\<rparr>, pending = [], rbuf_cap = k\<rparr> =
    Some (take n (accepted s), None, t)"
  by (rule shaped_delivers [OF assms])

lemma fixed4_sent:
  "\<exists>s. (shaped_step (\<lambda>_ r. Some (0, r)) fixed4 [])\<^sup>*\<^sup>* (shaped_init () (Instant 0) []) s \<and>
     accepted s = [1, 2, 3] \<and> \<not> failed s"
proof -
  let ?jd = "\<lambda>_ r. Some (0, r)" and ?i = "shaped_init () (Instant 0) []"
  obtain cells where cells: "frame_cells fixed4 [1, 2, 3] () = (cells, ())"
    by (metis (full_types) surj_pair old.unit.exhaust)
  let ?s = "?i\<lparr>wire := concat cells, accepted := [1, 2, 3]\<rparr>"
  have "shaped_write ?jd fixed4 [1, 2, 3] WriteOk ?i = Some ((3, None), ?s)"
    using cells by (simp add: shaped_write_def apply_delay_def flush_def shaped_init_def
        time_add_def fixed4_def)
  then have "(shaped_step ?jd fixed4 [])\<^sup>*\<^sup>* ?i ?s"
    by (intro r_into_rtranclp app_write) (simp_all add: shaped_init_def)
  then show ?thesis by (intro exI [of _ ?s]) (simp add: shaped_init_def)
qed

lemma fixed4_conditions: "filler (fill fixed4)" "p_cell_size (zero_policy\<lparr>p_cell_size := 4\<rparr>) \<le> 65537" "matching fixed4 fixed4"
  by (simp_all add: fixed4_def zero_policy_def matching_def zero_filler.filler_axioms)

theorem shaped_end_to_end_witness:
  "\<exists>s t. (shaped_step (\<lambda>_ r. Some (0, r)) fixed4 [])\<^sup>*\<^sup>* (shaped_init () (Instant 0) []) s \<and>
     accepted s = [1, 2, 3] \<and>
     read_full_loop (shaped_read fixed4) conn_unexpected 3 []
       \<lparr>src = \<lparr>avail = wire s, rd_err = EOF\<rparr>, pending = [], rbuf_cap = 0\<rparr> =
     Some ([1, 2, 3], None, t)"
proof -
  obtain s where s: "(shaped_step (\<lambda>_ r. Some (0, r)) fixed4 [])\<^sup>*\<^sup>* (shaped_init () (Instant 0) []) s"
    "accepted s = [1, 2, 3]" "\<not> failed s" using fixed4_sent by blast
  have "\<exists>t. read_full_loop (shaped_read fixed4) conn_unexpected 3 []
       \<lparr>src = \<lparr>avail = wire s, rd_err = EOF\<rparr>, pending = [], rbuf_cap = 0\<rparr> =
     Some (take 3 (accepted s), None, t)"
    by (rule shaped_end_to_end [OF fixed4_new fixed4_conditions(1,2) s(1,3) fixed4_conditions(3)]) (simp add: s(2))
  with s show ?thesis by (intro exI [of _ s]) simp
qed



text \<open>
  \<open>Write\<close> can panic: \<open>rand.Int63n(int64(c.jitter) + 1)\<close> overflows to a negative argument
  when the jitter is the largest duration and no delay sampler overrides it. That is the only way:
  for every other jitter a duration can hold, every message and every outcome of the base, \<open>Write\<close>
  returns.
\<close>

theorem shaped_write_panics_iff:
  fixes c :: "rng shaper"
  assumes "min_duration \<le> jitter c" and "jitter c \<le> max_duration"
  shows "shaped_write jitter_delay c p res s = None \<longleftrightarrow>
    p \<noteq> [] \<and> delay_sampler c = None \<and> jitter c = max_duration"
proof -
  have "jitter_delay (jitter c) r = None \<longleftrightarrow> jitter c = max_duration" for r
    using assms rand_Intn_Some [of "jitter c + 1" r] wrap64_id [of "jitter c + 1"]
      wrap64_over [of "jitter c + 1"]
    by (cases "jitter c = max_duration"; cases "0 < jitter c")
      (auto simp: jitter_delay_def max_duration_def rand_Intn_def)
  then show ?thesis
    by (auto simp: shaped_write_def apply_delay_def bind_eq_None_conv Let_def
        split: prod.splits option.splits)
qed

theorem shaped_write_panics_iff_witness:
  "shaped_write jitter_delay
     \<lparr>cell_size = 4, max_data = 2, fill = zero_fill, jitter = max_duration, size_sampler = None,
      delay_sampler = None, pace = None\<rparr> [1] WriteOk (shaped_init (sconst 0) (Instant 0) []) = None"
  by (subst shaped_write_panics_iff) (simp_all add: max_duration_def min_duration_def)

text \<open>
  The cover loop sends only into silence: a tick within the interval since the last
  successful write changes nothing; a tick after it hands the base one cell that carries no data,
  and a success restarts the interval.
\<close>

theorem cover_tick_idle:
  assumes "shaped_wf c" and "cover_cell c (rnd s) = (cell, r1)"
  shows "if time_sub (clock s) (last_write s) < d then cover_tick c d res s = s
    else shaped_frame c cell [] \<and> wire (cover_tick c d res s) = wire s @ on_wire res cell \<and>
      accepted (cover_tick c d res s) = accepted s \<and>
      last_write (cover_tick c d res s) = (if res = WriteOk then clock s else last_write s)"
  using shaped.cover_frame [OF assms] assms(2)
  by (cases res) (auto simp: cover_tick_def flush_def)

theorem cover_tick_idle_witness:
  "cover_tick fixed4 50 WriteOk ((shaped_init () (Instant 0) [])\<lparr>clock := Instant 49\<rparr>) =
     (shaped_init () (Instant 0) [])\<lparr>clock := Instant 49\<rparr> \<and>
   last_write (cover_tick fixed4 50 WriteOk ((shaped_init () (Instant 0) [])\<lparr>clock := Instant 50\<rparr>)) =
     Instant 50"
proof -
  have wf: "shaped_wf fixed4" using fixed4_wf by (simp add: shaped_wf_def fixed4_def)
  obtain cell where cell: "cover_cell fixed4 () = (cell, ())"
    by (metis (full_types) surj_pair old.unit.exhaust)
  let ?i = "\<lambda>t. (shaped_init () (Instant 0) [])\<lparr>clock := Instant t\<rparr>"
  show ?thesis
    using cover_tick_idle [OF wf, of "?i 49" cell "()" 50 WriteOk]
      cover_tick_idle [OF wf, of "?i 50" cell "()" 50 WriteOk] cell
    by (simp add: shaped_init_def time_sub_def max_duration_def min_duration_def)
qed

end
