(* ===== verification/Paced.thy ===== *)
theory Paced
  imports Shaped_Conn "HOL-Library.Sublist"
begin

text \<open>
  Paced mode, \<open>conn.go\<close>: \<open>writePaced\<close> frames a message and enqueues its cells, the
  background \<open>pacingLoop\<close> releases one cell per interval of a decaying rate, \<open>Close\<close> stops
  the pacer and flushes the queue. Writers, pacer, closer and clock are the processes of the
  step relation \<open>paced_step\<close>; where a Go \<open>select\<close> has several ready cases, each is a step.
\<close>

section \<open>The rate\<close>

text \<open>\<open>currentInterval\<close>, with the elapsed time in seconds.\<close>

definition pace_rate :: "paced_config \<Rightarrow> real \<Rightarrow> real" where
  "pace_rate cfg elapsed =
     (let rate = (if pc_decay cfg < 1 then pc_rate cfg * pc_decay cfg powr elapsed else pc_rate cfg)
      in if rate < pc_min_rate cfg then pc_min_rate cfg else rate)"

definition current_interval :: "paced_config \<Rightarrow> instant \<Rightarrow> instant \<Rightarrow> int" where
  "current_interval cfg now surge =
     trunc_duration (1000000000 / pace_rate cfg (real_of_int (time_sub now surge) / 1000000000))"

lemma pace_rate_floor: "pc_min_rate cfg \<le> pace_rate cfg t"
  by (simp add: pace_rate_def Let_def)

lemma pace_rate_pos: "paced_valid cfg \<Longrightarrow> 0 < pace_rate cfg t"
  using pace_rate_floor [of cfg t] by (simp add: paced_valid_def)

lemma pace_rate_antimono:
  assumes "paced_valid cfg" "0 < pc_rate cfg" "t \<le> t'"
  shows "pace_rate cfg t' \<le> pace_rate cfg t"
proof -
  have "pc_rate cfg * pc_decay cfg powr t' \<le> pc_rate cfg * pc_decay cfg powr t"
    using assms by (intro mult_left_mono powr_mono') (auto simp: paced_valid_def)
  then show ?thesis by (auto simp: pace_rate_def Let_def)
qed

lemma trunc_duration_mono: "0 \<le> x \<Longrightarrow> x \<le> y \<Longrightarrow> trunc_duration x \<le> trunc_duration (y :: real)"
  by (simp add: trunc_duration_def floor_mono)

lemma pace_rate_le_surge:
  assumes "paced_valid cfg" "0 < pc_rate cfg" "0 \<le> t"
  shows "pace_rate cfg t \<le> max (pc_rate cfg) (pc_min_rate cfg)"
proof -
  have "pc_decay cfg powr t \<le> 1"
    using assms by (intro powr_le1) (auto simp: paced_valid_def)
  then have "pc_rate cfg * pc_decay cfg powr t \<le> pc_rate cfg"
    using assms(2) by (simp add: mult_left_le)
  then show ?thesis by (auto simp: pace_rate_def Let_def)
qed

text \<open>The shortest interval a configuration can produce: that of the surge.\<close>

definition surge_interval :: "paced_config \<Rightarrow> int" where
  "surge_interval cfg = trunc_duration (1000000000 / max (pc_rate cfg) (pc_min_rate cfg))"

lemma current_interval_ge_surge:
  assumes "paced_valid cfg" "0 < pc_rate cfg" "surge \<le> now"
  shows "surge_interval cfg \<le> current_interval cfg now surge"
proof -
  have "0 \<le> real_of_int (time_sub now surge) / 1000000000"
    using assms(3) by (simp add: time_sub_def less_eq_instant_def max_duration_def)
  from pace_rate_le_surge [OF assms(1,2) this] pace_rate_pos [OF assms(1)] assms(2)
  show ?thesis
    unfolding surge_interval_def current_interval_def
    by (intro trunc_duration_mono divide_left_mono) (auto simp: less_max_iff_disj)
qed

lemma surge_interval_nonneg: "paced_valid cfg \<Longrightarrow> 0 \<le> surge_interval cfg"
  unfolding surge_interval_def
  by (intro trunc_duration_nonneg divide_nonneg_nonneg) (auto simp: paced_valid_def le_max_iff_disj)

text \<open>
  The pace decays and never stalls: the interval between cells never exceeds that of the
  floor rate, is never shorter than that of the surge rate, and only grows as time passes since
  the surge; it is a function of the clock alone.
\<close>

theorem current_interval_bounds:
  assumes "paced_valid cfg" and "0 < pc_rate cfg" and "surge \<le> now" and "now \<le> later"
  shows "0 \<le> surge_interval cfg \<and> surge_interval cfg \<le> current_interval cfg now surge \<and>
    current_interval cfg now surge \<le> current_interval cfg later surge \<and>
    current_interval cfg later surge \<le> trunc_duration (1000000000 / pc_min_rate cfg)"
proof (intro conjI)
  show "0 \<le> surge_interval cfg" by (rule surge_interval_nonneg [OF assms(1)])
  show "surge_interval cfg \<le> current_interval cfg now surge"
    by (rule current_interval_ge_surge [OF assms(1-3)])
  have "real_of_int (time_sub now surge) / 1000000000 \<le> real_of_int (time_sub later surge) / 1000000000"
    using time_sub_mono [OF assms(4), of surge] by (simp add: divide_right_mono)
  from pace_rate_antimono [OF assms(1,2) this] show
    "current_interval cfg now surge \<le> current_interval cfg later surge"
    unfolding current_interval_def using pace_rate_pos [OF assms(1)]
    by (intro trunc_duration_mono divide_left_mono) (auto simp: less_imp_le)
  show "current_interval cfg later surge \<le> trunc_duration (1000000000 / pc_min_rate cfg)"
    unfolding current_interval_def using pace_rate_pos [OF assms(1)] pace_rate_floor [of cfg] assms(1)
    by (intro trunc_duration_mono divide_left_mono) (auto simp: less_imp_le paced_valid_def)
qed

definition example_pace :: paced_config where
  "example_pace = \<lparr>pc_rate = 1000, pc_decay = 94 / 100, pc_min_rate = 50, pc_queue = 4, pc_no_pad = False\<rparr>"

theorem current_interval_bounds_witness:
  "surge_interval example_pace = 1000000 \<and>
   current_interval example_pace (Instant 9) (Instant 0) \<le> 20000000"
  using current_interval_bounds [of example_pace "Instant 0" "Instant 9" "Instant 9"]
  by (simp add: example_pace_def paced_valid_def less_eq_instant_def surge_interval_def
      trunc_duration_def)

section \<open>Writers, pacer and closer\<close>

text \<open>
  \<open>PWaiting\<close>: the pacer is in its select on the timer. \<open>PWriting w\<close>: it is in
  \<open>base.Write(w)\<close>. \<open>CWaiting\<close>: \<open>Close\<close> is in \<open>wg.Wait\<close>.
\<close>

datatype pacer = PWaiting | PWriting bytes | PStopped

datatype closer = COpen | CWaiting | CFlushing | CClosed

text \<open>
  \<open>writers i\<close>: the message of the \<open>Write\<close> call \<open>i\<close> that is running, and its cells not
  yet enqueued. For the statements only: \<open>enq_data\<close> (the data of all cells enqueued so far, in
  order), \<open>paccepted\<close> (the messages whose \<open>Write\<close> returned without an error), \<open>paborted\<close> (a
  \<open>Write\<close> gave up with an error), \<open>pfailed\<close> (a base write failed), \<open>fired\<close> (cells the
  pacer has released), \<open>opened\<close> and \<open>close_mark\<close> (the time of the start; what had been
  enqueued when \<open>Close\<close> was called).
\<close>

record 'r pstate =
  send_q :: "bytes list"
  pwire :: bytes
  prnd :: 'r
  pclock :: instant
  pace_start :: instant
  timer_at :: instant
  pace_err :: "io_err option"
  pace_dead :: bool
  pdone :: bool
  pacer :: pacer
  closer :: closer
  writers :: "nat \<Rightarrow> (bytes \<times> bytes list) option"
  enq_data :: bytes
  paccepted :: bytes
  paborted :: bool
  pfailed :: bool
  fired :: nat
  opened :: instant
  close_mark :: bytes

text \<open>The fields under \<open>paceMu\<close>: the surge clock, and the first error of a base write, which sticks.\<close>

definition surge_start :: "'r pstate \<Rightarrow> instant" where
  [simp]: "surge_start s = pace_start s"

definition reset_surge :: "'r pstate \<Rightarrow> 'r pstate" where
  [simp]: "reset_surge s = s\<lparr>pace_start := pclock s\<rparr>"

definition set_pace_err :: "io_err \<Rightarrow> 'r pstate \<Rightarrow> 'r pstate" where
  [simp]: "set_pace_err e s = (if pace_err s = None then s\<lparr>pace_err := Some e\<rparr> else s)"

definition paced_err :: "'r pstate \<Rightarrow> io_err option" where
  [simp]: "paced_err s = pace_err s"

text \<open>The data a cell carries, by the layout of the mode.\<close>

definition payload :: "'r shaper \<Rightarrow> bytes \<Rightarrow> bytes" where
  "payload c w =
     (if morph c then take (be16 (w ! 2) (w ! 3)) (drop 4 w)
      else take (be16 (w ! 0) (w ! 1)) (drop 2 w))"

text \<open>
  \<open>writePaced\<close> up to its loop: the early returns (\<open>Inl\<close>), or the call is running with its
  cells, the surge clock reset if the queue is drained.
\<close>

definition write_paced ::
  "'r shaper \<Rightarrow> nat \<Rightarrow> bytes \<Rightarrow> 'r pstate \<Rightarrow> (nat \<times> io_err option) + 'r pstate" where
  "write_paced c i p s =
     (if p = [] then Inl (0, None)
      else case paced_err s of
        Some e \<Rightarrow> Inl (0, Some e)
      | None \<Rightarrow>
          let (cells, r1) = frame_cells c p (prnd s);
              s = s\<lparr>prnd := r1\<rparr>;
              s = (if length (send_q s) = 0 then reset_surge s else s)
          in Inr (s\<lparr>writers := (writers s)(i \<mapsto> (p, cells))\<rparr>))"

text \<open>The three cases of the select in that loop, and the return after it.\<close>

definition enqueue_cell :: "'r shaper \<Rightarrow> nat \<Rightarrow> 'r pstate \<Rightarrow> 'r pstate" where
  "enqueue_cell c i s =
     (case writers s i of
        Some (p, w # ws) \<Rightarrow>
          s\<lparr>send_q := send_q s @ [w], writers := (writers s)(i \<mapsto> (p, ws)),
            enq_data := enq_data s @ payload c w\<rparr>
      | _ \<Rightarrow> s)"

definition abort_dead :: "nat \<Rightarrow> 'r pstate \<Rightarrow> io_err \<times> 'r pstate" where
  "abort_dead i s =
     (case paced_err s of Some e \<Rightarrow> e | None \<Rightarrow> ErrClosed,
      s\<lparr>writers := (writers s)(i := None), paborted := True\<rparr>)"

definition abort_done :: "nat \<Rightarrow> 'r pstate \<Rightarrow> io_err \<times> 'r pstate" where
  "abort_done i s = (ErrClosed, s\<lparr>writers := (writers s)(i := None), paborted := True\<rparr>)"

definition finish_write :: "nat \<Rightarrow> 'r pstate \<Rightarrow> (nat \<times> io_err option) \<times> 'r pstate" where
  "finish_write i s =
     (case writers s i of
        Some (p, []) \<Rightarrow> ((length p, None),
          s\<lparr>writers := (writers s)(i := None), paccepted := paccepted s @ p\<rparr>)
      | _ \<Rightarrow> ((0, None), s))"

text \<open>
  One turn of \<open>pacingLoop\<close> after the timer fired: a queued cell, else a cover cell, else with
  \<open>NoPad\<close> the next timer at once.
\<close>

definition pacer_take :: "'r shaper \<Rightarrow> paced_config \<Rightarrow> 'r pstate \<Rightarrow> 'r pstate" where
  "pacer_take c cfg s =
     (case send_q s of
        w # q \<Rightarrow> s\<lparr>send_q := q, pacer := PWriting w, fired := Suc (fired s)\<rparr>
      | [] \<Rightarrow>
          if pc_no_pad cfg then
            s\<lparr>timer_at := time_add (pclock s) (current_interval cfg (pclock s) (surge_start s))\<rparr>
          else let (w, r1) = cover_cell c (prnd s)
               in s\<lparr>prnd := r1, pacer := PWriting w, fired := Suc (fired s)\<rparr>)"

text \<open>
  The base write of the pacer, and what follows it. (\<open>lastWrite\<close> is set there too, but only \<open>coverLoop\<close>
  reads it, which does not run in paced mode.)
\<close>

definition pacer_write :: "paced_config \<Rightarrow> base_write \<Rightarrow> 'r pstate \<Rightarrow> 'r pstate" where
  "pacer_write cfg res s =
     (case pacer s of
        PWriting w \<Rightarrow>
          (case res of
             WriteOk \<Rightarrow>
               s\<lparr>pwire := pwire s @ w, pacer := PWaiting,
                 timer_at := time_add (pclock s) (current_interval cfg (pclock s) (surge_start s))\<rparr>
           | WriteErr e k \<Rightarrow>
               (set_pace_err e s)\<lparr>pwire := pwire s @ take k w, pacer := PStopped,
                 pace_dead := True, pfailed := True\<rparr>)
      | _ \<Rightarrow> s)"

text \<open>
  \<open>Close\<close>: \<open>close(c.done)\<close>; after \<open>wg.Wait\<close>, \<open>flushQueue\<close> writes what is queued until
  the queue is empty or a write fails; then \<open>base.Close\<close>.
\<close>

definition close_start :: "'r pstate \<Rightarrow> 'r pstate" where
  "close_start s = s\<lparr>pdone := True, closer := CWaiting, close_mark := enq_data s\<rparr>"

definition flush_queue_step :: "base_write \<Rightarrow> 'r pstate \<Rightarrow> 'r pstate" where
  "flush_queue_step res s =
     (case send_q s of
        [] \<Rightarrow> s\<lparr>closer := CClosed\<rparr>
      | w # q \<Rightarrow>
          (case res of
             WriteOk \<Rightarrow> s\<lparr>send_q := q, pwire := pwire s @ w\<rparr>
           | WriteErr e k \<Rightarrow> s\<lparr>send_q := q, pwire := pwire s @ take k w, closer := CClosed,
                                pfailed := True\<rparr>))"

text \<open>
  The steps. \<open>ids\<close> are the goroutines that may call \<open>Write\<close>; \<open>live\<close> says whether a base
  write ever completes. A step that sends on \<open>sendQ\<close> needs room in it; a full queue, a closed
  \<open>done\<close> and a dead pacer are separate cases of the select, so an enqueue is possible also
  when \<open>done\<close> is closed.
\<close>

inductive paced_step ::
  "'r shaper \<Rightarrow> paced_config \<Rightarrow> nat set \<Rightarrow> bool \<Rightarrow> 'r pstate \<Rightarrow> 'r pstate \<Rightarrow> bool"
  for c cfg ids live where
  p_time: "pclock s \<le> t \<Longrightarrow> paced_step c cfg ids live s (s\<lparr>pclock := t\<rparr>)"
| p_write: "i \<in> ids \<Longrightarrow> writers s i = None \<Longrightarrow> write_paced c i p s = Inr s' \<Longrightarrow>
    paced_step c cfg ids live s s'"
| p_enqueue: "writers s i = Some (p, w # ws) \<Longrightarrow> int (length (send_q s)) < pc_queue cfg \<Longrightarrow>
    paced_step c cfg ids live s (enqueue_cell c i s)"
| p_dead: "writers s i = Some (p, w # ws) \<Longrightarrow> pace_dead s \<Longrightarrow>
    paced_step c cfg ids live s (snd (abort_dead i s))"
| p_closed: "writers s i = Some (p, w # ws) \<Longrightarrow> pdone s \<Longrightarrow>
    paced_step c cfg ids live s (snd (abort_done i s))"
| p_finish: "writers s i = Some (p, []) \<Longrightarrow> paced_step c cfg ids live s (snd (finish_write i s))"
| p_take: "pacer s = PWaiting \<Longrightarrow> timer_at s \<le> pclock s \<Longrightarrow>
    paced_step c cfg ids live s (pacer_take c cfg s)"
| p_stop: "pacer s = PWaiting \<Longrightarrow> pdone s \<Longrightarrow> paced_step c cfg ids live s (s\<lparr>pacer := PStopped\<rparr>)"
| p_sent: "pacer s = PWriting w \<Longrightarrow> live \<Longrightarrow> paced_step c cfg ids live s (pacer_write cfg res s)"
| p_close: "closer s = COpen \<Longrightarrow> paced_step c cfg ids live s (close_start s)"
| p_waited: "closer s = CWaiting \<Longrightarrow> pacer s = PStopped \<Longrightarrow>
    paced_step c cfg ids live s (s\<lparr>closer := CFlushing\<rparr>)"
| p_flush: "closer s = CFlushing \<Longrightarrow> live \<Longrightarrow>
    paced_step c cfg ids live s (flush_queue_step res s)"

definition paced_init :: "paced_config \<Rightarrow> 'r \<Rightarrow> instant \<Rightarrow> 'r pstate" where
  "paced_init cfg r now = \<lparr>send_q = [], pwire = [], prnd = r, pclock = now, pace_start = now,
     timer_at = time_add now (current_interval cfg now now), pace_err = None, pace_dead = False,
     pdone = False, pacer = PWaiting, closer = COpen, writers = Map.empty, enq_data = [],
     paccepted = [], paborted = False, pfailed = False, fired = 0, opened = now, close_mark = []\<rparr>"

end
