(* ===== verification/Paced_Safety.thy ===== *)
theory Paced_Safety
  imports Paced
begin

text \<open>
  What the step relation of paced mode guarantees: the queue bound, cells in order and none
  lost, what \<open>Close\<close> flushes, the rate; and three runs in which the code does less than its
  comments promise.
\<close>

section \<open>Cells\<close>

definition is_cell :: "'r shaper \<Rightarrow> bytes \<Rightarrow> bool" where
  "is_cell c w \<longleftrightarrow> shaped_frame c w (payload c w)"

definition data_of :: "'r shaper \<Rightarrow> bytes list \<Rightarrow> bytes" where
  "data_of c ws = concat (map (payload c) ws)"

lemma data_of_simps [simp]:
  "data_of c [] = []" "data_of c (w # ws) = payload c w @ data_of c ws"
  "data_of c (us @ ws) = data_of c us @ data_of c ws"
  by (simp_all add: data_of_def)

text \<open>The cell the pacer holds, and the queue behind it.\<close>

definition in_flight :: "'r pstate \<Rightarrow> bytes list" where
  "in_flight s = (case pacer s of PWriting w \<Rightarrow> [w] | _ \<Rightarrow> [])"

lemma frame_payload:
  assumes "shaped_frame c w d"
  shows "payload c w = d"
proof (cases "size_sampler c")
  case None
  with assms have f: "fixed_frame c w d" by (simp add: shaped_frame_def)
  from f obtain pad where w: "w = put_uint16 (to_uint16 (length d)) @ d @ pad"
    by (rule fixed_frame_split)
  from f have "length d < 65536" by (simp add: fixed_frame_def)
  then show ?thesis
    using None by (simp add: w payload_def put_uint16_def)
next
  case (Some smp)
  with assms have f: "morph_frame w d" by (simp add: shaped_frame_def)
  obtain pad where w: "w = put_uint16 (to_uint16 (length w - 2)) @ put_uint16 (to_uint16 (length d)) @ d @ pad"
    and "4 + length d \<le> length w" "length w \<le> 65535" by (rule morph_frame_split [OF f])
  then have "length d < 65536" by simp
  then have "payload c (put_uint16 (to_uint16 n) @ put_uint16 (to_uint16 (length d)) @ d @ pad) = d" for n
    using Some by (simp add: payload_def put_uint16_def)
  then show ?thesis by (subst w)
qed

lemma shaped_frame_is_cell: "shaped_frame c w d \<Longrightarrow> is_cell c w \<and> payload c w = d"
  using frame_payload [of c w d] by (simp add: is_cell_def)

lemma frames_are_cells:
  "list_all2 (shaped_frame c) ws ds \<Longrightarrow> (\<forall>w\<in>set ws. is_cell c w) \<and> data_of c ws = concat ds"
  by (induction ws ds rule: list_all2_induct) (auto dest: shaped_frame_is_cell)

lemma cells_are_frames:
  "\<forall>w\<in>set ws. is_cell c w \<Longrightarrow> list_all2 (shaped_frame c) ws (map (payload c) ws)"
  by (induction ws) (simp_all add: is_cell_def)

lemma frame_cells_cells:
  "shaped_wf c \<Longrightarrow> frame_cells c p r = (ws, r') \<Longrightarrow> (\<forall>w\<in>set ws. is_cell c w) \<and> data_of c ws = p"
  using shaped.cells_frame [of c p r ws r'] frames_are_cells [of c ws] by blast

lemma cover_cell_cell:
  "shaped_wf c \<Longrightarrow> cover_cell c r = (w, r') \<Longrightarrow> is_cell c w \<and> payload c w = []"
  using shaped.cover_frame [of c r w r'] by (simp add: shaped_frame_is_cell)

lemma write_paced_Inr:
  assumes "write_paced c i p s = Inr s'"
  obtains cells r1 where "frame_cells c p (prnd s) = (cells, r1)" "p \<noteq> []" "pace_err s = None"
    "s' = s\<lparr>prnd := r1, pace_start := (if send_q s = [] then pclock s else pace_start s),
            writers := (writers s)(i \<mapsto> (p, cells))\<rparr>"
  using assms by (auto simp: write_paced_def Let_def split: if_splits option.splits prod.splits)

lemmas step_defs = enqueue_cell_def abort_dead_def abort_done_def finish_write_def pacer_take_def
  pacer_write_def close_start_def flush_queue_step_def in_flight_def

section \<open>Back-pressure\<close>

definition queue_inv :: "paced_config \<Rightarrow> 'r pstate \<Rightarrow> bool" where
  "queue_inv cfg s \<longleftrightarrow> int (length (send_q s)) \<le> pc_queue cfg"

lemma queue_inv_step: "paced_step c cfg ids live s s' \<Longrightarrow> queue_inv cfg s \<Longrightarrow> queue_inv cfg s'"
  by (induction rule: paced_step.induct)
    (auto simp: queue_inv_def step_defs elim!: write_paced_Inr
      split: option.splits list.splits pacer.splits base_write.splits prod.splits)

section \<open>Order and loss\<close>

definition cells_inv :: "'r shaper \<Rightarrow> 'r pstate \<Rightarrow> bool" where
  "cells_inv c s \<longleftrightarrow> (\<forall>w \<in> set (in_flight s @ send_q s). is_cell c w) \<and>
     (\<forall>i p ws. writers s i = Some (p, ws) \<longrightarrow> (\<forall>w\<in>set ws. is_cell c w))"

lemma cells_inv_step:
  "paced_step c cfg ids live s s' \<Longrightarrow> shaped_wf c \<Longrightarrow> cells_inv c s \<Longrightarrow> cells_inv c s'"
proof (induction rule: paced_step.induct)
  case (p_write i s p s')
  then show ?case
    by (auto simp: cells_inv_def step_defs dest: frame_cells_cells elim!: write_paced_Inr
        split: if_splits)
qed (auto simp: cells_inv_def step_defs dest: cover_cell_cell 
      split: option.splits list.splits pacer.splits base_write.splits prod.splits if_splits)

definition close_inv :: "'r pstate \<Rightarrow> bool" where
  "close_inv s \<longleftrightarrow> (closer s = COpen \<or> prefix (close_mark s) (enq_data s)) \<and>
     (closer s = CFlushing \<or> closer s = CClosed \<longrightarrow> pacer s = PStopped)"

lemma close_inv_step: "paced_step c cfg ids live s s' \<Longrightarrow> close_inv s \<Longrightarrow> close_inv s'"
  by (induction rule: paced_step.induct)
    (auto simp: close_inv_def step_defs elim!: write_paced_Inr
      split: option.splits list.splits pacer.splits base_write.splits prod.splits)

text \<open>
  Until a base write fails: the wire holds whole cells, and their data, that of the cell in
  flight and that of the queue make up what has been enqueued; once \<open>Close\<close> has returned, the
  wire holds all that was enqueued when it was called.
\<close>

definition fifo_inv :: "'r shaper \<Rightarrow> 'r pstate \<Rightarrow> bool" where
  "fifo_inv c s \<longleftrightarrow> pfailed s \<or>
     (\<exists>ws. pwire s = concat ws \<and> (\<forall>w\<in>set ws. is_cell c w) \<and>
        data_of c (ws @ in_flight s @ send_q s) = enq_data s \<and>
        (closer s = CClosed \<longrightarrow> prefix (close_mark s) (data_of c ws)))"

lemma fifo_inv_step:
  "paced_step c cfg ids live s s' \<Longrightarrow> shaped_wf c \<Longrightarrow> cells_inv c s \<Longrightarrow> close_inv s \<Longrightarrow> fifo_inv c s \<Longrightarrow>
   fifo_inv c s'"
proof (induction rule: paced_step.induct)
  case (p_sent s w res)
  show ?case
  proof (cases "pfailed s \<or> res \<noteq> WriteOk")
    case False
    with p_sent obtain ws where "pwire s = concat ws" "\<forall>w\<in>set ws. is_cell c w"
      "data_of c (ws @ in_flight s @ send_q s) = enq_data s" "is_cell c w" "closer s \<noteq> CClosed"
      by (auto simp: fifo_inv_def cells_inv_def close_inv_def in_flight_def)
    with False p_sent.hyps(1) show ?thesis
      unfolding fifo_inv_def by (intro disjI2 exI [of _ "ws @ [w]"]) (simp add: step_defs)
  qed (use p_sent.hyps in \<open>auto simp: fifo_inv_def pacer_write_def split: base_write.splits\<close>)
next
  case (p_take s)
  obtain w r1 where cc: "cover_cell c (prnd s) = (w, r1)" by force
  from cover_cell_cell [OF p_take.prems(1) cc] have "payload c w = []" by simp
  with p_take cc show ?case
    by (fastforce simp: fifo_inv_def step_defs split: list.splits)
next
  case (p_flush s res)
  show ?case
  proof (cases "pfailed s \<or> send_q s \<noteq> [] \<and> res \<noteq> WriteOk")
    case False
    with p_flush obtain ws where ws: "pwire s = concat ws" "\<forall>w\<in>set ws. is_cell c w"
      "data_of c (ws @ send_q s) = enq_data s" and st: "pacer s = PStopped"
      and pre: "prefix (close_mark s) (enq_data s)"
      by (auto simp: fifo_inv_def close_inv_def in_flight_def)
    show ?thesis
    proof (cases "send_q s")
      case Nil
      with ws st pre show ?thesis
        unfolding fifo_inv_def by (intro disjI2 exI [of _ ws]) (simp add: step_defs)
    next
      case (Cons w q)
      with ws st pre False p_flush.prems(2) p_flush.hyps(1) show ?thesis
        unfolding fifo_inv_def
        by (intro disjI2 exI [of _ "ws @ [w]"]) (simp add: step_defs cells_inv_def)
    qed
  qed (use p_flush.hyps in \<open>auto simp: fifo_inv_def flush_queue_step_def split: base_write.splits list.splits\<close>)
qed (auto simp: fifo_inv_def step_defs elim!: write_paced_Inr
      split: option.splits list.splits pacer.splits base_write.splits prod.splits)

text \<open>
  With one writing goroutine, unless a \<open>Write\<close> gave up: what has been enqueued and what the
  running \<open>Write\<close> still holds are the accepted messages and the current one.
\<close>

definition single_inv :: "'r shaper \<Rightarrow> 'r pstate \<Rightarrow> bool" where
  "single_inv c s \<longleftrightarrow> (\<forall>i. i \<noteq> 0 \<longrightarrow> writers s i = None) \<and>
     (paborted s \<or> (case writers s 0 of
        None \<Rightarrow> enq_data s = paccepted s
      | Some (p, ws) \<Rightarrow> enq_data s @ data_of c ws = paccepted s @ p))"

lemma single_inv_step:
  "paced_step c cfg {0} live s s' \<Longrightarrow> shaped_wf c \<Longrightarrow> single_inv c s \<Longrightarrow> single_inv c s'"
proof (induction rule: paced_step.induct)
  case (p_write i s p s')
  then show ?case
    by (auto simp: single_inv_def dest: frame_cells_cells elim!: write_paced_Inr)
next
  case (p_enqueue s i p w ws)
  then show ?case by (cases "i = 0") (auto simp: single_inv_def step_defs)
next
  case (p_finish s i p)
  then show ?case by (cases "i = 0") (auto simp: single_inv_def step_defs)
qed (auto simp: single_inv_def step_defs
      split: option.splits list.splits pacer.splits base_write.splits prod.splits)

section \<open>The rate\<close>

definition rate_inv :: "paced_config \<Rightarrow> 'r pstate \<Rightarrow> bool" where
  "rate_inv cfg s \<longleftrightarrow> pace_start s \<le> pclock s \<and>
     nanos (opened s) + int (fired s) * surge_interval cfg \<le> nanos (pclock s) \<and>
     (pacer s = PWaiting \<longrightarrow>
        nanos (opened s) + int (fired s) * surge_interval cfg + surge_interval cfg \<le> nanos (timer_at s))"

lemma next_timer:
  assumes "paced_valid cfg" "0 < pc_rate cfg" "surge \<le> now"
  shows "nanos now + surge_interval cfg \<le> nanos (time_add now (current_interval cfg now surge))"
  using current_interval_ge_surge [OF assms] by (simp add: time_add_def)

lemma rate_inv_step:
  "paced_step c cfg ids live s s' \<Longrightarrow> paced_valid cfg \<Longrightarrow> 0 < pc_rate cfg \<Longrightarrow> rate_inv cfg s \<Longrightarrow> rate_inv cfg s'"
proof (induction rule: paced_step.induct)
  case (p_time s t)
  then show ?case by (auto simp: rate_inv_def less_eq_instant_def)
next
  case (p_take s)
  then show ?case
    using next_timer [of cfg "pace_start s" "pclock s"]
    by (auto simp: rate_inv_def step_defs less_eq_instant_def algebra_simps split: list.splits prod.splits)
next
  case (p_sent s w res)
  then show ?case
    using next_timer [of cfg "pace_start s" "pclock s"]
    by (auto simp: rate_inv_def step_defs split: base_write.splits)
qed (auto simp: rate_inv_def step_defs elim!: write_paced_Inr
      split: option.splits list.splits base_write.splits)

section \<open>Reachable states\<close>

lemma paced_reach:
  assumes "(paced_step c cfg ids live)\<^sup>*\<^sup>* (paced_init cfg r now) s" and "shaped_wf c"
    and "paced_valid cfg" and "0 < pc_rate cfg"
  shows "queue_inv cfg s \<and> cells_inv c s \<and> close_inv s \<and> fifo_inv c s \<and> rate_inv cfg s"
  using assms(1)
proof (induction rule: rtranclp_induct)
  case base
  have "surge_interval cfg \<le> current_interval cfg now now"
    using assms(3,4) by (rule current_interval_ge_surge) simp
  moreover have "fifo_inv c (paced_init cfg r now)"
    unfolding fifo_inv_def by (intro disjI2 exI [of _ "[]"]) (simp add: paced_init_def in_flight_def)
  ultimately show ?case
    using assms(3) by (auto simp: paced_init_def queue_inv_def cells_inv_def close_inv_def
        rate_inv_def in_flight_def time_add_def paced_valid_def)
next
  case (step s t)
  with assms(2-4) show ?case
    by (blast intro: queue_inv_step cells_inv_step close_inv_step fifo_inv_step rate_inv_step)
qed

lemma paced_reach_single:
  assumes "(paced_step c cfg {0} live)\<^sup>*\<^sup>* (paced_init cfg r now) s" and "shaped_wf c"
  shows "single_inv c s"
  using assms(1)
proof (induction rule: rtranclp_induct)
  case base
  show ?case by (simp add: paced_init_def single_inv_def)
next
  case (step s t)
  with assms(2) show ?case by (blast intro: single_inv_step)
qed

lemma cells_read_full:
  assumes "shaped_wf c" "matching c c'" "\<forall>w\<in>set ws. is_cell c w" "n \<le> length (data_of c ws)"
  shows "\<exists>t. read_full_loop (shaped_read c') conn_unexpected n []
      \<lparr>src = \<lparr>avail = concat ws, rd_err = e\<rparr>, pending = [], rbuf_cap = k\<rparr> =
    Some (take n (data_of c ws), None, t)"
proof -
  let ?i = "\<lparr>src = \<lparr>avail = concat ws, rd_err = e\<rparr>, pending = [], rbuf_cap = k\<rparr>"
  have "shaped.delivers c ?i (data_of c ws) (IoErr e)"
    using shaped.deliversI [OF assms(1) cells_are_frames [OF assms(3)], of ?i]
    by (simp add: data_of_def)
  from shaped.shaped_reader.read_full_delivers [OF this assms(4), of conn_unexpected] show ?thesis
    unfolding shaped_read_eq matching_cell [OF assms(2)] by blast
qed

section \<open>Runs\<close>

text \<open>A live base lets \<open>flushQueue\<close> and \<open>Close\<close> run to the end.\<close>

lemma flush_all:
  "closer s = CFlushing \<Longrightarrow> (paced_step c cfg ids True)\<^sup>*\<^sup>* s
     (s\<lparr>send_q := [], pwire := pwire s @ concat (send_q s), closer := CClosed\<rparr>)"
proof (induction "send_q s" arbitrary: s)
  case Nil
  then have "paced_step c cfg ids True s (flush_queue_step WriteOk s)" by (intro p_flush) simp_all
  moreover have "s\<lparr>closer := CClosed\<rparr> = s\<lparr>send_q := [], closer := CClosed\<rparr>"
    using Nil.hyps by (cases s) simp
  ultimately show ?case using Nil by (intro r_into_rtranclp) (simp add: flush_queue_step_def)
next
  case (Cons w q)
  let ?s = "s\<lparr>send_q := q, pwire := pwire s @ w\<rparr>"
  have "paced_step c cfg ids True s (flush_queue_step WriteOk s)"
    using Cons.prems by (intro p_flush) simp_all
  then have "paced_step c cfg ids True s ?s"
    using Cons.hyps(2) [symmetric] by (simp add: flush_queue_step_def)
  moreover have "(paced_step c cfg ids True)\<^sup>*\<^sup>* ?s
      (?s\<lparr>send_q := [], pwire := pwire ?s @ concat (send_q ?s), closer := CClosed\<rparr>)"
    using Cons.prems by (intro Cons.hyps(1)) simp_all
  ultimately show ?case
    using Cons.hyps(2) [symmetric] by (auto intro: converse_rtranclp_into_rtranclp)
qed

definition closed_state :: "'r pstate \<Rightarrow> 'r pstate" where
  "closed_state s = s\<lparr>pdone := True, close_mark := enq_data s, pacer := PStopped, send_q := [],
     pwire := pwire s @ concat (send_q s), closer := CClosed\<rparr>"

lemma close_all:
  assumes "closer s = COpen" "pacer s = PWaiting"
  shows "(paced_step c cfg ids True)\<^sup>*\<^sup>* s (closed_state s)"
proof -
  let ?s1 = "close_start s" and ?s2 = "(close_start s)\<lparr>pacer := PStopped\<rparr>"
  let ?s3 = "?s2\<lparr>closer := CFlushing\<rparr>"
  have 1: "paced_step c cfg ids True s ?s1" using assms by (intro p_close)
  have 2: "paced_step c cfg ids True ?s1 ?s2"
    using assms by (intro p_stop) (simp_all add: close_start_def)
  have 3: "paced_step c cfg ids True ?s2 ?s3" by (intro p_waited) (simp_all add: close_start_def)
  have 4: "(paced_step c cfg ids True)\<^sup>*\<^sup>* ?s3
      (?s3\<lparr>send_q := [], pwire := pwire ?s3 @ concat (send_q ?s3), closer := CClosed\<rparr>)"
    by (rule flush_all) simp
  have "closed_state s =
      ?s3\<lparr>send_q := [], pwire := pwire ?s3 @ concat (send_q ?s3), closer := CClosed\<rparr>"
    by (simp add: closed_state_def close_start_def)
  with 4 1 2 3 show ?thesis by (metis converse_rtranclp_into_rtranclp)
qed

text \<open>After \<open>Close\<close> has returned nothing reaches the wire any more.\<close>

lemma closed_wire:
  assumes "(paced_step c cfg ids live)\<^sup>*\<^sup>* s t" "closer s = CClosed" "pacer s = PStopped"
  shows "pwire t = pwire s \<and> closer t = CClosed \<and> pacer t = PStopped"
  using assms(1)
proof (induction rule: rtranclp_induct)
  case base
  with assms show ?case by simp
next
  case (step t u)
  from step.hyps(2) step.IH show ?case
    by (induction rule: paced_step.induct) (auto simp: step_defs elim!: write_paced_Inr split: option.splits list.splits)
qed

text \<open>While the base does not complete the pacer's write, \<open>Close\<close> waits for the pacer.\<close>

lemma blocked_close:
  assumes "(paced_step c cfg ids False)\<^sup>*\<^sup>* s t" "closer s = CWaiting" "pacer s = PWriting w"
  shows "closer t = CWaiting \<and> pacer t = PWriting w \<and> pwire t = pwire s"
  using assms(1)
proof (induction rule: rtranclp_induct)
  case base
  with assms show ?case by simp
next
  case (step t u)
  from step.hyps(2) step.IH show ?case
    by (induction rule: paced_step.induct) (auto simp: step_defs elim!: write_paced_Inr split: option.splits list.splits)
qed

text \<open>A \<open>Write\<close> that finds room for all its cells returns without an error.\<close>

lemma enqueue_all:
  "writers s i = Some (p, ws) \<Longrightarrow> int (length (send_q s) + length ws) \<le> pc_queue cfg \<Longrightarrow>
   (paced_step c cfg ids live)\<^sup>*\<^sup>* s
     (s\<lparr>send_q := send_q s @ ws, writers := (writers s)(i \<mapsto> (p, [])),
        enq_data := enq_data s @ data_of c ws\<rparr>)"
proof (induction ws arbitrary: s)
  case Nil
  then have "(writers s)(i \<mapsto> (p, [])) = writers s" by auto
  then show ?case by simp
next
  case (Cons w ws)
  let ?s = "s\<lparr>send_q := send_q s @ [w], writers := (writers s)(i \<mapsto> (p, ws)),
     enq_data := enq_data s @ payload c w\<rparr>"
  have "paced_step c cfg ids live s ?s"
    using p_enqueue [OF Cons.prems(1), of cfg c ids live] Cons.prems
    by (simp add: enqueue_cell_def)
  moreover have "(paced_step c cfg ids live)\<^sup>*\<^sup>* ?s
      (?s\<lparr>send_q := send_q ?s @ ws, writers := (writers ?s)(i \<mapsto> (p, [])),
         enq_data := enq_data ?s @ data_of c ws\<rparr>)"
    using Cons.prems by (intro Cons.IH) simp_all
  ultimately show ?case
    by (simp add: converse_rtranclp_into_rtranclp del: fun_upd_apply)
qed

definition written_state :: "'r shaper \<Rightarrow> nat \<Rightarrow> bytes \<Rightarrow> 'r pstate \<Rightarrow> 'r pstate" where
  "written_state c i p s = (let (ws, r1) = frame_cells c p (prnd s) in
     s\<lparr>prnd := r1, pace_start := (if send_q s = [] then pclock s else pace_start s),
       send_q := send_q s @ ws, enq_data := enq_data s @ data_of c ws,
       writers := (writers s)(i := None), paccepted := paccepted s @ p\<rparr>)"

lemma write_all:
  assumes "i \<in> ids" "writers s i = None" "pace_err s = None" "p \<noteq> []"
    and "int (length (send_q s) + length (fst (frame_cells c p (prnd s)))) \<le> pc_queue cfg"
  shows "(paced_step c cfg ids live)\<^sup>*\<^sup>* s (written_state c i p s)"
proof -
  obtain ws r1 where f: "frame_cells c p (prnd s) = (ws, r1)" by force
  let ?s1 = "s\<lparr>prnd := r1, pace_start := (if send_q s = [] then pclock s else pace_start s),
     writers := (writers s)(i \<mapsto> (p, ws))\<rparr>"
  let ?s2 = "?s1\<lparr>send_q := send_q s @ ws, writers := (writers s)(i \<mapsto> (p, [])),
     enq_data := enq_data s @ data_of c ws\<rparr>"
  have 1: "paced_step c cfg ids live s ?s1"
    using assms f by (intro p_write [of i ids s c p]) (simp_all add: write_paced_def)
  have 2: "(paced_step c cfg ids live)\<^sup>*\<^sup>* ?s1 ?s2"
    using enqueue_all [of ?s1 i p ws cfg c ids live] assms(5) f by simp
  have "paced_step c cfg ids live ?s2 (snd (finish_write i ?s2))"
    by (intro p_finish) simp
  then have 3: "paced_step c cfg ids live ?s2 (written_state c i p s)"
    using f by (simp add: finish_write_def written_state_def split del: if_split)
  from 1 2 3 show ?thesis by (meson converse_rtranclp_into_rtranclp rtranclp.rtrancl_into_rtrancl)
qed

section \<open>A configuration to run\<close>

definition paced4 :: "unit shaper" where
  "paced4 = fixed4\<lparr>pace := Some example_pace\<rparr>"

lemma paced4_new:
  "new_shaped_conn zero_fill (zero_policy\<lparr>p_cell_size := 4, p_paced := Some example_pace\<rparr>) =
   Some (paced4, [PacingLoop])"
proof -
  have "paced_valid example_pace" by (simp add: example_pace_def paced_valid_def)
  then show ?thesis
    using with_defaults_keeps [of example_pace]
    by (simp add: paced4_def fixed4_def policy_defs zero_policy_def example_pace_def)
qed

lemma paced4_simps [simp]:
  "pace paced4 = Some example_pace" "fill paced4 = zero_fill" "filler (fill paced4)" "shaped_wf paced4"
  "matching paced4 paced4" "filler zero_fill"
  using fixed4_wf zero_filler.filler_axioms
  by (auto simp: paced4_def fixed4_def shaped_wf_def fixed_wf_def fixed_ok_def matching_def)

lemma fixed_loop_2:
  "fixed_loop c 2 source r = (let (w, r1) = fixed_loop c 1 source r;
     (ws, r2) = fixed_loop c 1 (drop (max_data c) source) r1 in (w @ ws, r2))"
  by (simp add: numeral_2_eq_2 Let_def split: prod.split)

lemma paced4_cells:
  "frame_cells paced4 [1, 2, 3] () = ([[0, 2, 1, 2], [0, 1, 3, 0]], ())"
  "frame_cells paced4 [7, 8, 9] () = ([[0, 2, 7, 8], [0, 1, 9, 0]], ())"
  by (simp_all add: frame_cells_def paced4_def fixed4_def fixed_cells_def Let_def fixed_loop_2
      zero_fill_def put_uint16_def to_uint16_def hdr_size_def numeral_3_eq_3)

abbreviation init4 :: "unit pstate" where
  "init4 \<equiv> paced_init example_pace () (Instant 0)"

lemma init4_simps [simp]:
  "pc_queue example_pace = 4" "\<not> pc_no_pad example_pace"
  "send_q init4 = []" "writers init4 = Map.empty" "pace_err init4 = None" "closer init4 = COpen"
  "pacer init4 = PWaiting" "prnd init4 = ()" "enq_data init4 = []" "paccepted init4 = []"
  "pwire init4 = []" "pfailed init4 = False" "paborted init4 = False" "pclock init4 = Instant 0"
  by (simp_all add: paced_init_def example_pace_def)

lemma payload4: "payload paced4 [0, 2, a, b] = [a, b]" "payload paced4 [0, 1, a, b] = [a]"
  by (simp_all add: payload_def paced4_def fixed4_def be16_eq)

text \<open>The run: one message is written, then \<open>Close\<close> runs to its end.\<close>

definition sent4 :: "unit pstate" where
  "sent4 = closed_state (written_state paced4 0 [1, 2, 3] init4)"

lemma sent4_reach: "(paced_step paced4 example_pace {0} True)\<^sup>*\<^sup>* init4 sent4"
proof -
  have "(paced_step paced4 example_pace {0} True)\<^sup>*\<^sup>* init4 (written_state paced4 0 [1, 2, 3] init4)"
    by (rule write_all) (simp_all add: paced4_cells)
  moreover have "(paced_step paced4 example_pace {0} True)\<^sup>*\<^sup>*
      (written_state paced4 0 [1, 2, 3] init4) sent4"
    unfolding sent4_def by (rule close_all) (simp_all add: written_state_def paced4_cells)
  ultimately show ?thesis by (rule rtranclp_trans)
qed

lemma sent4_simps [simp]:
  "closer sent4 = CClosed" "pfailed sent4 = False" "close_mark sent4 = [1, 2, 3]" "send_q sent4 = []"
  "in_flight sent4 = []" "paborted sent4 = False" "paccepted sent4 = [1, 2, 3]" "writers sent4 = Map.empty"
  "enq_data sent4 = [1, 2, 3]"
  by (simp_all add: sent4_def closed_state_def written_state_def paced4_cells payload4 in_flight_def)

text \<open>The run in which the first timer fires.\<close>

definition fired4 :: "unit pstate" where
  "fired4 = pacer_take paced4 example_pace (init4\<lparr>pclock := timer_at init4\<rparr>)"

lemma fired4_reach: "(paced_step paced4 example_pace {0} True)\<^sup>*\<^sup>* init4 fired4"
proof -
  have "paced_valid example_pace" "0 < pc_rate example_pace"
    by (simp_all add: example_pace_def paced_valid_def)
  then have "0 \<le> current_interval example_pace (Instant 0) (Instant 0)"
    using surge_interval_nonneg [of example_pace]
      current_interval_ge_surge [of example_pace "Instant 0" "Instant 0"] by simp
  then have "pclock init4 \<le> timer_at init4"
    by (simp add: paced_init_def time_add_def less_eq_instant_def)
  then have 1: "paced_step paced4 example_pace {0} True init4 (init4\<lparr>pclock := timer_at init4\<rparr>)"
    by (rule p_time)
  have 2: "paced_step paced4 example_pace {0} True (init4\<lparr>pclock := timer_at init4\<rparr>) fired4"
    unfolding fired4_def by (rule p_take) simp_all
  from 1 2 show ?thesis by (meson converse_rtranclp_into_rtranclp rtranclp.rtrancl_refl)
qed

text \<open>The run in which two goroutines write at the same time.\<close>

definition both4 :: "unit pstate" where
  "both4 = init4\<lparr>send_q := [[0, 2, 1, 2], [0, 2, 7, 8], [0, 1, 3, 0], [0, 1, 9, 0]],
     enq_data := [1, 2, 7, 8, 3, 9], writers := Map.empty, paccepted := [1, 2, 3, 7, 8, 9]\<rparr>"

lemma both4_simps [simp]:
  "closer both4 = COpen" "pacer both4 = PWaiting" "pfailed both4 = False" "paborted both4 = False"
  "paccepted both4 = [1, 2, 3, 7, 8, 9]" "enq_data both4 = [1, 2, 7, 8, 3, 9]"
  by (simp_all add: both4_def)

definition mid4 :: "bytes list \<Rightarrow> bytes list \<Rightarrow> bytes list \<Rightarrow> bytes \<Rightarrow> unit pstate" where
  "mid4 q xs ys dt = init4\<lparr>send_q := q, writers := [0 \<mapsto> ([1, 2, 3], xs), 1 \<mapsto> ([7, 8, 9], ys)],
     enq_data := dt\<rparr>"

lemma mid4_enqueue:
  assumes "length q < 4"
  shows "paced_step paced4 example_pace {0, 1} True (mid4 q (x # xs) ys dt)
      (mid4 (q @ [x]) xs ys (dt @ payload paced4 x))"
    and "paced_step paced4 example_pace {0, 1} True (mid4 q xs (x # ys) dt)
      (mid4 (q @ [x]) xs ys (dt @ payload paced4 x))"
  using p_enqueue [of "mid4 q (x # xs) ys dt" 0 "[1, 2, 3]" x xs]
    p_enqueue [of "mid4 q xs (x # ys) dt" 1 "[7, 8, 9]" x ys] assms
  by (simp_all add: enqueue_cell_def mid4_def fun_upd_twist)

lemma both4_reach: "(paced_step paced4 example_pace {0, 1} True)\<^sup>*\<^sup>* init4 both4"
proof -
  let ?step = "paced_step paced4 example_pace {0, 1} True"
  let ?a = "[0, 2, 1, 2] :: bytes" and ?b = "[0, 1, 3, 0] :: bytes"
    and ?d = "[0, 2, 7, 8] :: bytes" and ?e = "[0, 1, 9, 0] :: bytes"
  let ?last = "init4\<lparr>send_q := [?a, ?d, ?b, ?e], enq_data := [1, 2, 7, 8, 3, 9],
     writers := [1 \<mapsto> ([7, 8, 9], [])], paccepted := [1, 2, 3]\<rparr>"
  have 1: "?step init4 (init4\<lparr>writers := [0 \<mapsto> ([1, 2, 3], [?a, ?b])]\<rparr>)"
    by (rule p_write [of 0 _ _ _ "[1, 2, 3]"]) (simp_all add: write_paced_def paced4_cells paced_init_def)
  have 2: "?step (init4\<lparr>writers := [0 \<mapsto> ([1, 2, 3], [?a, ?b])]\<rparr>) (mid4 [] [?a, ?b] [?d, ?e] [])"
    by (rule p_write [of 1 _ _ _ "[7, 8, 9]"])
      (simp_all add: write_paced_def paced4_cells paced_init_def mid4_def)
  have 3: "?step (mid4 [] [?a, ?b] [?d, ?e] []) (mid4 [?a] [?b] [?d, ?e] [1, 2])"
    "?step (mid4 [?a] [?b] [?d, ?e] [1, 2]) (mid4 [?a, ?d] [?b] [?e] [1, 2, 7, 8])"
    "?step (mid4 [?a, ?d] [?b] [?e] [1, 2, 7, 8]) (mid4 [?a, ?d, ?b] [] [?e] [1, 2, 7, 8, 3])"
    "?step (mid4 [?a, ?d, ?b] [] [?e] [1, 2, 7, 8, 3]) (mid4 [?a, ?d, ?b, ?e] [] [] [1, 2, 7, 8, 3, 9])"
    using mid4_enqueue(1) [of "[]" ?a "[?b]" "[?d, ?e]" "[]"]
      mid4_enqueue(2) [of "[?a]" "[?b]" ?d "[?e]" "[1, 2]"]
      mid4_enqueue(1) [of "[?a, ?d]" ?b "[]" "[?e]" "[1, 2, 7, 8]"]
      mid4_enqueue(2) [of "[?a, ?d, ?b]" "[]" ?e "[]" "[1, 2, 7, 8, 3]"]
    by (simp_all add: payload4)
  have 4: "?step (mid4 [?a, ?d, ?b, ?e] [] [] [1, 2, 7, 8, 3, 9]) ?last"
    using p_finish [of "mid4 [?a, ?d, ?b, ?e] [] [] [1, 2, 7, 8, 3, 9]" 0 "[1, 2, 3]"]
    by (simp add: finish_write_def fun_upd_twist mid4_def)
  have 5: "?step ?last both4"
    using p_finish [of ?last 1 "[7, 8, 9]"] by (simp add: finish_write_def both4_def)
  from 1 2 3 4 5 show ?thesis by (meson converse_rtranclp_into_rtranclp rtranclp.rtrancl_refl)
qed

section \<open>Properties of paced mode\<close>

text \<open>
  In every reachable state of a paced connection, whatever the writers, the pacer,
  \<open>Close\<close> and the clock do: the queue stays within its bound; the data on the wire, of the
  cell in flight and of the queued cells is what has been enqueued, in order; and until a
  base write fails the peer can read the part that is on the wire.
\<close>

theorem paced_wire_in_order:
  assumes "new_shaped_conn rf p = Some (c, ls)" and "filler (fill c)" and "p_cell_size p \<le> 65537"
    and "pace c = Some cfg" and "(paced_step c cfg ids live)\<^sup>*\<^sup>* (paced_init cfg r now) s"
    and "\<not> pfailed s" and "matching c c'"
  shows "int (length (send_q s)) \<le> pc_queue cfg \<and>
    (\<exists>d. enq_data s = d @ data_of c (in_flight s @ send_q s) \<and>
      (\<forall>n \<le> length d. \<exists>t. read_full_loop (shaped_read c') conn_unexpected n []
          \<lparr>src = \<lparr>avail = pwire s, rd_err = e\<rparr>, pending = [], rbuf_cap = k\<rparr> =
        Some (take n d, None, t)))"
proof -
  have wf: "shaped_wf c" by (rule new_shaped_wf [OF assms(1-3)])
  from paced_reach [OF assms(5) wf] new_shaped_paced [OF assms(1,4)]
  have q: "queue_inv cfg s" and "fifo_inv c s" by simp_all
  with assms(6) obtain ws where "pwire s = concat ws" "\<forall>w\<in>set ws. is_cell c w"
    "data_of c (ws @ in_flight s @ send_q s) = enq_data s"
    by (auto simp: fifo_inv_def)
  with q cells_read_full [OF wf assms(7)] show ?thesis
    by (intro conjI exI [of _ "data_of c ws"]) (simp_all add: queue_inv_def)
qed

theorem paced_wire_in_order_witness:
  "\<exists>t. read_full_loop (shaped_read paced4) conn_unexpected 2 []
      \<lparr>src = \<lparr>avail = pwire sent4, rd_err = EOF\<rparr>, pending = [], rbuf_cap = 0\<rparr> =
    Some ([1, 2], None, t)"
proof -
  from paced_wire_in_order [OF paced4_new _ _ _ sent4_reach, of paced4 EOF 0]
  obtain d where d: "[1, 2, 3] = d" and "\<forall>n \<le> length d. \<exists>t. read_full_loop (shaped_read paced4)
      conn_unexpected n [] \<lparr>src = \<lparr>avail = pwire sent4, rd_err = EOF\<rparr>, pending = [], rbuf_cap = 0\<rparr> =
    Some (take n d, None, t)" by auto
  then show ?thesis by (elim allE [of _ 2]) (simp flip: d)
qed

text \<open>
  C32. \<open>Close\<close> flushes: once \<open>Close\<close> has returned and no base write has failed, the peer
  can read everything that had been enqueued when \<open>Close\<close> was called.
\<close>

theorem paced_close_flushes:
  assumes "new_shaped_conn rf p = Some (c, ls)" and "filler (fill c)" and "p_cell_size p \<le> 65537"
    and "pace c = Some cfg" and "(paced_step c cfg ids live)\<^sup>*\<^sup>* (paced_init cfg r now) s"
    and "closer s = CClosed" and "\<not> pfailed s" and "matching c c'" and "n \<le> length (close_mark s)"
  shows "\<exists>t. read_full_loop (shaped_read c') conn_unexpected n []
      \<lparr>src = \<lparr>avail = pwire s, rd_err = e\<rparr>, pending = [], rbuf_cap = k\<rparr> =
    Some (take n (close_mark s), None, t)"
proof -
  have wf: "shaped_wf c" by (rule new_shaped_wf [OF assms(1-3)])
  from paced_reach [OF assms(5) wf] new_shaped_paced [OF assms(1,4)]
  have "fifo_inv c s" by simp
  with assms(6,7) obtain ws where ws: "pwire s = concat ws" "\<forall>w\<in>set ws. is_cell c w"
    "prefix (close_mark s) (data_of c ws)" by (auto simp: fifo_inv_def)
  from ws(3) assms(9) have "n \<le> length (data_of c ws)" "take n (data_of c ws) = take n (close_mark s)"
    by (auto simp: prefix_def)
  with ws cells_read_full [OF wf assms(8) ws(2), of n] show ?thesis by simp
qed

theorem paced_close_flushes_witness:
  "\<exists>t. read_full_loop (shaped_read paced4) conn_unexpected 3 []
      \<lparr>src = \<lparr>avail = pwire sent4, rd_err = EOF\<rparr>, pending = [], rbuf_cap = 0\<rparr> =
    Some ([1, 2, 3], None, t)"
  using paced_close_flushes [OF paced4_new _ _ _ sent4_reach, of paced4 3 EOF 0] by simp

text \<open>
  One writing goroutine: while none of its writes gave up and no base write failed, the
  peer of a drained connection reads exactly the accepted messages, in order.
\<close>

theorem paced_single_writer:
  assumes "new_shaped_conn rf p = Some (c, ls)" and "filler (fill c)" and "p_cell_size p \<le> 65537"
    and "pace c = Some cfg" and "(paced_step c cfg {0} live)\<^sup>*\<^sup>* (paced_init cfg r now) s"
    and "\<not> pfailed s" and "\<not> paborted s" and "writers s 0 = None"
    and "in_flight s = []" and "send_q s = []"
    and "matching c c'" and "n \<le> length (paccepted s)"
  shows "\<exists>t. read_full_loop (shaped_read c') conn_unexpected n []
      \<lparr>src = \<lparr>avail = pwire s, rd_err = e\<rparr>, pending = [], rbuf_cap = k\<rparr> =
    Some (take n (paccepted s), None, t)"
proof -
  have wf: "shaped_wf c" by (rule new_shaped_wf [OF assms(1-3)])
  from paced_reach [OF assms(5) wf] new_shaped_paced [OF assms(1,4)]
  have "fifo_inv c s" by simp
  with assms(6,9,10) obtain ws where ws: "pwire s = concat ws" "\<forall>w\<in>set ws. is_cell c w"
    "data_of c ws = enq_data s" by (auto simp: fifo_inv_def)
  moreover have "enq_data s = paccepted s"
    using paced_reach_single [OF assms(5) wf] assms(7,8) by (simp add: single_inv_def)
  ultimately show ?thesis
    using cells_read_full [OF wf assms(11) ws(2), of n] assms(12) by simp
qed

theorem paced_single_writer_witness:
  "paccepted sent4 = [1, 2, 3] \<and> (\<exists>t. read_full_loop (shaped_read paced4) conn_unexpected 3 []
      \<lparr>src = \<lparr>avail = pwire sent4, rd_err = EOF\<rparr>, pending = [], rbuf_cap = 0\<rparr> =
    Some ([1, 2, 3], None, t))"
  using paced_single_writer [OF paced4_new _ _ _ sent4_reach, of paced4 3 EOF 0] by simp



text \<open>
  A \<open>Write\<close> on a closed connection can succeed and lose the message: \<open>writePaced\<close> does
  not look at \<open>done\<close> before its select, and the select may take the free queue slot. From any
  closed state with room in the queue there is a run in which \<open>Write\<close> accepts the whole
  message, although nothing written after that point ever reaches the wire.
\<close>

theorem paced_write_after_close:
  assumes "closer s = CClosed" and "pacer s = PStopped"
    and "i \<in> ids" and "writers s i = None" and "pace_err s = None" and "p \<noteq> []"
    and "int (length (send_q s) + length (fst (frame_cells c p (prnd s)))) \<le> pc_queue cfg"
  shows "\<exists>s'. (paced_step c cfg ids live)\<^sup>*\<^sup>* s s' \<and> paccepted s' = paccepted s @ p \<and>
    paborted s' = paborted s \<and> pfailed s' = pfailed s \<and>
    (\<forall>t. (paced_step c cfg ids live)\<^sup>*\<^sup>* s' t \<longrightarrow> pwire t = pwire s)"
proof -
  let ?t = "written_state c i p s"
  have "(paced_step c cfg ids live)\<^sup>*\<^sup>* s ?t" by (rule write_all [OF assms(3-7)])
  moreover have "closer ?t = CClosed" "pacer ?t = PStopped" "pwire ?t = pwire s"
    "paccepted ?t = paccepted s @ p" "paborted ?t = paborted s" "pfailed ?t = pfailed s"
    using assms(1,2) by (simp_all add: written_state_def split: prod.split)
  ultimately show ?thesis using closed_wire [of c cfg ids live ?t] by metis
qed

theorem paced_write_after_close_witness:
  "\<exists>s'. (paced_step paced4 example_pace {0} True)\<^sup>*\<^sup>* sent4 s' \<and>
     paccepted s' = [1, 2, 3, 7, 8, 9] \<and> pfailed s' = False \<and> pwire s' = pwire sent4"
proof -
  have "pacer sent4 = PStopped" "pace_err sent4 = None" "prnd sent4 = ()"
    by (simp_all add: sent4_def closed_state_def written_state_def paced4_cells)
  with paced_write_after_close [of sent4 0 "{0}" "[7, 8, 9]" paced4 example_pace True]
  obtain s' where "(paced_step paced4 example_pace {0} True)\<^sup>*\<^sup>* sent4 s'"
    "paccepted s' = [1, 2, 3, 7, 8, 9]" "pfailed s' = False"
    "\<forall>t. (paced_step paced4 example_pace {0} True)\<^sup>*\<^sup>* s' t \<longrightarrow> pwire t = pwire sent4"
    by (auto simp: paced4_cells)
  then show ?thesis by blast
qed

text \<open>
  Concurrent writes are not atomic in paced mode: two goroutines enqueue cell by cell, so
  there is a run in which both writes return without an error and the stream the peer gets has
  the end of one message inside the other.
\<close>

theorem paced_writes_interleave:
  "\<exists>s. (paced_step paced4 example_pace {0, 1} True)\<^sup>*\<^sup>* init4 s \<and> \<not> pfailed s \<and> \<not> paborted s \<and>
     closer s = CClosed \<and> paccepted s = [1, 2, 3] @ [7, 8, 9] \<and>
     (\<exists>t. read_full_loop (shaped_read paced4) conn_unexpected 6 []
       \<lparr>src = \<lparr>avail = pwire s, rd_err = EOF\<rparr>, pending = [], rbuf_cap = 0\<rparr> =
     Some ([1, 2, 7, 8, 3, 9], None, t))"
proof -
  let ?s = "closed_state both4"
  have "(paced_step paced4 example_pace {0, 1} True)\<^sup>*\<^sup>* both4 ?s" by (rule close_all) simp_all
  with both4_reach have reach: "(paced_step paced4 example_pace {0, 1} True)\<^sup>*\<^sup>* init4 ?s"
    by (rule rtranclp_trans)
  have f: "\<not> pfailed ?s" "\<not> paborted ?s" "closer ?s = CClosed" "paccepted ?s = [1, 2, 3] @ [7, 8, 9]"
    "enq_data ?s = [1, 2, 7, 8, 3, 9]" "in_flight ?s = []" "send_q ?s = []"
    by (simp_all add: closed_state_def in_flight_def)
  have "fifo_inv paced4 ?s"
    using paced_reach [OF reach] by (simp add: example_pace_def paced_valid_def)
  with f obtain ws where "pwire ?s = concat ws" "\<forall>w\<in>set ws. is_cell paced4 w"
    "data_of paced4 ws = [1, 2, 7, 8, 3, 9]" by (auto simp: fifo_inv_def)
  with reach f cells_read_full [of paced4 paced4 ws 6 EOF 0] show ?thesis
    by (intro exI [of _ ?s]) simp
qed

text \<open>
  \<open>Close\<close> needs a base that makes progress: it waits for the pacer before it closes the
  base, so while the base does not complete the pacer's write \<open>Close\<close> does not return; on a base
  that completes its writes it can return, with the held and the queued cells on the wire.
\<close>

theorem paced_close_waits:
  assumes "closer s = COpen" and "pacer s = PWriting w"
  shows "paced_step c cfg ids live s (close_start s) \<and>
    (\<forall>t. (paced_step c cfg ids False)\<^sup>*\<^sup>* (close_start s) t \<longrightarrow>
       closer t = CWaiting \<and> pwire t = pwire s) \<and>
    (\<exists>t. (paced_step c cfg ids True)\<^sup>*\<^sup>* (close_start s) t \<and> closer t = CClosed \<and>
       pwire t = pwire s @ w @ concat (send_q s))"
proof (intro conjI allI impI)
  show "paced_step c cfg ids live s (close_start s)" by (rule p_close [OF assms(1)])
next
  fix t assume "(paced_step c cfg ids False)\<^sup>*\<^sup>* (close_start s) t"
  from blocked_close [OF this] assms show "closer t = CWaiting" "pwire t = pwire s"
    by (simp_all add: close_start_def)
next
  let ?s1 = "pacer_write cfg WriteOk (close_start s)" and ?step = "paced_step c cfg ids True"
  have w: "pacer ?s1 = PWaiting" "closer ?s1 = CWaiting" "pdone ?s1" "pwire ?s1 = pwire s @ w"
    "send_q ?s1 = send_q s"
    using assms by (simp_all add: pacer_write_def close_start_def)
  let ?s3 = "?s1\<lparr>pacer := PStopped, closer := CFlushing\<rparr>"
  have 1: "?step (close_start s) ?s1" using assms by (intro p_sent) (simp_all add: close_start_def)
  have 2: "?step ?s1 (?s1\<lparr>pacer := PStopped\<rparr>)" by (rule p_stop [OF w(1,3)])
  have 3: "?step (?s1\<lparr>pacer := PStopped\<rparr>) ?s3"
    using p_waited [of "?s1\<lparr>pacer := PStopped\<rparr>" c cfg ids True] w by simp
  let ?t = "?s3\<lparr>send_q := [], pwire := pwire ?s3 @ concat (send_q ?s3), closer := CClosed\<rparr>"
  have "?step\<^sup>*\<^sup>* ?s3 ?t" by (rule flush_all) simp
  with 1 2 3 have "?step\<^sup>*\<^sup>* (close_start s) ?t" by (meson converse_rtranclp_into_rtranclp)
  moreover have "closer ?t = CClosed" "pwire ?t = pwire s @ w @ concat (send_q s)" using w by simp_all
  ultimately show "\<exists>t. ?step\<^sup>*\<^sup>* (close_start s) t \<and> closer t = CClosed \<and>
      pwire t = pwire s @ w @ concat (send_q s)" by blast
qed

theorem paced_close_waits_witness:
  "\<exists>w t. pacer fired4 = PWriting w \<and>
     (paced_step paced4 example_pace {0} True)\<^sup>*\<^sup>* (close_start fired4) t \<and> closer t = CClosed \<and>
     pwire t = w"
proof -
  obtain w where w: "cover_cell paced4 () = (w, ())" by (metis (full_types) surj_pair old.unit.exhaust)
  then have "pacer fired4 = PWriting w" "closer fired4 = COpen" "pwire fired4 = []" "send_q fired4 = []"
    by (simp_all add: fired4_def pacer_take_def)
  with paced_close_waits [of fired4 w paced4 example_pace "{0}" True] show ?thesis by auto
qed

end
