(* ===== verification/Paced_Refine.thy ===== *)
theory Paced_Refine
  imports Paced_Safety
begin

text \<open>
  The contract of paced mode: to whoever writes and to the peer that reads, the queue of
  \<open>writePaced\<close>, the pacer with its cover cells, and the flush of \<open>Close\<close> are a bounded pipe. The
  pipe is the specification here; every step of the paced connection is one of its steps or none.
\<close>

section \<open>The pipe\<close>

text \<open>
  \<open>items\<close>: the chunks under way. \<open>sent\<close>: all that was put in. \<open>got\<close>: all that came out. A
  broken pipe promises nothing more.
\<close>

record pipe =
  items :: "bytes list"
  sent :: bytes
  got :: bytes
  broken :: bool

definition pipe_init :: pipe where
  "pipe_init = \<lparr>items = [], sent = [], got = [], broken = False\<rparr>"

inductive pipe_step :: "nat \<Rightarrow> pipe \<Rightarrow> pipe \<Rightarrow> bool" for cap where
  pipe_put: "\<not> broken a \<Longrightarrow> length (items a) < cap \<Longrightarrow> d \<noteq> [] \<Longrightarrow>
    pipe_step cap a (a\<lparr>items := items a @ [d], sent := sent a @ d\<rparr>)"
| pipe_get: "\<not> broken a \<Longrightarrow> items a = d # ds \<Longrightarrow> pipe_step cap a (a\<lparr>items := ds, got := got a @ d\<rparr>)"
| pipe_break: "pipe_step cap a (a\<lparr>broken := True\<rparr>)"

lemma pipe_reach:
  assumes "(pipe_step cap)\<^sup>*\<^sup>* pipe_init a"
  shows "sent a = got a @ concat (items a) \<and> length (items a) \<le> cap \<and> [] \<notin> set (items a)"
proof (rule reach_invariant [OF assms])
  show "sent pipe_init = got pipe_init @ concat (items pipe_init) \<and> length (items pipe_init) \<le> cap \<and>
      [] \<notin> set (items pipe_init)"
    by (simp add: pipe_init_def)
qed (erule pipe_step.cases; simp)

section \<open>The simulation\<close>

text \<open>Cover cells are nobody's chunks.\<close>

definition chunks :: "'r shaper \<Rightarrow> bytes list \<Rightarrow> bytes list" where
  "chunks c ws = filter (\<lambda>d. d \<noteq> []) (map (payload c) ws)"

lemma chunks_simps [simp]:
  "chunks c [] = []" "chunks c (w # ws) = (if payload c w = [] then [] else [payload c w]) @ chunks c ws"
  "chunks c (ws @ vs) = chunks c ws @ chunks c vs"
  by (simp_all add: chunks_def)

lemma chunks_length: "length (chunks c ws) \<le> length ws"
  by (simp add: chunks_def le_trans [OF length_filter_le])

definition implements :: "'r shaper \<Rightarrow> 'r pstate \<Rightarrow> pipe \<Rightarrow> bool" where
  "implements c s a \<longleftrightarrow> broken a = pfailed s \<and>
     (pfailed s \<or> items a = chunks c (in_flight s @ send_q s) \<and> sent a = enq_data s \<and>
       (\<exists>ws. pwire s = concat ws \<and> (\<forall>w \<in> set ws. is_cell c w) \<and> data_of c ws = got a))"

lemma implements_broken: "broken a \<Longrightarrow> pfailed s \<Longrightarrow> implements c s a"
  by (simp add: implements_def)

lemma implements_obtain:
  assumes "implements c s a" "\<not> pfailed s"
  obtains ws where "\<not> broken a" "items a = chunks c (in_flight s @ send_q s)" "sent a = enq_data s"
    "pwire s = concat ws" "\<forall>w \<in> set ws. is_cell c w" "data_of c ws = got a"
  using assms by (auto simp: implements_def)

text \<open>A cell leaves the head of what is under way and reaches the wire.\<close>

lemma implements_get:
  assumes "implements c s a" "\<not> pfailed s" "in_flight s @ send_q s = w # ws" "is_cell c w"
    and "pwire s' = pwire s @ w" "in_flight s' @ send_q s' = ws" "enq_data s' = enq_data s" "\<not> pfailed s'"
  shows "\<exists>a'. (a' = a \<or> pipe_step cap a a') \<and> implements c s' a'"
proof -
  from assms(1,2) obtain vs where v: "\<not> broken a" "items a = chunks c (in_flight s @ send_q s)"
    "sent a = enq_data s" "pwire s = concat vs" "\<forall>w \<in> set vs. is_cell c w" "data_of c vs = got a"
    by (rule implements_obtain)
  let ?a = "if payload c w = [] then a else a\<lparr>items := chunks c ws, got := got a @ payload c w\<rparr>"
  have "?a = a \<or> pipe_step cap a ?a" using v(1,2) assms(3) by (simp add: pipe_get)
  moreover have "\<exists>us. pwire s' = concat us \<and> (\<forall>w \<in> set us. is_cell c w) \<and> data_of c us = got ?a"
    using v assms(4,5) by (intro exI [of _ "vs @ [w]"]) auto
  then have "implements c s' ?a" using v assms by (auto simp: implements_def)
  ultimately show ?thesis by blast
qed

text \<open>Steps that touch neither cells nor wire, and base writes that fail.\<close>

lemma implements_stutter:
  assumes "implements c s a" "chunks c (in_flight s' @ send_q s') = chunks c (in_flight s @ send_q s)"
    "pwire s' = pwire s" "enq_data s' = enq_data s" "pfailed s' = pfailed s"
  shows "\<exists>a'. (a' = a \<or> pipe_step cap a a') \<and> implements c s' a'"
  using assms by (intro exI [of _ a]) (simp add: implements_def)

lemma implements_fail:
  assumes "pfailed s'"
  shows "\<exists>a'. (a' = a \<or> pipe_step cap a a') \<and> implements c s' a'"
  using assms by (intro exI [of _ "a\<lparr>broken := True\<rparr>"]) (simp add: implements_def pipe_break)

lemma paced_simulates:
  assumes "paced_step c cfg ids live s s'" and "shaped_wf c" "cells_inv c s" "close_inv s"
    and "implements c s a"
  shows "\<exists>a'. (a' = a \<or> pipe_step (nat (pc_queue cfg) + 1) a a') \<and> implements c s' a'"
  using assms
proof (induction rule: paced_step.induct)
  case (p_write i s p s')
  then show ?case by (auto elim!: write_paced_Inr intro!: implements_stutter simp: in_flight_def)
next
  case (p_enqueue s i p w ws)
  show ?case
  proof (cases "pfailed s")
    case True
    then show ?thesis using p_enqueue.hyps by (intro implements_fail) (simp add: enqueue_cell_def)
  next
    case False
    with p_enqueue.prems(4) obtain vs where v: "\<not> broken a" "items a = chunks c (in_flight s @ send_q s)"
      "sent a = enq_data s" "pwire s = concat vs" "\<forall>w \<in> set vs. is_cell c w" "data_of c vs = got a"
      by (rule implements_obtain)
    have "length (items a) \<le> length (in_flight s @ send_q s)" unfolding v(2) by (rule chunks_length)
    moreover have "length (in_flight s) \<le> 1" by (simp add: in_flight_def split: pacer.split)
    ultimately have room: "length (items a) < nat (pc_queue cfg) + 1" using p_enqueue.hyps(2) by simp
    let ?a = "if payload c w = [] then a
      else a\<lparr>items := items a @ [payload c w], sent := sent a @ payload c w\<rparr>"
    have "?a = a \<or> pipe_step (nat (pc_queue cfg) + 1) a ?a" using pipe_put [OF v(1) room] by simp
    moreover have "implements c (enqueue_cell c i s) ?a"
      using v False p_enqueue.hyps(1) by (auto simp: implements_def enqueue_cell_def in_flight_def)
    ultimately show ?thesis by blast
  qed
next
  case (p_take s)
  obtain w r1 where cc: "cover_cell c (prnd s) = (w, r1)" by force
  from cover_cell_cell [OF p_take.prems(1) cc] have "payload c w = []" by simp
  with p_take cc show ?case
    by (intro implements_stutter [OF p_take.prems(4)])
      (auto simp: pacer_take_def in_flight_def split: list.split)
next
  case (p_sent s w res)
  show ?case
  proof (cases "pfailed s \<or> res \<noteq> WriteOk")
    case True
    with p_sent.hyps show ?thesis
      by (intro implements_fail) (auto simp: pacer_write_def split: base_write.split)
  next
    case False
    with p_sent show ?thesis
      by (intro implements_get [OF p_sent.prems(4), of w "send_q s"])
        (auto simp: pacer_write_def in_flight_def cells_inv_def)
  qed
next
  case (p_flush s res)
  then have f: "in_flight s = []" by (simp add: close_inv_def in_flight_def)
  show ?case
  proof (cases "send_q s")
    case Nil
    then show ?thesis
      by (intro implements_stutter [OF p_flush.prems(4)]) (simp_all add: flush_queue_step_def in_flight_def)
  next
    case (Cons w q)
    show ?thesis
    proof (cases "pfailed s \<or> res \<noteq> WriteOk")
      case True
      with Cons show ?thesis
        by (intro implements_fail) (auto simp: flush_queue_step_def split: base_write.split)
    next
      case False
      with Cons f p_flush.prems(2) show ?thesis
        by (intro implements_get [OF p_flush.prems(4), of w q])
          (auto simp: flush_queue_step_def in_flight_def cells_inv_def)
    qed
  qed
qed (auto intro!: implements_stutter simp: step_defs split: list.split option.split pacer.split)

lemma paced_implements:
  assumes "(paced_step c cfg ids live)\<^sup>*\<^sup>* (paced_init cfg r now) s" and "shaped_wf c"
    and "paced_valid cfg" and "0 < pc_rate cfg"
  shows "\<exists>a. (pipe_step (nat (pc_queue cfg) + 1))\<^sup>*\<^sup>* pipe_init a \<and> implements c s a"
  using assms(1)
proof (induction rule: rtranclp_induct)
  case base
  have "implements c (paced_init cfg r now) pipe_init"
    by (auto simp: implements_def paced_init_def pipe_init_def in_flight_def intro!: exI [of _ "[]"])
  then show ?case by blast
next
  case (step s t)
  then obtain a where a: "(pipe_step (nat (pc_queue cfg) + 1))\<^sup>*\<^sup>* pipe_init a" "implements c s a" by blast
  have "cells_inv c s" "close_inv s" using paced_reach [OF step.hyps(1) assms(2-4)] by simp_all
  from paced_simulates [OF step.hyps(2) assms(2) this a(2)] a(1) show ?case
    by (meson rtranclp.rtrancl_into_rtrancl)
qed

section \<open>Property\<close>



end
