(* ===== verification/Paced_Live.thy ===== *)
theory Paced_Live
  imports Paced_Safety
begin

text \<open>
  Back-pressure in paced mode is not a deadlock: a \<open>Write\<close> that waits for room in the queue always
  has somebody to wait for. Either the pacer still runs and will make room, or the channel that tells
  of its end, or of \<open>Close\<close>, is closed and the select takes that way out.
\<close>

section \<open>A stopped pacer has said so\<close>

definition stopped_inv :: "'r pstate \<Rightarrow> bool" where
  "stopped_inv s \<longleftrightarrow> (pacer s = PStopped \<longrightarrow> pace_dead s \<or> pdone s)"

lemma stopped_inv_step: "paced_step c cfg ids live s s' \<Longrightarrow> stopped_inv s \<Longrightarrow> stopped_inv s'"
  by (induction rule: paced_step.induct)
    (auto simp: stopped_inv_def step_defs elim!: write_paced_Inr
      split: option.splits list.splits pacer.splits base_write.splits prod.splits)

lemma stopped_reach:
  assumes "(paced_step c cfg ids live)\<^sup>*\<^sup>* (paced_init cfg r now) s"
  shows "stopped_inv s"
  by (rule reach_invariant [where P = stopped_inv, OF assms])
    (simp add: stopped_inv_def paced_init_def, rule stopped_inv_step)

section \<open>The pacer makes room\<close>

text \<open>What the steps of pacer and clock leave alone.\<close>

definition same_writers :: "'r pstate \<Rightarrow> 'r pstate \<Rightarrow> bool" where
  "same_writers s t \<longleftrightarrow> writers t = writers s \<and> paccepted t = paccepted s \<and> pdone t = pdone s \<and>
     pace_dead t = pace_dead s \<and> paborted t = paborted s"

lemma same_writers_trans: "same_writers s t \<Longrightarrow> same_writers t u \<Longrightarrow> same_writers s u"
  by (simp add: same_writers_def)

text \<open>On a live base the pacer gets back to its timer, the queue untouched.\<close>

lemma pacer_waits:
  assumes "pacer s \<noteq> PStopped"
  shows "\<exists>t. (paced_step c cfg ids True)\<^sup>*\<^sup>* s t \<and> pacer t = PWaiting \<and> send_q t = send_q s \<and> same_writers s t"
proof (cases "pacer s")
  case PWaiting
  then show ?thesis by (intro exI [of _ s]) (simp add: same_writers_def)
next
  case (PWriting w)
  then have "paced_step c cfg ids True s (pacer_write cfg WriteOk s)" by (rule p_sent) simp
  with PWriting show ?thesis
    by (intro exI [of _ "pacer_write cfg WriteOk s"]) (simp add: pacer_write_def same_writers_def r_into_rtranclp)
qed (use assms in simp)

lemma pacer_takes:
  assumes "pacer s = PWaiting" "send_q s = w # q"
  shows "\<exists>t. (paced_step c cfg ids True)\<^sup>*\<^sup>* s t \<and> pacer t = PWriting w \<and> send_q t = q \<and> same_writers s t"
proof -
  let ?s = "s\<lparr>pclock := max (pclock s) (timer_at s)\<rparr>"
  have "paced_step c cfg ids True s ?s" by (rule p_time) simp
  moreover have "paced_step c cfg ids True ?s (pacer_take c cfg ?s)"
    using assms(1) by (intro p_take) simp_all
  ultimately have "(paced_step c cfg ids True)\<^sup>*\<^sup>* s (pacer_take c cfg ?s)"
    by (meson converse_rtranclp_into_rtranclp rtranclp.rtrancl_refl)
  moreover have "pacer (pacer_take c cfg ?s) = PWriting w" "send_q (pacer_take c cfg ?s) = q"
    "same_writers s (pacer_take c cfg ?s)"
    using assms(2) by (simp_all add: pacer_take_def same_writers_def)
  ultimately show ?thesis by blast
qed

lemma make_room:
  assumes "pacer s \<noteq> PStopped" "queue_inv cfg s" "0 < pc_queue cfg"
  shows "\<exists>t. (paced_step c cfg ids True)\<^sup>*\<^sup>* s t \<and> pacer t \<noteq> PStopped \<and>
    int (length (send_q t)) < pc_queue cfg \<and> same_writers s t"
proof (cases "send_q s")
  case Nil
  with assms show ?thesis by (intro exI [of _ s]) (simp add: same_writers_def)
next
  case (Cons w q)
  obtain t where t: "(paced_step c cfg ids True)\<^sup>*\<^sup>* s t" "pacer t = PWaiting" "send_q t = w # q" "same_writers s t"
    using pacer_waits [OF assms(1)] Cons by metis
  obtain u where u: "(paced_step c cfg ids True)\<^sup>*\<^sup>* t u" "pacer u = PWriting w" "send_q u = q" "same_writers t u"
    using pacer_takes [OF t(2,3)] by metis
  have "int (length q) < pc_queue cfg" using assms(2) Cons by (simp add: queue_inv_def)
  with t u show ?thesis
    by (intro exI [of _ u]) (auto intro: same_writers_trans rtranclp_trans)
qed

section \<open>Every Write can return\<close>

lemma write_drains:
  assumes "pacer s \<noteq> PStopped" "queue_inv cfg s" "0 < pc_queue cfg" "writers s i = Some (p, ws)"
  shows "\<exists>t. (paced_step c cfg ids True)\<^sup>*\<^sup>* s t \<and> writers t i = None \<and> paccepted t = paccepted s @ p \<and>
    paborted t = paborted s"
  using assms(1,2,4)
proof (induction ws arbitrary: s)
  case Nil
  then have "paced_step c cfg ids True s (snd (finish_write i s))" by (intro p_finish)
  with Nil show ?case
    by (intro exI [of _ "snd (finish_write i s)"]) (simp add: finish_write_def r_into_rtranclp)
next
  case (Cons w ws)
  obtain t where t: "(paced_step c cfg ids True)\<^sup>*\<^sup>* s t" "pacer t \<noteq> PStopped"
    "int (length (send_q t)) < pc_queue cfg" "same_writers s t"
    using make_room [OF Cons.prems(1,2) assms(3)] by metis
  then have w: "writers t i = Some (p, w # ws)" using Cons.prems(3) by (simp add: same_writers_def)
  let ?u = "enqueue_cell c i t"
  have u: "paced_step c cfg ids True t ?u" by (rule p_enqueue [OF w t(3)])
  have "pacer ?u \<noteq> PStopped" "queue_inv cfg ?u" "writers ?u i = Some (p, ws)" "paccepted ?u = paccepted s"
    "paborted ?u = paborted s"
    using w t(2-4) by (simp_all add: enqueue_cell_def queue_inv_def same_writers_def)
  then obtain v where "(paced_step c cfg ids True)\<^sup>*\<^sup>* ?u v" "writers v i = None" "paccepted v = paccepted s @ p"
    "paborted v = paborted s"
    using Cons.IH [of ?u] by metis
  with t(1) u show ?case by (meson rtranclp.rtrancl_into_rtrancl rtranclp_trans)
qed

section \<open>Property\<close>

text \<open>
  C31. No \<open>Write\<close> is stuck for good. In every reachable state of a paced connection, for every \<open>Write\<close>
  that is running: if the pacer still runs and the base completes its writes, there is a
  continuation in which this \<open>Write\<close> returns without an error and its whole message accepted,
  however full the queue is and whatever the other writers do; and if the pacer has stopped, the
  select of the \<open>Write\<close> has a case to take at once, the death of the pacer or the closed channel.
\<close>

theorem paced_write_returns:
  assumes "new_shaped_conn rf p = Some (c, ls)" and "pace c = Some cfg" and "shaped_wf c"
    and "(paced_step c cfg ids True)\<^sup>*\<^sup>* (paced_init cfg r now) s" and "writers s i = Some (m, w # ws)"
  shows "if pacer s = PStopped
    then \<exists>t. paced_step c cfg ids True s t \<and> writers t i = None \<and> paborted t
    else \<exists>t. (paced_step c cfg ids True)\<^sup>*\<^sup>* s t \<and> writers t i = None \<and> paccepted t = paccepted s @ m \<and>
      paborted t = paborted s"
proof -
  have v: "paced_valid cfg" "0 < pc_rate cfg" using new_shaped_paced [OF assms(1,2)] by simp_all
  have q: "queue_inv cfg s" "0 < pc_queue cfg"
    using paced_reach [OF assms(4,3) v] v(1) by (simp_all add: paced_valid_def)
  show ?thesis
  proof (cases "pacer s = PStopped")
    case True
    then have "pace_dead s \<or> pdone s" using stopped_reach [OF assms(4)] by (simp add: stopped_inv_def)
    then have "\<exists>t. paced_step c cfg ids True s t \<and> writers t i = None \<and> paborted t"
    proof
      assume "pace_dead s"
      from p_dead [OF assms(5) this, of c cfg ids True] show ?thesis
        by (intro exI [of _ "snd (abort_dead i s)"]) (simp add: abort_dead_def)
    next
      assume "pdone s"
      from p_closed [OF assms(5) this, of c cfg ids True] show ?thesis
        by (intro exI [of _ "snd (abort_done i s)"]) (simp add: abort_done_def)
    qed
    with True show ?thesis by simp
  next
    case False
    with write_drains [OF False q assms(5)] show ?thesis by simp
  qed
qed

theorem paced_write_returns_witness:
  "\<exists>s t. writers s 0 = Some ([1, 2, 3], [[0, 2, 1, 2], [0, 1, 3, 0]]) \<and>
     (paced_step paced4 example_pace {0} True)\<^sup>*\<^sup>* s t \<and> writers t 0 = None \<and> paccepted t = [1, 2, 3]"
proof -
  let ?s = "init4\<lparr>writers := [0 \<mapsto> ([1, 2, 3], [[0, 2, 1, 2], [0, 1, 3, 0]])]\<rparr>"
  have "paced_step paced4 example_pace {0} True init4 ?s"
    by (rule p_write [of 0 _ _ _ "[1, 2, 3]"]) (simp_all add: write_paced_def paced4_cells paced_init_def)
  then have r: "(paced_step paced4 example_pace {0} True)\<^sup>*\<^sup>* init4 ?s" by (rule r_into_rtranclp)
  have w: "writers ?s 0 = Some ([1, 2, 3], [0, 2, 1, 2] # [[0, 1, 3, 0]])" by simp
  have "pacer ?s \<noteq> PStopped" "paccepted ?s = []" by simp_all
  with paced_write_returns [OF paced4_new paced4_simps(1,4) r w] obtain t where
    "(paced_step paced4 example_pace {0} True)\<^sup>*\<^sup>* ?s t" "writers t 0 = None" "paccepted t = [1, 2, 3]" by auto
  with w show ?thesis by (intro exI [of _ ?s] exI [of _ t]) simp
qed

end
