(* ===== verification/Watching.thy ===== *)
theory Watching
  imports Go_Prelude
begin

text \<open>
  What an observer of a connection sees, and when two systems look alike to him. A run is watched
  through the observations of its steps; \<open>unwinding\<close> is the contract under which two systems have
  the same observable behaviour, from every pair of states that look alike.
\<close>

section \<open>Observed runs\<close>

inductive watched :: "('s \<Rightarrow> 's \<Rightarrow> bool) \<Rightarrow> ('s \<Rightarrow> 's \<Rightarrow> 'o list) \<Rightarrow> 's \<Rightarrow> 'o list \<Rightarrow> 's \<Rightarrow> bool"
  for step sees s where
  w_start: "watched step sees s [] s"
| w_next: "watched step sees s tr t \<Longrightarrow> step t u \<Longrightarrow> watched step sees s (tr @ sees t u) u"

lemma watched_reach: "watched step sees s tr t \<Longrightarrow> step\<^sup>*\<^sup>* s t"
  by (induction rule: watched.induct) auto

lemma reach_watched: "step\<^sup>*\<^sup>* s t \<Longrightarrow> \<exists>tr. watched step sees s tr t"
  by (induction rule: rtranclp_induct) (auto intro: watched.intros)

lemma watched_mono:
  assumes "watched step sees s tr t" "\<And>x y. step x y \<Longrightarrow> step' x y"
  shows "watched step' sees s tr t"
  using assms by (induction rule: watched.induct) (auto intro: watched.intros)

lemma watched_silent:
  assumes "step\<^sup>*\<^sup>* s t" "\<And>x y. step\<^sup>*\<^sup>* s x \<Longrightarrow> step x y \<Longrightarrow> step\<^sup>*\<^sup>* y t \<Longrightarrow> sees x y = []"
  shows "watched step sees s [] t"
  using assms
proof (induction rule: rtranclp_induct)
  case (step y z)
  have "watched step sees s [] y"
    by (rule step.IH) (meson step.hyps step.prems rtranclp.rtrancl_into_rtrancl)
  from w_next [of step sees, OF this step.hyps(2)] step.prems [of y z] step.hyps show ?case by simp
qed (rule w_start)

section \<open>The contract\<close>

text \<open>
  \<open>busy\<close> may make silent steps of its own; every other step of one system is answered by a step of
  the other that shows the same.
\<close>

locale unwinding =
  fixes ok :: "'c \<Rightarrow> bool" and busy :: "'c \<Rightarrow> 's \<Rightarrow> 's \<Rightarrow> bool" and idle :: "'c \<Rightarrow> 's \<Rightarrow> 's \<Rightarrow> bool"
    and sees :: "'s \<Rightarrow> 's \<Rightarrow> 'o list" and alike :: "'c \<Rightarrow> 's \<Rightarrow> 's \<Rightarrow> bool"
  assumes forth: "ok c \<Longrightarrow> alike c s t \<Longrightarrow> busy c s s' \<Longrightarrow>
      alike c s' t \<and> sees s s' = [] \<or> (\<exists>t'. idle c t t' \<and> sees t t' = sees s s' \<and> alike c s' t')"
    and answers: "ok c \<Longrightarrow> alike c s t \<Longrightarrow> idle c t t' \<Longrightarrow>
      \<exists>s'. busy c s s' \<and> sees s s' = sees t t' \<and> alike c s' t'"
begin

lemma follows:
  assumes "ok c" "alike c s t" "watched (busy c) sees s tr s'"
  shows "\<exists>t'. watched (idle c) sees t tr t' \<and> alike c s' t'"
  using assms(3)
proof (induction rule: watched.induct)
  case w_start
  show ?case using assms(2) by (blast intro: watched.w_start)
next
  case (w_next tr x y)
  then obtain t' where t: "watched (idle c) sees t tr t'" "alike c x t'" by blast
  from forth [OF assms(1) t(2) w_next.hyps(2)] show ?case
  proof
    assume "alike c y t' \<and> sees x y = []"
    with t(1) show ?thesis by (intro exI [of _ t']) simp
  next
    assume "\<exists>t''. idle c t' t'' \<and> sees t' t'' = sees x y \<and> alike c y t''"
    then obtain t'' where "idle c t' t''" "sees t' t'' = sees x y" "alike c y t''" by blast
    with watched.w_next [of "idle c" sees, OF t(1), of t''] show ?thesis by (intro exI [of _ t'']) simp
  qed
qed

lemma leads:
  assumes "ok c" "alike c s t" "watched (idle c) sees t tr t'"
  shows "\<exists>s'. watched (busy c) sees s tr s' \<and> alike c s' t'"
  using assms(3)
proof (induction rule: watched.induct)
  case w_start
  show ?case using assms(2) by (blast intro: watched.w_start)
next
  case (w_next tr x y)
  then obtain s' where s: "watched (busy c) sees s tr s'" "alike c s' x" by blast
  from answers [OF assms(1) s(2) w_next.hyps(2)] obtain s'' where
    "busy c s' s''" "sees s' s'' = sees x y" "alike c s'' y" by blast
  with watched.w_next [of "busy c" sees, OF s(1), of s''] show ?case by (intro exI [of _ s'']) simp
qed

text \<open>Neither what has been seen nor what may still be seen tells the two apart.\<close>

lemma same_futures:
  assumes "ok c" "alike c s t"
  shows "(\<exists>s'. watched (busy c) sees s tr s') \<longleftrightarrow> (\<exists>t'. watched (idle c) sees t tr t')"
  using follows [OF assms] leads [OF assms] by blast

lemma hides:
  assumes "ok c" "alike c s t" "watched (busy c) sees s tr s'"
  shows "\<exists>t'. watched (idle c) sees t tr t' \<and>
    (\<forall>tr'. (\<exists>u. watched (busy c) sees s' tr' u) \<longleftrightarrow> (\<exists>u. watched (idle c) sees t' tr' u))"
  using follows [OF assms] same_futures [OF assms(1)] by blast

end

end
