(* ===== verification/Paced_Hiding.thy ===== *)
theory Paced_Hiding
  imports Paced_Safety Watching
begin

text \<open>
  What paced mode hides. The comment on \<open>pacingLoop\<close> promises a schedule on the wire that is
  independent of how the application bursts: it is, byte counts and times, for a constant rate and
  cells of one size, until \<open>Close\<close>; and it is not when the rate decays, since a \<open>Write\<close> on a drained
  queue starts the surge again.
\<close>

section \<open>The observer\<close>

text \<open>He sees when the base is written to and how many bytes go out.\<close>

definition pace_sees :: "'r pstate \<Rightarrow> 'r pstate \<Rightarrow> (instant \<times> nat) list" where
  "pace_sees s s' = (if length (pwire s) < length (pwire s') then [(pclock s', length (pwire s') - length (pwire s))] else [])"

text \<open>The steps of a connection that is not being closed.\<close>

definition open_step :: "'r shaper \<Rightarrow> paced_config \<Rightarrow> nat set \<Rightarrow> bool \<Rightarrow> 'r pstate \<Rightarrow> 'r pstate \<Rightarrow> bool" where
  "open_step c cfg ids live s s' \<longleftrightarrow> paced_step c cfg ids live s s' \<and> \<not> pdone s'"

lemma open_step_reach: "(open_step c cfg ids live)\<^sup>*\<^sup>* s t \<Longrightarrow> (paced_step c cfg ids live)\<^sup>*\<^sup>* s t"
  by (erule rtranclp_mono [THEN predicate2D, rotated]) (auto simp: open_step_def)

section \<open>Constant rate\<close>

lemma constant_interval:
  assumes "pc_decay cfg = 1"
  shows "current_interval cfg now surge = current_interval cfg now surge'"
  using assms by (simp add: current_interval_def pace_rate_def)

lemma is_cell_length: "size_sampler c = None \<Longrightarrow> is_cell c w \<Longrightarrow> length w = cell_size c"
  by (simp add: is_cell_def shaped_frame_def fixed_frame_def)

text \<open>The pacer stands at the same point, with a cell of the same length.\<close>

fun pacers_alike :: "pacer \<Rightarrow> pacer \<Rightarrow> bool" where
  "pacers_alike (PWriting w) (PWriting v) \<longleftrightarrow> length w = length v"
| "pacers_alike PWaiting PWaiting \<longleftrightarrow> True"
| "pacers_alike PStopped PStopped \<longleftrightarrow> True"
| "pacers_alike _ _ \<longleftrightarrow> False"

text \<open>A connection with traffic beside one that nobody writes to.\<close>

definition paced_alike :: "'r shaper \<Rightarrow> 'r pstate \<Rightarrow> 'r pstate \<Rightarrow> bool" where
  "paced_alike c s t \<longleftrightarrow> pclock s = pclock t \<and> timer_at s = timer_at t \<and> pacers_alike (pacer s) (pacer t) \<and>
     closer s = COpen \<and> closer t = COpen \<and> \<not> pdone s \<and> \<not> pdone t \<and>
     send_q t = [] \<and> writers t = Map.empty \<and> cells_inv c s \<and> cells_inv c t"

definition steady :: "'r shaper \<times> paced_config \<times> nat set \<times> bool \<Rightarrow> bool" where
  "steady = (\<lambda>(c, cfg, ids, live). shaped_wf c \<and> size_sampler c = None \<and> pc_decay cfg = 1 \<and> \<not> pc_no_pad cfg)"

lemma pacers_alike_cases:
  assumes "pacers_alike x y"
  obtains (waiting) "x = PWaiting" "y = PWaiting" | (stopped) "x = PStopped" "y = PStopped"
  | (writing) w v where "x = PWriting w" "y = PWriting v" "length w = length v"
  using assms by (cases x; cases y) auto

lemmas alike_defs = paced_alike_def pace_sees_def cells_inv_def in_flight_def

lemma take_alike:
  assumes "shaped_wf c" "size_sampler c = None" "\<not> pc_no_pad cfg" "paced_alike c s t" "pacer s = PWaiting"
  shows "paced_alike c (pacer_take c cfg s) (pacer_take c cfg t)"
proof -
  obtain w r1 v r2 where k: "cover_cell c (prnd s) = (w, r1)" "cover_cell c (prnd t) = (v, r2)" by force
  then have w: "is_cell c w" "is_cell c v" using cover_cell_cell [OF assms(1)] by blast+
  have q: "send_q t = []" "pacer t = PWaiting" "\<forall>w \<in> set (send_q s). is_cell c w"
    using assms(4,5) by (cases "pacer t"; auto simp: alike_defs)+
  show ?thesis
  proof (cases "send_q s")
    case Nil
    with assms k w q show ?thesis
      by (auto simp: pacer_take_def alike_defs is_cell_length [OF assms(2)])
  next
    case (Cons u us)
    with assms k w q show ?thesis
      by (auto simp: pacer_take_def alike_defs is_cell_length [OF assms(2)])
  qed
qed

lemma sent_alike:
  assumes "pc_decay cfg = 1" "paced_alike c s t" "pacer s = PWriting w"
  shows "paced_alike c (pacer_write cfg res s) (pacer_write cfg res t) \<and>
    pace_sees t (pacer_write cfg res t) = pace_sees s (pacer_write cfg res s)"
proof -
  from assms(2,3) obtain v where "pacer t = PWriting v" "length w = length v"
    by (auto simp: paced_alike_def elim: pacers_alike_cases)
  with assms constant_interval [OF assms(1), of _ "pace_start s" "pace_start t"] show ?thesis
    by (cases res) (auto simp: pacer_write_def alike_defs)
qed

lemma open_cells_inv: "open_step c cfg ids live s s' \<Longrightarrow> shaped_wf c \<Longrightarrow> cells_inv c s \<Longrightarrow> cells_inv c s'"
  by (auto simp: open_step_def intro: cells_inv_step)

text \<open>What only writers do is silent, and changes nothing the pacer's schedule depends on.\<close>

lemma silent_alike:
  assumes "paced_alike c s t" "cells_inv c s'" "pclock s' = pclock s" "timer_at s' = timer_at s" "pacer s' = pacer s"
    and "closer s' = closer s" "pdone s' = pdone s" "pwire s' = pwire s"
  shows "paced_alike c s' t \<and> pace_sees s s' = []"
  using assms by (simp add: paced_alike_def pace_sees_def)

lemma busy_followed:
  assumes "steady (c, cfg, ids, live)" "paced_alike c s t" "open_step c cfg ids live s s'"
  shows "paced_alike c s' t \<and> pace_sees s s' = [] \<or>
    (\<exists>t'. open_step c cfg {} live t t' \<and> pace_sees t t' = pace_sees s s' \<and> paced_alike c s' t')"
proof -
  have ok: "shaped_wf c" "size_sampler c = None" "pc_decay cfg = 1" "\<not> pc_no_pad cfg"
    using assms(1) by (simp_all add: steady_def)
  have a: "closer s = COpen" "\<not> pdone s" "\<not> pdone t" "pclock s = pclock t" "timer_at s = timer_at t"
    "pacers_alike (pacer s) (pacer t)" "cells_inv c s"
    using assms(2) by (simp_all add: paced_alike_def)
  have inv: "cells_inv c s'" by (rule open_cells_inv [OF assms(3) ok(1) a(7)])
  from assms(3) have step: "paced_step c cfg ids live s s'" "\<not> pdone s'" by (simp_all add: open_step_def)
  from step(1) show ?thesis
  proof cases
    case (p_time u)
    with assms(2) a have "open_step c cfg {} live t (t\<lparr>pclock := u\<rparr>)" "pace_sees t (t\<lparr>pclock := u\<rparr>) = pace_sees s s'"
      "paced_alike c s' (t\<lparr>pclock := u\<rparr>)"
      by (auto simp: open_step_def alike_defs intro: paced_step.p_time)
    then show ?thesis by blast
  next
    case p_take
    then have t: "pacer t = PWaiting" using a(6) by (auto elim: pacers_alike_cases)
    have "paced_step c cfg {} live t (pacer_take c cfg t)"
      by (rule paced_step.p_take [OF t]) (use p_take a in simp)
    moreover have "pdone (pacer_take c cfg t) = pdone t" "pace_sees s (pacer_take c cfg s) = []"
      "pace_sees t (pacer_take c cfg t) = []"
      by (simp_all add: pacer_take_def pace_sees_def split: list.split prod.split)
    ultimately show ?thesis using take_alike [OF ok(1,2,4) assms(2) p_take(2)] a(3) p_take(1)
      by (intro disjI2 exI [of _ "pacer_take c cfg t"]) (simp add: open_step_def)
  next
    case (p_sent w res)
    then obtain v where t: "pacer t = PWriting v" using a(6) by (auto elim: pacers_alike_cases)
    have "paced_step c cfg {} live t (pacer_write cfg res t)" by (rule paced_step.p_sent [OF t p_sent(3)])
    moreover have "pdone (pacer_write cfg res t) = pdone t"
      by (simp add: pacer_write_def split: pacer.split base_write.split)
    ultimately show ?thesis using sent_alike [OF ok(3) assms(2) p_sent(2), of res] a(3) p_sent(1)
      by (intro disjI2 exI [of _ "pacer_write cfg res t"]) (simp add: open_step_def)
  next
    case p_close
    then show ?thesis using step(2) by (simp add: close_start_def)
  qed (rule disjI1, rule silent_alike [OF assms(2) inv]; use a in \<open>auto simp: enqueue_cell_def abort_dead_def
      abort_done_def finish_write_def elim!: write_paced_Inr split: option.split list.split\<close>)+
qed

lemma idle_answered:
  assumes "steady (c, cfg, ids, live)" "paced_alike c s t" "open_step c cfg {} live t t'"
  shows "\<exists>s'. open_step c cfg ids live s s' \<and> pace_sees s s' = pace_sees t t' \<and> paced_alike c s' t'"
proof -
  have ok: "shaped_wf c" "size_sampler c = None" "pc_decay cfg = 1" "\<not> pc_no_pad cfg"
    using assms(1) by (simp_all add: steady_def)
  have a: "closer t = COpen" "\<not> pdone s" "\<not> pdone t" "pclock s = pclock t" "timer_at s = timer_at t"
    "pacers_alike (pacer s) (pacer t)" "writers t = Map.empty"
    using assms(2) by (simp_all add: paced_alike_def)
  from assms(3) have step: "paced_step c cfg {} live t t'" "\<not> pdone t'" by (simp_all add: open_step_def)
  from step(1) show ?thesis
  proof cases
    case (p_time u)
    with assms(2) a have "open_step c cfg ids live s (s\<lparr>pclock := u\<rparr>)" "pace_sees s (s\<lparr>pclock := u\<rparr>) = pace_sees t t'"
      "paced_alike c (s\<lparr>pclock := u\<rparr>) t'"
      by (auto simp: open_step_def alike_defs intro: paced_step.p_time)
    then show ?thesis by blast
  next
    case p_take
    then have s: "pacer s = PWaiting" using a(6) by (auto elim: pacers_alike_cases)
    have "paced_step c cfg ids live s (pacer_take c cfg s)"
      by (rule paced_step.p_take [OF s]) (use p_take a in simp)
    moreover have "pdone (pacer_take c cfg s) = pdone s" "pace_sees s (pacer_take c cfg s) = []"
      "pace_sees t (pacer_take c cfg t) = []"
      by (simp_all add: pacer_take_def pace_sees_def split: list.split prod.split)
    ultimately show ?thesis using take_alike [OF ok(1,2,4) assms(2) s] a(2) p_take(1)
      by (intro exI [of _ "pacer_take c cfg s"]) (simp add: open_step_def)
  next
    case (p_sent w res)
    then obtain v where s: "pacer s = PWriting v" using a(6) by (auto elim: pacers_alike_cases)
    have "paced_step c cfg ids live s (pacer_write cfg res s)" by (rule paced_step.p_sent [OF s p_sent(3)])
    moreover have "pdone (pacer_write cfg res s) = pdone s"
      by (simp add: pacer_write_def split: pacer.split base_write.split)
    ultimately show ?thesis using sent_alike [OF ok(3) assms(2) s, of res] a(2) p_sent(1)
      by (intro exI [of _ "pacer_write cfg res s"]) (simp add: open_step_def)
  qed (use a step(2) in \<open>auto simp: close_start_def\<close>)
qed

interpretation pacing: unwinding steady "\<lambda>(c, cfg, ids, live). open_step c cfg ids live"
  "\<lambda>(c, cfg, ids, live). open_step c cfg {} live" pace_sees "\<lambda>(c, cfg, ids, live). paced_alike c"
proof (unfold_locales, goal_cases)
  case (1 k s t s')
  obtain c cfg ids live where "k = (c, cfg, ids, live)" by (rule prod_cases4)
  with 1 busy_followed [of c cfg ids live s t s'] show ?case by simp
next
  case (2 k s t t')
  obtain c cfg ids live where "k = (c, cfg, ids, live)" by (rule prod_cases4)
  with 2 idle_answered [of c cfg ids live s t t'] show ?case by simp
qed

lemma init_alike: "paced_alike c (paced_init cfg r now) (paced_init cfg r' now)"
  by (simp add: paced_alike_def paced_init_def cells_inv_def in_flight_def)

section \<open>Runs with a Write\<close>

lemma pwire_grows: "paced_step c cfg ids live s s' \<Longrightarrow> length (pwire s) \<le> length (pwire s')"
  by (induction rule: paced_step.induct) (auto simp: step_defs elim!: write_paced_Inr
      split: option.split list.split pacer.split base_write.split prod.split)

lemma pdone_stays: "paced_step c cfg ids live s s' \<Longrightarrow> pdone s \<Longrightarrow> pdone s'"
  by (induction rule: paced_step.induct) (auto simp: step_defs elim!: write_paced_Inr
      split: option.split list.split pacer.split base_write.split prod.split)

lemma pdone_reach: "(paced_step c cfg ids live)\<^sup>*\<^sup>* s t \<Longrightarrow> pdone s \<Longrightarrow> pdone t"
  by (induction rule: rtranclp_induct) (auto dest: pdone_stays)

lemma pwire_reach: "(paced_step c cfg ids live)\<^sup>*\<^sup>* s t \<Longrightarrow> length (pwire s) \<le> length (pwire t)"
  by (induction rule: rtranclp_induct) (auto dest: pwire_grows)

lemma open_run:
  assumes "(paced_step c cfg ids live)\<^sup>*\<^sup>* s t" "\<not> pdone t"
  shows "(open_step c cfg ids live)\<^sup>*\<^sup>* s t"
  using assms
proof (induction rule: rtranclp_induct)
  case (step y z)
  then have "\<not> pdone y" using pdone_stays by blast
  with step show ?case by (simp add: open_step_def rtranclp.rtrancl_into_rtrancl)
qed simp

lemma quiet_run:
  assumes "(paced_step c cfg ids live)\<^sup>*\<^sup>* s t" "\<not> pdone t" "pwire t = pwire s"
  shows "watched (open_step c cfg ids live) pace_sees s [] t"
proof (rule watched_silent [OF open_run [OF assms(1,2)]])
  fix x y assume r: "(open_step c cfg ids live)\<^sup>*\<^sup>* s x" "open_step c cfg ids live x y" "(open_step c cfg ids live)\<^sup>*\<^sup>* y t"
  have "length (pwire s) \<le> length (pwire x)" "length (pwire y) \<le> length (pwire t)"
    using pwire_reach open_step_reach r(1,3) by blast+
  with assms(3) show "pace_sees x y = []" by (simp add: pace_sees_def)
qed

lemma watched_trans:
  assumes "watched step sees s tr t" "watched step sees t tr' u"
  shows "watched step sees s (tr @ tr') u"
  using assms(2,1)
proof (induction rule: watched.induct)
  case (w_next tr' u v)
  from watched.w_next [of step sees, OF w_next.IH [OF w_next.prems] w_next.hyps(2)] show ?case by simp
qed simp

text \<open>A turn of the pacer at a time of our choice, from any state in which it waits.\<close>

lemma fires:
  assumes "shaped_wf c" "size_sampler c = None" "\<not> pc_no_pad cfg" "cells_inv c s"
    and "pacer s = PWaiting" "\<not> pdone s" "pclock s \<le> t" "timer_at s \<le> t"
  shows "\<exists>u. watched (open_step c cfg ids True) pace_sees s [(t, cell_size c)] u \<and> cells_inv c u \<and> \<not> pdone u \<and>
    pacer u = PWaiting \<and> pclock u = t \<and> timer_at u = time_add t (current_interval cfg t (pace_start s))"
proof -
  let ?s = "s\<lparr>pclock := t\<rparr>" let ?t = "pacer_take c cfg ?s" let ?u = "pacer_write cfg WriteOk ?t"
  obtain w r1 where k: "cover_cell c (prnd s) = (w, r1)" by force
  obtain v where v: "pacer ?t = PWriting v" "is_cell c v"
    using assms(3,4) k cover_cell_cell [OF assms(1) k]
    by (cases "send_q s") (simp_all add: pacer_take_def cells_inv_def in_flight_def)
  have f: "pwire ?t = pwire s" "pdone ?t = pdone s" "pclock ?t = t" "pace_start ?t = pace_start s"
    by (simp_all add: pacer_take_def split: list.split prod.split)
  have 1: "paced_step c cfg ids True s ?s" by (rule p_time [OF assms(7)])
  have 2: "paced_step c cfg ids True ?s ?t" by (rule p_take) (simp_all add: assms(5,8))
  have 3: "paced_step c cfg ids True ?t ?u" by (rule p_sent [OF v(1)]) simp
  have u: "pwire ?u = pwire s @ v" "pdone ?u = pdone s" "pacer ?u = PWaiting" "pclock ?u = t"
    "timer_at ?u = time_add t (current_interval cfg t (pace_start s))"
    using v(1) f by (simp_all add: pacer_write_def)
  have n: "length v = cell_size c" "0 < cell_size c"
    using is_cell_length [OF assms(2) v(2)] assms(1,2) by (simp_all add: shaped_wf_def fixed_wf_def fixed_ok_def)
  have "watched (open_step c cfg ids True) pace_sees s [] ?t"
    by (rule quiet_run) (use 1 2 f assms(6) in \<open>meson converse_rtranclp_into_rtranclp rtranclp.rtrancl_refl\<close>, simp_all add: f assms(6))
  moreover have "open_step c cfg ids True ?t ?u" using 3 u(2) assms(6) by (simp add: open_step_def)
  moreover have "pace_sees ?t ?u = [(t, cell_size c)]" using n by (simp add: pace_sees_def u(1,4) f(1))
  ultimately have "watched (open_step c cfg ids True) pace_sees s [(t, cell_size c)] ?u"
    by (metis append_Nil w_next)
  moreover have "cells_inv c ?u"
    by (intro cells_inv_step [OF 3 assms(1)] cells_inv_step [OF 2 assms(1)] cells_inv_step [OF 1 assms(1) assms(4)])
  ultimately show ?thesis using u assms(6) by blast
qed

section \<open>Property\<close>

text \<open>
  C6. Constant-rate pacing hides the traffic. For cells of one size, a rate that does not decay and
  padding on, an observer who sees the time and the size of every write to the base, up to \<open>Close\<close>,
  cannot tell a connection with any number of writers from one on which nobody ever writes: whatever
  he has seen of the one the other could have shown him, and from there on both can show him exactly
  the same. Nothing the application did, not even a queue that is full, shows in his future view.
\<close>

theorem paced_hides_traffic:
  assumes "new_shaped_conn rf p = Some (c, ls)" and "filler (fill c)" and "p_cell_size p \<le> 65537"
    and "size_sampler c = None" and "pace c = Some cfg" and "pc_decay cfg = 1" and "\<not> pc_no_pad cfg"
    and "watched (open_step c cfg ids live) pace_sees (paced_init cfg r now) seen s"
  shows "\<exists>t. watched (open_step c cfg {} live) pace_sees (paced_init cfg r now) seen t \<and>
    (\<forall>next. (\<exists>s'. watched (open_step c cfg ids live) pace_sees s next s') \<longleftrightarrow>
            (\<exists>t'. watched (open_step c cfg {} live) pace_sees t next t'))"
proof -
  have "steady (c, cfg, ids, live)"
    using new_shaped_wf [OF assms(1-3)] assms(4,6,7) by (simp add: steady_def)
  from pacing.hides [of _ "paced_init cfg r now" "paced_init cfg r now", OF this] assms(8)
  show ?thesis by (simp add: init_alike)
qed

text \<open>A message is written, and the two cells that carry it are seen as two cover cells would be.\<close>

definition flat_pace :: paced_config where
  "flat_pace = example_pace\<lparr>pc_decay := 1\<rparr>"

definition flat4 :: "unit shaper" where
  "flat4 = fixed4\<lparr>pace := Some flat_pace\<rparr>"

lemma flat_valid: "paced_valid flat_pace" "0 < pc_rate flat_pace"
  by (simp_all add: flat_pace_def example_pace_def paced_valid_def)

lemma flat4_new:
  "new_shaped_conn zero_fill (zero_policy\<lparr>p_cell_size := 4, p_paced := Some flat_pace\<rparr>) = Some (flat4, [PacingLoop])"
  using flat_valid with_defaults_keeps [OF flat_valid(1)]
  by (simp add: flat4_def fixed4_def policy_defs zero_policy_def)

lemma flat4_simps:
  "filler (fill flat4)" "shaped_wf flat4" "size_sampler flat4 = None" "pace flat4 = Some flat_pace" "cell_size flat4 = 4"
  "pc_decay flat_pace = 1" "\<not> pc_no_pad flat_pace" "pc_queue flat_pace = 4" "current_interval flat_pace t u = 1000000"
  using fixed4_wf zero_filler.filler_axioms
  by (auto simp: flat4_def fixed4_def flat_pace_def example_pace_def shaped_wf_def fixed_wf_def fixed_ok_def
      current_interval_def pace_rate_def trunc_duration_def)

lemma write_then_fire:
  assumes "shaped_wf c" "size_sampler c = None" "\<not> pc_no_pad cfg" "i \<in> ids" "p \<noteq> []"
    and "int (length (fst (frame_cells c p r))) \<le> pc_queue cfg"
    and "now \<le> t" "time_add now (current_interval cfg now now) \<le> t" "t \<le> time_add t (current_interval cfg t t)"
  shows "\<exists>u. watched (open_step c cfg ids True) pace_sees (paced_init cfg r now)
      [(t, cell_size c), (time_add t (current_interval cfg t t), cell_size c)] u"
proof -
  let ?i = "paced_init cfg r now" let ?j = "?i\<lparr>pclock := t\<rparr>" let ?w = "written_state c i p ?j"
  have i: "pclock ?i = now" "writers ?j i = None" "pace_err ?j = None" "send_q ?j = []" "prnd ?j = r"
    by (simp_all add: paced_init_def)
  have w: "pdone ?w = False" "pwire ?w = []" "pacer ?w = PWaiting" "pclock ?w = t" "pace_start ?w = t"
    "timer_at ?w = time_add now (current_interval cfg now now)"
    by (simp_all add: written_state_def paced_init_def split: prod.split)
  have "paced_step c cfg ids True ?i ?j" by (rule p_time) (simp add: i(1) assms(7))
  moreover have "(paced_step c cfg ids True)\<^sup>*\<^sup>* ?j ?w" by (rule write_all [OF assms(4) i(2,3) assms(5)]) (simp add: i assms(6))
  ultimately have r: "(paced_step c cfg ids True)\<^sup>*\<^sup>* ?i ?w" by (rule converse_rtranclp_into_rtranclp)
  then have q: "watched (open_step c cfg ids True) pace_sees ?i [] ?w"
    by (rule quiet_run) (simp_all add: w, simp add: paced_init_def)
  have "cells_inv c ?i" by (simp add: cells_inv_def in_flight_def paced_init_def)
  with r have inv: "cells_inv c ?w"
    by (induction rule: rtranclp_induct) (auto intro: cells_inv_step [OF _ assms(1)])
  obtain u where u: "watched (open_step c cfg ids True) pace_sees ?w [(t, cell_size c)] u" "cells_inv c u" "\<not> pdone u"
    "pacer u = PWaiting" "pclock u = t" "timer_at u = time_add t (current_interval cfg t t)"
    using fires [OF assms(1-3) inv, of t ids] w assms(8) by auto
  obtain v where "watched (open_step c cfg ids True) pace_sees u
      [(time_add t (current_interval cfg t t), cell_size c)] v"
    using fires [OF assms(1-3) u(2,4,3), of "time_add t (current_interval cfg t t)" ids] u(5,6) assms(9) by auto
  from watched_trans [OF watched_trans [OF q u(1)] this] show ?thesis by (intro exI [of _ v]) simp
qed

theorem paced_hides_traffic_witness:
  "\<exists>t. watched (open_step flat4 flat_pace {} True) pace_sees (paced_init flat_pace () (Instant 0))
     [(Instant 1000000, 4), (Instant 2000000, 4)] t"
proof -
  have "length (fst (frame_cells flat4 [1, 2, 3] ())) \<le> 4"
    by (simp add: frame_cells_def flat4_def fixed4_def fixed_cells_def Let_def hdr_size_def split: prod.split)
  then have "\<exists>s. watched (open_step flat4 flat_pace {0} True) pace_sees (paced_init flat_pace () (Instant 0))
      [(Instant 1000000, 4), (Instant 2000000, 4)] s"
    using write_then_fire [OF flat4_simps(2,3,7), of 0 "{0}" "[1, 2, 3]" "()" "Instant 0" "Instant 1000000"]
    by (simp add: flat4_simps time_add_def less_eq_instant_def)
  then obtain s where "watched (open_step flat4 flat_pace {0} True) pace_sees (paced_init flat_pace () (Instant 0))
      [(Instant 1000000, 4), (Instant 2000000, 4)] s" by blast
  from paced_hides_traffic [OF flat4_new flat4_simps(1) _ flat4_simps(3,4,6,7) this]
  show ?thesis by (auto simp: zero_policy_def)
qed

section \<open>A decaying rate shows the traffic\<close>

text \<open>
  Without writers the surge clock is never reset, so two writes to the base are at least the interval
  apart that the rate has decayed to at the first.
\<close>

definition idle_spaced :: "'r shaper \<Rightarrow> paced_config \<Rightarrow> instant \<Rightarrow> (instant \<times> nat) list \<Rightarrow> 'r pstate \<Rightarrow> bool" where
  "idle_spaced c cfg now seen s \<longleftrightarrow> pace_start s = now \<and> writers s = Map.empty \<and> closer s = COpen \<and> cells_inv c s \<and>
     successively (\<lambda>x y. time_add (fst x) (current_interval cfg (fst x) now) \<le> fst y) seen \<and>
     (seen \<noteq> [] \<longrightarrow> (let next = time_add (fst (last seen)) (current_interval cfg (fst (last seen)) now) in
        (pacer s = PWaiting \<longrightarrow> timer_at s = next) \<and> (\<forall>w. pacer s = PWriting w \<longrightarrow> next \<le> pclock s)))"

lemma idle_spaced_step:
  assumes "open_step c cfg {} live s s'" "idle_spaced c cfg now seen s"
    and "shaped_wf c" "size_sampler c = None" "\<not> pc_no_pad cfg"
  shows "idle_spaced c cfg now (seen @ pace_sees s s') s'"
proof -
  have step: "paced_step c cfg {} live s s'" and d: "\<not> pdone s'" using assms(1) by (simp_all add: open_step_def)
  have inv: "cells_inv c s'" using assms(2) by (intro cells_inv_step [OF step assms(3)]) (simp add: idle_spaced_def)
  have "\<not> pdone s" using pdone_stays [OF step] d by blast
  with step assms(2) inv d show ?thesis
  proof (induction rule: paced_step.induct)
    case (p_sent s w res)
    then have "length w = cell_size c" "0 < cell_size c"
      using is_cell_length [OF assms(4), of w] assms(3,4)
      by (simp_all add: idle_spaced_def cells_inv_def in_flight_def shaped_wf_def fixed_wf_def fixed_ok_def)
    with p_sent show ?case
      by (cases res) (auto simp: idle_spaced_def pace_sees_def pacer_write_def Let_def successively_append_iff)
  qed (use assms(5) in \<open>auto simp: idle_spaced_def pace_sees_def pacer_take_def close_start_def Let_def
      split: list.splits prod.splits\<close>)
qed

lemma idle_spaced_run:
  assumes "watched (open_step c cfg {} live) pace_sees (paced_init cfg r now) seen s"
    and "shaped_wf c" "size_sampler c = None" "\<not> pc_no_pad cfg"
  shows "idle_spaced c cfg now seen s"
  using assms(1)
proof (induction rule: watched.induct)
  case w_start
  show ?case by (simp add: idle_spaced_def paced_init_def cells_inv_def in_flight_def)
next
  case (w_next tr t u)
  show ?case by (rule idle_spaced_step [OF w_next.hyps(2) w_next.IH assms(2-4)])
qed

text \<open>
  C30. With a rate that decays the schedule is not independent of the application, whatever the comment on
  \<open>pacingLoop\<close> says: a \<open>Write\<close> at a time \<open>t\<close> when the rate has come down gives the observer two cells as
  close as only a surge sends them, a view that no run without a \<open>Write\<close> can give.
\<close>

theorem paced_surge_shows:
  assumes "new_shaped_conn rf p = Some (c, ls)" and "filler (fill c)" and "p_cell_size p \<le> 65537"
    and "size_sampler c = None" and "pace c = Some cfg" and "\<not> pc_no_pad cfg"
    and "i \<in> ids" and "msg \<noteq> []" and "int (length (fst (frame_cells c msg r))) \<le> pc_queue cfg"
    and "now \<le> t" and "time_add now (current_interval cfg now now) \<le> t"
    and "current_interval cfg t t < current_interval cfg t now"
  shows "\<exists>seen. (\<exists>s. watched (open_step c cfg ids True) pace_sees (paced_init cfg r now) seen s) \<and>
    \<not> (\<exists>live s. watched (open_step c cfg {} live) pace_sees (paced_init cfg r now) seen s)"
proof -
  let ?seen = "[(t, cell_size c), (time_add t (current_interval cfg t t), cell_size c)]"
  have wf: "shaped_wf c" by (rule new_shaped_wf [OF assms(1-3)])
  have v: "paced_valid cfg" "0 < pc_rate cfg" using new_shaped_paced [OF assms(1,5)] by simp_all
  have "0 \<le> current_interval cfg t t"
    using surge_interval_nonneg [OF v(1)] current_interval_ge_surge [OF v, of t t] by simp
  then have "t \<le> time_add t (current_interval cfg t t)" by (simp add: time_add_def less_eq_instant_def)
  from write_then_fire [OF wf assms(4,6-11) this]
  have "\<exists>s. watched (open_step c cfg ids True) pace_sees (paced_init cfg r now) ?seen s" .
  moreover have "\<not> watched (open_step c cfg {} live) pace_sees (paced_init cfg r now) ?seen s" for live s
  proof
    assume "watched (open_step c cfg {} live) pace_sees (paced_init cfg r now) ?seen s"
    from idle_spaced_run [OF this wf assms(4,6)]
    show False using assms(12) by (simp add: idle_spaced_def time_add_def less_eq_instant_def)
  qed
  ultimately show ?thesis by blast
qed

definition half_pace :: paced_config where
  "half_pace = example_pace\<lparr>pc_decay := 1 / 2\<rparr>"

definition half4 :: "unit shaper" where
  "half4 = fixed4\<lparr>pace := Some half_pace\<rparr>"

lemma half4_new:
  "new_shaped_conn zero_fill (zero_policy\<lparr>p_cell_size := 4, p_paced := Some half_pace\<rparr>) = Some (half4, [PacingLoop])"
proof -
  have "paced_valid half_pace" "0 < pc_rate half_pace" by (simp_all add: half_pace_def example_pace_def paced_valid_def)
  with with_defaults_keeps [OF this(1)] show ?thesis
    by (simp add: half4_def fixed4_def policy_defs zero_policy_def)
qed

lemma half4_simps:
  "filler (fill half4)" "size_sampler half4 = None" "pace half4 = Some half_pace" "\<not> pc_no_pad half_pace"
  by (simp_all add: half4_def fixed4_def half_pace_def example_pace_def zero_filler.filler_axioms)

lemma half4_intervals:
  "current_interval half_pace (Instant 0) (Instant 0) = 1000000"
  "current_interval half_pace (Instant 10000000000) (Instant 10000000000) = 1000000"
  "current_interval half_pace (Instant 10000000000) (Instant 0) = 20000000"
proof -
  have "(1 / 2 :: real) powr 10 = (1 / 2) ^ 10" by (subst powr_numeral) simp_all
  then have "(1 / 2 :: real) powr 10 = 1 / 1024" by (simp add: power_one_over)
  then have "pace_rate half_pace 10 = 50" by (simp add: pace_rate_def half_pace_def example_pace_def)
  then show "current_interval half_pace (Instant 10000000000) (Instant 0) = 20000000"
    by (simp add: current_interval_def time_sub_def min_duration_def max_duration_def trunc_duration_def)
  have "pace_rate half_pace 0 = 1000" by (simp add: pace_rate_def half_pace_def example_pace_def)
  then show "current_interval half_pace (Instant 0) (Instant 0) = 1000000"
    "current_interval half_pace (Instant 10000000000) (Instant 10000000000) = 1000000"
    by (simp_all add: current_interval_def time_sub_def min_duration_def max_duration_def trunc_duration_def)
qed

theorem paced_surge_shows_witness:
  "\<exists>seen. (\<exists>s. watched (open_step half4 half_pace {0} True) pace_sees (paced_init half_pace () (Instant 0)) seen s) \<and>
    \<not> (\<exists>live s. watched (open_step half4 half_pace {} live) pace_sees (paced_init half_pace () (Instant 0)) seen s)"
proof -
  have "length (fst (frame_cells half4 [1, 2, 3] ())) \<le> 4"
    by (simp add: frame_cells_def half4_def fixed4_def fixed_cells_def Let_def hdr_size_def split: prod.split)
  then have w: "int (length (fst (frame_cells half4 [1, 2, 3] ()))) \<le> pc_queue half_pace"
    by (simp add: half_pace_def example_pace_def)
  show ?thesis
    by (rule paced_surge_shows [OF half4_new half4_simps(1) _ half4_simps(2-4), of 0 "{0}" "[1, 2, 3]", OF _ _ _ w,
          of "Instant 0" "Instant 10000000000"])
      (simp_all add: half4_intervals zero_policy_def time_add_def less_eq_instant_def)
qed

end
