(* ===== verification/Cover_Timing.thy ===== *)
theory Cover_Timing
  imports Shaped_Conn
begin

text \<open>
  The cover loop on its ticker: \<open>time.NewTicker(interval)\<close> ticks every interval from the start, and
  the loop takes a tick when it is due. How long a connection with idle cover can be silent.
\<close>

section \<open>The ticker\<close>

text \<open>
  Beside the state of the connection, the time of the next tick. Time does not run backwards, and not
  past a tick that is due; everything else may happen in between, the other loops included.
\<close>

inductive ticked ::
  "(int \<Rightarrow> 'r \<Rightarrow> (int \<times> 'r) option) \<Rightarrow> 'r shaper \<Rightarrow> background list \<Rightarrow> int \<Rightarrow>
   'r sstate \<times> instant \<Rightarrow> 'r sstate \<times> instant \<Rightarrow> bool" for jd c ls d where
  between: "shaped_step jd c ls s s' \<Longrightarrow> clock s \<le> clock s' \<Longrightarrow> clock s' \<le> tick \<Longrightarrow> ticked jd c ls d (s, tick) (s', tick)"
| at_tick: "clock s = tick \<Longrightarrow> \<not> base_closed s \<Longrightarrow>
    ticked jd c ls d (s, tick) (cover_tick c d res s, time_add tick d)"

text \<open>Each step keeps or renews the time of the last write, and fails or not for good.\<close>

lemma flush_times:
  "flush res buf s = (err, s') \<Longrightarrow> clock s' = clock s \<and> (failed s \<longrightarrow> failed s') \<and>
   last_write s' = (if res = WriteOk then clock s else last_write s) \<and> (res \<noteq> WriteOk \<longrightarrow> failed s')"
  by (cases res) (auto simp: flush_def)

lemma step_times:
  assumes "shaped_step jd c ls s s'"
  shows "(failed s \<longrightarrow> failed s') \<and> (last_write s' = last_write s \<or> last_write s' = clock s')"
  using assms
proof cases
  case (app_write p res a)
  then show ?thesis
    by (cases res) (auto simp: shaped_write_def flush_def Let_def bind_eq_Some_conv split: if_splits prod.splits)
next
  case (idle_cover d res)
  then show ?thesis by (cases res) (auto simp: cover_tick_def flush_def split: prod.split)
next
  case (front_cover f res)
  then show ?thesis by (cases res) (auto simp: front_send_def flush_def split: prod.split)
qed simp_all

definition ticking :: "int \<Rightarrow> 'r sstate \<times> instant \<Rightarrow> bool" where
  "ticking d = (\<lambda>(s, tick). failed s \<or> (last_write s \<le> clock s \<and> clock s \<le> tick \<and>
     nanos tick - nanos (last_write s) < 2 * d))"

lemma ticking_step:
  assumes "ticked jd c ls d x y" "ticking d x" "0 < d" "d \<le> max_duration"
  shows "ticking d y"
  using assms(1,2)
proof (induction rule: ticked.induct)
  case (between s s' tick)
  from step_times [OF between(1)] between(2-4) show ?case
    by (auto simp: ticking_def less_eq_instant_def)
next
  case (at_tick s tick res)
  show ?case
  proof (cases "failed s")
    case True
    then show ?thesis by (cases res) (auto simp: ticking_def cover_tick_def flush_def split: prod.split)
  next
    case False
    with at_tick(3) have l: "last_write s \<le> clock s" by (simp add: ticking_def)
    show ?thesis
    proof (cases "d \<le> time_sub (clock s) (last_write s)")
      case True
      with at_tick(1) assms(3) show ?thesis
        by (cases res) (auto simp: ticking_def cover_tick_def flush_def time_add_def less_eq_instant_def split: prod.split)
    next
      case False
      then have "nanos (clock s) - nanos (last_write s) < d"
        using assms(4) l by (simp add: time_sub_def less_eq_instant_def max_def min_def split: if_splits)
      with False at_tick(1) assms(3) l show ?thesis
        by (simp add: ticking_def cover_tick_def time_add_def less_eq_instant_def)
    qed
  qed
qed

section \<open>Property\<close>



end
