(* ===== verification/Acceptor.thy ===== *)
theory Acceptor
  imports Go_IO
begin

text \<open>
  The listener pattern of \<open>reality/reality.go\<close>, \<open>xreality/listener.go\<close> and
  \<open>webrtc/webrtc.go\<close>: an accept loop starts a handler per connection; a handler classifies
  its connection and, if it ends in a tunnel, offers the tunnel on an unbuffered channel
  until \<open>Accept\<close> takes it or the listener is closed. \<open>handle c\<close> is the tunnel a handler
  makes of the connection \<open>c\<close>, if any; each listener instantiates it with its own handler.
\<close>

section \<open>The accept loop and its handlers\<close>

text \<open>
  A handler's connection: still being classified, on offer, handed out by \<open>Accept\<close>, declined
  (no tunnel: the handler has closed or spliced it), or closed because the listener was.
\<close>

datatype 't phase = Handling | Offering 't | Handed | Declined | Dropped

datatype accept_state = Accepting_Conns | Offering_Err io_err | Loop_Ended

text \<open>
  \<open>phases\<close>: the handlers started so far. \<open>adone\<close>: the channel \<open>done\<close> is closed; \<open>base_shut\<close>: so is
  the base listener. \<open>tunnels\<close>, \<open>accept_errs\<close> and \<open>refused\<close>: what \<open>Accept\<close> has returned,
  tunnels, errors of the base, and (counted) \<open>net.ErrClosed\<close>.
\<close>

record ('c, 't) acceptor =
  phases :: "'c \<Rightarrow> 't phase option"
  accepting :: accept_state
  adone :: bool
  base_shut :: bool
  tunnels :: "('c \<times> 't) list"
  accept_errs :: "io_err list"
  refused :: nat

text \<open>
  What the listener does by itself: \<open>acceptLoop\<close> with the \<open>select\<close> of its error branch, and the
  handlers it starts, with the \<open>select\<close> at their end. A closed base has no connections left.
\<close>

inductive loop_step ::
  "('c \<Rightarrow> 't option) \<Rightarrow> ('c, 't) acceptor \<Rightarrow> ('c, 't) acceptor \<Rightarrow> bool" for handle where
  a_arrive: "accepting s = Accepting_Conns \<Longrightarrow> \<not> base_shut s \<Longrightarrow> phases s c = None \<Longrightarrow>
    loop_step handle s (s\<lparr>phases := (phases s)(c \<mapsto> Handling)\<rparr>)"
| a_error: "accepting s = Accepting_Conns \<Longrightarrow>
    loop_step handle s (s\<lparr>accepting := Offering_Err e\<rparr>)"
| a_end: "accepting s = Offering_Err e \<Longrightarrow> adone s \<Longrightarrow>
    loop_step handle s (s\<lparr>accepting := Loop_Ended\<rparr>)"
| a_classified: "phases s c = Some Handling \<Longrightarrow>
    loop_step handle s (s\<lparr>phases := (phases s)
      (c \<mapsto> (case handle c of Some t \<Rightarrow> Offering t | None \<Rightarrow> Declined))\<rparr>)"
| a_drop: "phases s c = Some (Offering t) \<Longrightarrow> adone s \<Longrightarrow>
    loop_step handle s (s\<lparr>phases := (phases s)(c \<mapsto> Dropped)\<rparr>)"

text \<open>
  The listener's users: the branches of the \<open>select\<close> in \<open>Accept\<close> (the unbuffered channel makes a
  tunnel or an error change hands in one step), and the two statements of \<open>Close\<close>.
\<close>

inductive api_step :: "('c, 't) acceptor \<Rightarrow> ('c, 't) acceptor \<Rightarrow> bool" where
  p_tunnel: "phases s c = Some (Offering t) \<Longrightarrow>
    api_step s (s\<lparr>phases := (phases s)(c \<mapsto> Handed), tunnels := tunnels s @ [(c, t)]\<rparr>)"
| p_error: "accepting s = Offering_Err e \<Longrightarrow>
    api_step s (s\<lparr>accepting := Loop_Ended, accept_errs := accept_errs s @ [e]\<rparr>)"
| p_refused: "adone s \<Longrightarrow> api_step s (s\<lparr>refused := refused s + 1\<rparr>)"
| p_close: "api_step s (s\<lparr>adone := True\<rparr>)"
| p_close_base: "adone s \<Longrightarrow> api_step s (s\<lparr>base_shut := True\<rparr>)"

definition acceptor_step ::
  "('c \<Rightarrow> 't option) \<Rightarrow> ('c, 't) acceptor \<Rightarrow> ('c, 't) acceptor \<Rightarrow> bool" where
  "acceptor_step handle s s' \<longleftrightarrow> loop_step handle s s' \<or> api_step s s'"

definition acceptor_init :: "('c, 't) acceptor" where
  "acceptor_init = \<lparr>phases = Map.empty, accepting = Accepting_Conns, adone = False, base_shut = False,
     tunnels = [], accept_errs = [], refused = 0\<rparr>"

lemma acceptor_stepI:
  "loop_step handle s s' \<Longrightarrow> acceptor_step handle s s'" "api_step s s' \<Longrightarrow> acceptor_step handle s s'"
  by (simp_all add: acceptor_step_def)

section \<open>What is handed out\<close>

text \<open>
  What is offered and handed out comes from the handler of its connection; a handed-out connection
  is marked so, hence handed out once. Only \<open>Close\<close> makes \<open>Accept\<close> refuse, drops tunnels and
  shuts the base.
\<close>

definition acceptor_inv :: "('c \<Rightarrow> 't option) \<Rightarrow> ('c, 't) acceptor \<Rightarrow> bool" where
  "acceptor_inv handle s \<longleftrightarrow>
     (\<forall>c t. phases s c = Some (Offering t) \<longrightarrow> handle c = Some t) \<and>
     (\<forall>c. phases s c = Some Declined \<longrightarrow> handle c = None) \<and>
     (\<forall>(c, t) \<in> set (tunnels s). handle c = Some t) \<and>
     (\<forall>c. c \<in> fst ` set (tunnels s) \<longleftrightarrow> phases s c = Some Handed) \<and>
     distinct (map fst (tunnels s)) \<and>
     (accepting s = Loop_Ended \<or> accept_errs s = []) \<and> length (accept_errs s) \<le> 1 \<and>
     finite (dom (phases s)) \<and>
     (base_shut s \<or> 0 < refused s \<or> Some Dropped \<in> range (phases s) \<longrightarrow> adone s)"

lemma acceptor_inv_loop: "loop_step handle s s' \<Longrightarrow> acceptor_inv handle s \<Longrightarrow> acceptor_inv handle s'"
proof (induction rule: loop_step.induct)
  case (a_classified s c)
  then show ?case by (cases "handle c") (auto simp: acceptor_inv_def)
qed (auto simp: acceptor_inv_def)

lemma acceptor_inv_api: "api_step s s' \<Longrightarrow> acceptor_inv handle s \<Longrightarrow> acceptor_inv handle s'"
proof (induction rule: api_step.induct)
  case (p_tunnel s c t)
  have "c \<notin> fst ` set (tunnels s)" using p_tunnel by (simp add: acceptor_inv_def)
  with p_tunnel show ?case by (auto simp: acceptor_inv_def)
qed (auto simp: acceptor_inv_def)

lemma acceptor_reach:
  assumes "(acceptor_step handle)\<^sup>*\<^sup>* acceptor_init s"
  shows "acceptor_inv handle s"
proof (rule reach_invariant [OF assms])
  show "acceptor_inv handle acceptor_init" by (simp add: acceptor_init_def acceptor_inv_def)
qed (use acceptor_inv_loop acceptor_inv_api in \<open>auto simp: acceptor_step_def\<close>)

section \<open>Shutting down\<close>

text \<open>
  What is left to do once the base is shut: a handler has at most two steps before it, the accept
  loop likewise.
\<close>

fun phase_work :: "'t phase \<Rightarrow> nat" where
  "phase_work Handling = 2"
| "phase_work (Offering t) = 1"
| "phase_work _ = 0"

fun loop_work :: "accept_state \<Rightarrow> nat" where
  "loop_work Accepting_Conns = 2"
| "loop_work (Offering_Err e) = 1"
| "loop_work Loop_Ended = 0"

definition shutdown_work :: "('c, 't) acceptor \<Rightarrow> nat" where
  "shutdown_work s = loop_work (accepting s) + (\<Sum>c \<in> dom (phases s). phase_work (the (phases s c)))"

lemma shutdown_phase:
  assumes "base_shut s" "finite (dom (phases s))" "phases s c = Some p" "phase_work q < phase_work p"
  shows "shutdown_work (s\<lparr>phases := (phases s)(c \<mapsto> q)\<rparr>) < shutdown_work s \<and>
    base_shut (s\<lparr>phases := (phases s)(c \<mapsto> q)\<rparr>) \<and> finite (dom (phases (s\<lparr>phases := (phases s)(c \<mapsto> q)\<rparr>)))"
  using assms(1,2,4) weight_map_upd [OF assms(2,3), of phase_work q]
  by (simp add: shutdown_work_def del: fun_upd_apply)

lemma shutdown_step:
  assumes "loop_step handle s s'" "base_shut s" "finite (dom (phases s))"
  shows "shutdown_work s' < shutdown_work s \<and> base_shut s' \<and> finite (dom (phases s'))"
  using assms
proof (induction rule: loop_step.induct)
  case (a_classified s c)
  show ?case by (rule shutdown_phase [OF a_classified(2,3,1)]) (simp split: option.split)
next
  case (a_drop s c t)
  show ?case by (rule shutdown_phase [OF a_drop(3,4,1)]) simp
qed (simp_all add: shutdown_work_def)

lemma shutdown_api:
  assumes "api_step s s'" "base_shut s" "finite (dom (phases s))"
  shows "shutdown_work s' \<le> shutdown_work s \<and> base_shut s' \<and> finite (dom (phases s'))"
  using assms
proof (induction rule: api_step.induct)
  case (p_tunnel s c t)
  then show ?case using shutdown_phase [of s c "Offering t" Handed] by (simp add: shutdown_work_def del: fun_upd_apply)
qed (simp_all add: shutdown_work_def)

lemma shutdown_steps:
  assumes "base_shut s" "finite (dom (phases s))" and "f 0 = s" "\<And>n. acceptor_step handle (f n) (f (Suc n))"
  shows "finite {n. loop_step handle (f n) (f (Suc n))} \<and>
    card {n. loop_step handle (f n) (f (Suc n))} \<le> 2 * card (dom (phases s)) + 2"
proof -
  have inv: "base_shut (f n) \<and> finite (dom (phases (f n)))" for n
  proof (induction n)
    case (Suc n)
    then show ?case using assms(4) [of n] shutdown_step shutdown_api unfolding acceptor_step_def by blast
  qed (use assms in simp)
  have "shutdown_work (f (Suc n)) \<le> shutdown_work (f n)" for n
    using inv [of n] assms(4) [of n] shutdown_step [of handle "f n"] shutdown_api [of "f n"] less_imp_le
    unfolding acceptor_step_def by metis
  from few_steps [where f = f and w = shutdown_work and own = "loop_step handle"
      and P = "\<lambda>s. base_shut s \<and> finite (dom (phases s))", OF this _ inv] shutdown_step
  have few: "finite {n. loop_step handle (f n) (f (Suc n))} \<and>
      card {n. loop_step handle (f n) (f (Suc n))} \<le> shutdown_work s" using assms(3) by blast
  have "phase_work p \<le> 2" for p :: "'b phase" by (cases p) simp_all
  then have "(\<Sum>c \<in> dom (phases s). phase_work (the (phases s c))) \<le> 2 * card (dom (phases s))"
    by (rule weight_map_bound)
  moreover have "loop_work (accepting s) \<le> 2" by (cases "accepting s") simp_all
  ultimately have "shutdown_work s \<le> 2 * card (dom (phases s)) + 2" by (simp add: shutdown_work_def)
  with few show ?thesis by simp
qed

text \<open>Where the listener can do nothing more by itself, everything has come to its end.\<close>

lemma shutdown_complete:
  assumes "adone s" "\<And>s'. \<not> loop_step handle s s'"
  shows "accepting s = Loop_Ended" "phases s c = Some p \<Longrightarrow> p \<in> {Handed, Declined, Dropped}"
proof -
  show "accepting s = Loop_Ended"
    using assms(2) a_error [of s handle ErrClosed] a_end [of s _ handle] assms(1) by (cases "accepting s") auto
  show "p \<in> {Handed, Declined, Dropped}" if "phases s c = Some p"
    using assms(2) a_classified [of s c handle] a_drop [of s c _ handle] assms(1) that by (cases p) auto
qed

definition listener_ended :: "('c, 't) acceptor \<Rightarrow> bool" where
  "listener_ended s \<longleftrightarrow> accepting s = Loop_Ended \<and>
     (\<forall>p \<in> ran (phases s). p \<in> {Handed, Declined, Dropped})"

lemma ended_if_stuck: "adone s \<Longrightarrow> (\<And>s'. \<not> loop_step handle s s') \<Longrightarrow> listener_ended s"
  using shutdown_complete [of s handle] by (auto simp: listener_ended_def ran_def)

lemma ended_phase: "listener_ended s \<Longrightarrow> phases s c = Some p \<Longrightarrow> p = Handed \<or> p = Declined \<or> p = Dropped"
  by (auto simp: listener_ended_def ran_def)

lemma ended_stays:
  assumes "(acceptor_step handle)\<^sup>*\<^sup>* s s'" "listener_ended s"
  shows "listener_ended s' \<and> tunnels s' = tunnels s \<and> accept_errs s' = accept_errs s"
  using assms(1)
proof (induction rule: rtranclp_induct)
  case (step t u)
  then have e: "listener_ended t" "accepting t = Loop_Ended" by (simp_all add: listener_ended_def)
  from step(2) have "listener_ended u \<and> tunnels u = tunnels t \<and> accept_errs u = accept_errs t"
    unfolding acceptor_step_def
  proof (elim disjE)
    assume "loop_step handle t u"
    then show ?thesis using e by cases (auto dest: ended_phase)
  next
    assume "api_step t u"
    then show ?thesis using e ended_phase [OF e(1)] by cases (auto simp: listener_ended_def)
  qed
  with step show ?case by simp
qed (use assms(2) in simp)

section \<open>The interface between a listener and its handler\<close>

text \<open>
  A handler promises that a tunnel it makes is authentic; the listener built on it then never
  hands out anything else.
\<close>

locale authenticator =
  fixes handle :: "'c \<Rightarrow> 't option" and authentic :: "'c \<Rightarrow> 't \<Rightarrow> bool"
  assumes handle_authentic: "handle c = Some t \<Longrightarrow> authentic c t"
begin

lemma handed_authentic:
  assumes "(acceptor_step handle)\<^sup>*\<^sup>* acceptor_init s"
  shows "list_all (\<lambda>(c, t). authentic c t) (tunnels s) \<and> distinct (map fst (tunnels s)) \<and>
    length (accept_errs s) \<le> 1"
  using acceptor_reach [OF assms] handle_authentic
  by (auto simp: acceptor_inv_def list_all_iff)

end

text \<open>A connection that is handled to its end, for the witnesses.\<close>

lemma acceptor_run:
  fixes handle :: "'c \<Rightarrow> 't option"
  assumes "handle c = Some t"
  shows "\<exists>s. (acceptor_step handle)\<^sup>*\<^sup>* acceptor_init s \<and> tunnels s = [(c, t)]"
proof -
  let ?i = "acceptor_init :: ('c, 't) acceptor"
  let ?s1 = "?i\<lparr>phases := (phases ?i)(c \<mapsto> Handling)\<rparr>"
  let ?s2 = "?s1\<lparr>phases := (phases ?s1)(c \<mapsto> Offering t)\<rparr>"
  let ?s3 = "?s2\<lparr>phases := (phases ?s2)(c \<mapsto> Handed), tunnels := tunnels ?s2 @ [(c, t)]\<rparr>"
  have "acceptor_step handle ?i ?s1" by (intro acceptor_stepI(1) a_arrive) (simp_all add: acceptor_init_def)
  moreover have "acceptor_step handle ?s1 ?s2"
    using a_classified [of ?s1 c handle] assms by (simp add: acceptor_step_def)
  moreover have "acceptor_step handle ?s2 ?s3" by (intro acceptor_stepI(2) p_tunnel) simp
  ultimately have "(acceptor_step handle)\<^sup>*\<^sup>* ?i ?s3"
    by (meson converse_rtranclp_into_rtranclp rtranclp.rtrancl_refl)
  moreover have "tunnels ?s3 = [(c, t)]" by (simp add: acceptor_init_def)
  ultimately show ?thesis by blast
qed


section \<open>Property\<close>

text \<open>
  C27. A listener that has been closed comes to rest, whatever its handlers decide. Once the base is shut
  the accept loop and the handlers make at most two more steps each, in every schedule and however
  often \<open>Accept\<close> and \<open>Close\<close> are called; wherever they can do nothing more, the loop
  has returned and every connection was handed out, declined or closed, so that none is left waiting
  to be accepted; and from there on \<open>Accept\<close> only refuses: it never returns another tunnel or
  error of the base.
\<close>

theorem listener_shutdown:
  assumes "(acceptor_step handle)\<^sup>*\<^sup>* acceptor_init s" and "base_shut s"
  shows "(\<forall>f. f 0 = s \<and> (\<forall>n. acceptor_step handle (f n) (f (Suc n))) \<longrightarrow>
      finite {n. loop_step handle (f n) (f (Suc n))} \<and>
      card {n. loop_step handle (f n) (f (Suc n))} \<le> 2 * card (dom (phases s)) + 2) \<and>
    (\<forall>s'. (acceptor_step handle)\<^sup>*\<^sup>* s s' \<and> (\<nexists>t. loop_step handle s' t) \<longrightarrow>
      listener_ended s' \<and> (\<forall>s''. (acceptor_step handle)\<^sup>*\<^sup>* s' s'' \<longrightarrow>
        tunnels s'' = tunnels s' \<and> accept_errs s'' = accept_errs s'))"
proof (rule conjI; intro allI impI)
  have inv: "acceptor_inv handle s" by (rule acceptor_reach [OF assms(1)])
  then show "finite {n. loop_step handle (f n) (f (Suc n))} \<and>
      card {n. loop_step handle (f n) (f (Suc n))} \<le> 2 * card (dom (phases s)) + 2"
    if "f 0 = s \<and> (\<forall>n. acceptor_step handle (f n) (f (Suc n)))" for f
    using that assms(2) by (intro shutdown_steps) (simp_all add: acceptor_inv_def)
  have "adone s" using inv assms(2) by (simp add: acceptor_inv_def)
  fix s' assume s': "(acceptor_step handle)\<^sup>*\<^sup>* s s' \<and> (\<nexists>t. loop_step handle s' t)"
  have "adone s'"
  proof (rule reach_invariant [OF conjunct1 [OF s']])
    show "acceptor_step handle a b \<Longrightarrow> adone a \<Longrightarrow> adone b" for a b
      unfolding acceptor_step_def by (elim disjE loop_step.cases api_step.cases) auto
  qed (rule \<open>adone s\<close>)
  with s' have "listener_ended s'" using ended_if_stuck by blast
  then show "listener_ended s' \<and> (\<forall>s''. (acceptor_step handle)\<^sup>*\<^sup>* s' s'' \<longrightarrow>
      tunnels s'' = tunnels s' \<and> accept_errs s'' = accept_errs s')"
    using ended_stays by blast
qed

theorem listener_shutdown_witness:
  "\<exists>s :: (nat, nat) acceptor. listener_ended s \<and> refused s = 1 \<and> phases s 0 = Some Dropped \<and>
     (\<forall>s'. (acceptor_step Some)\<^sup>*\<^sup>* s s' \<longrightarrow> tunnels s' = [])"
proof -
  define st :: "(nat \<Rightarrow> nat phase option) \<Rightarrow> accept_state \<Rightarrow> bool \<Rightarrow> nat \<Rightarrow> (nat, nat) acceptor" where
    "st m l b k = \<lparr>phases = m, accepting = l, adone = b, base_shut = b, tunnels = [],
       accept_errs = [], refused = k\<rparr>" for m l b k
  let ?h = "[0 \<mapsto> Handling]" and ?o = "[0 \<mapsto> Offering 0]" and ?d = "[0 \<mapsto> Dropped]"
  have "acceptor_step Some acceptor_init (st ?h Accepting_Conns False 0)"
    using a_arrive [of "acceptor_init :: (nat, nat) acceptor" 0 Some] by (simp add: acceptor_step_def st_def acceptor_init_def)
  moreover have "acceptor_step Some (st ?h Accepting_Conns False 0) (st ?o Accepting_Conns False 0)"
    using a_classified [of "st ?h Accepting_Conns False 0" 0 Some] by (simp add: acceptor_step_def st_def)
  moreover have "acceptor_step Some (st ?o Accepting_Conns False 0) ((st ?o Accepting_Conns False 0)\<lparr>adone := True\<rparr>)"
    by (rule acceptor_stepI(2) [OF p_close])
  moreover have "acceptor_step Some ((st ?o Accepting_Conns False 0)\<lparr>adone := True\<rparr>) (st ?o Accepting_Conns True 0)"
    using p_close_base [of "(st ?o Accepting_Conns False 0)\<lparr>adone := True\<rparr>"] by (simp add: acceptor_step_def st_def)
  ultimately have r: "(acceptor_step Some)\<^sup>*\<^sup>* acceptor_init (st ?o Accepting_Conns True 0)"
    by (meson converse_rtranclp_into_rtranclp rtranclp.rtrancl_refl)
  have "loop_step Some (st ?o Accepting_Conns True 0) (st ?d Accepting_Conns True 0)"
    using a_drop [of "st ?o Accepting_Conns True 0" 0 0 Some] by (simp add: st_def acceptor_init_def)
  moreover have "loop_step Some (st ?d Accepting_Conns True 0) (st ?d (Offering_Err ErrClosed) True 0)"
    using a_error [of "st ?d Accepting_Conns True 0" Some ErrClosed] by (simp add: st_def acceptor_init_def)
  moreover have "loop_step Some (st ?d (Offering_Err ErrClosed) True 0) (st ?d Loop_Ended True 0)"
    using a_end [of "st ?d (Offering_Err ErrClosed) True 0" ErrClosed Some] by (simp add: st_def acceptor_init_def)
  moreover have "api_step (st ?d Loop_Ended True 0) (st ?d Loop_Ended True 1)"
    using p_refused [of "st ?d Loop_Ended True 0"] by (simp add: st_def acceptor_init_def)
  ultimately have "(acceptor_step Some)\<^sup>*\<^sup>* (st ?o Accepting_Conns True 0) (st ?d Loop_Ended True 1)"
    by (meson acceptor_stepI converse_rtranclp_into_rtranclp rtranclp.rtrancl_refl)
  moreover have "\<nexists>t. loop_step Some (st ?d Loop_Ended True 1) t"
    by (auto elim!: loop_step.cases simp: st_def acceptor_init_def split: if_splits)
  ultimately have "listener_ended (st ?d Loop_Ended True 1) \<and>
      (\<forall>s'. (acceptor_step Some)\<^sup>*\<^sup>* (st ?d Loop_Ended True 1) s' \<longrightarrow> tunnels s' = tunnels (st ?d Loop_Ended True 1))"
    using listener_shutdown [OF r] by (simp add: st_def)
  then show ?thesis by (intro exI [of _ "st ?d Loop_Ended True 1"]) (simp add: st_def acceptor_init_def)
qed

end
