(* ===== verification/Webrtc.thy ===== *)
theory Webrtc
  imports Acceptor
begin

text \<open>
  The WebRTC transport, \<open>webrtc/webrtc.go\<close>: \<open>Dial\<close> and \<open>answer\<close> drive a peer connection of
  the pion library through signalling, while the library's callbacks deliver the opened data
  channel. Both run as step relations: a library call succeeds or fails, the context or the timer may
  end, and the callbacks fire whenever the library likes.
\<close>

definition default_connect_timeout :: int where "default_connect_timeout = 20 * second"

definition connect_timeout :: "int \<Rightarrow> int" where
  "connect_timeout t = (if t \<le> 0 then default_connect_timeout else t)"

section \<open>Dial\<close>

text \<open>The call \<open>Dial\<close> is about to make, or how it has returned.\<close>

datatype dial_stage =
  NewPC | CreateDC | CreateOffer | SetLocal | Gather | Encode | Exchange | Decode | SetRemote | AwaitOpen
| DialFailed | Connected

fun next_stage :: "dial_stage \<Rightarrow> dial_stage" where
  "next_stage NewPC = CreateDC"
| "next_stage CreateDC = CreateOffer"
| "next_stage CreateOffer = SetLocal"
| "next_stage SetLocal = Gather"
| "next_stage Gather = Encode"
| "next_stage Encode = Exchange"
| "next_stage Exchange = Decode"
| "next_stage Decode = SetRemote"
| "next_stage SetRemote = AwaitOpen"
| "next_stage s = s"

text \<open>
  \<open>pc_open\<close>: the peer connection, if there is one, is not closed. \<open>registered\<close>: the data channel
  has its \<open>OnOpen\<close> callback; \<open>fired\<close>: it has run (it runs at most once). \<open>conn_ch\<close>: the
  connections in the buffered channel. \<open>ctx_done\<close>: the context has ended.
\<close>

record dial_state =
  stage :: dial_stage
  pc_open :: bool
  registered :: bool
  fired :: bool
  conn_ch :: nat
  ctx_done :: bool

definition dial_init :: dial_state where
  "dial_init = \<lparr>stage = NewPC, pc_open = False, registered = False, fired = False, conn_ch = 0,
     ctx_done = False\<rparr>"

definition calls :: "dial_stage set" where
  "calls = {CreateDC, CreateOffer, SetLocal, Encode, Exchange, Decode, SetRemote}"

text \<open>The steps of the goroutine that runs \<open>Dial\<close>, and what goes on around it.\<close>

inductive dial_own :: "dial_state \<Rightarrow> dial_state \<Rightarrow> bool" where
  d_new: "stage s = NewPC \<Longrightarrow> dial_own s (s\<lparr>stage := CreateDC, pc_open := True\<rparr>)"
| d_new_fails: "stage s = NewPC \<Longrightarrow> dial_own s (s\<lparr>stage := DialFailed\<rparr>)"
| d_call: "stage s \<in> calls \<Longrightarrow>
    dial_own s (s\<lparr>stage := next_stage (stage s), registered := registered s \<or> stage s = CreateDC\<rparr>)"
| d_call_fails: "stage s \<in> calls \<Longrightarrow> dial_own s (s\<lparr>stage := DialFailed, pc_open := False\<rparr>)"
| d_gathered: "stage s = Gather \<Longrightarrow> dial_own s (s\<lparr>stage := Encode\<rparr>)"
| d_expired: "stage s = Gather \<or> stage s = AwaitOpen \<Longrightarrow> ctx_done s \<Longrightarrow>
    dial_own s (s\<lparr>stage := DialFailed, pc_open := False\<rparr>)"
| d_connected: "stage s = AwaitOpen \<Longrightarrow> 0 < conn_ch s \<Longrightarrow>
    dial_own s (s\<lparr>stage := Connected, conn_ch := conn_ch s - 1\<rparr>)"

inductive dial_env :: "dial_state \<Rightarrow> dial_state \<Rightarrow> bool" where
  d_open: "registered s \<Longrightarrow> \<not> fired s \<Longrightarrow> conn_ch s < 1 \<Longrightarrow>
    dial_env s (s\<lparr>fired := True, conn_ch := conn_ch s + 1\<rparr>)"
| d_detach_fails: "registered s \<Longrightarrow> \<not> fired s \<Longrightarrow> dial_env s (s\<lparr>fired := True, pc_open := False\<rparr>)"
| d_ctx: "dial_env s (s\<lparr>ctx_done := True\<rparr>)"

definition dial_step :: "dial_state \<Rightarrow> dial_state \<Rightarrow> bool" where
  "dial_step s t \<longleftrightarrow> dial_own s t \<or> dial_env s t"

text \<open>
  The peer connection is open while \<open>Dial\<close> runs unless the callback closed it, and then no
  connection is on its way; after a failure it is closed.
\<close>

definition dial_inv :: "dial_state \<Rightarrow> bool" where
  "dial_inv s \<longleftrightarrow> (stage s = DialFailed \<longrightarrow> \<not> pc_open s) \<and>
     (0 < conn_ch s \<longrightarrow> fired s \<and> conn_ch s = 1) \<and>
     (0 < conn_ch s \<and> stage s \<noteq> DialFailed \<or> stage s = Connected \<longrightarrow> pc_open s \<and> fired s) \<and>
     (fired s \<longrightarrow> registered s) \<and>
     (registered s \<longrightarrow> stage s \<noteq> NewPC \<and> stage s \<noteq> CreateDC) \<and>
     (stage s \<noteq> NewPC \<and> stage s \<noteq> DialFailed \<and> \<not> fired s \<longrightarrow> pc_open s) \<and>
     (stage s = NewPC \<longrightarrow> \<not> pc_open s) \<and> (stage s = Connected \<longrightarrow> conn_ch s = 0)"

lemma dial_inv_own: "dial_own s t \<Longrightarrow> dial_inv s \<Longrightarrow> dial_inv t"
proof (induction rule: dial_own.induct)
  case (d_call s)
  then show ?case by (cases "stage s") (simp_all add: dial_inv_def calls_def)
qed (auto simp: dial_inv_def)

lemma dial_inv_step: "dial_step s t \<Longrightarrow> dial_inv s \<Longrightarrow> dial_inv t"
  unfolding dial_step_def
proof (elim disjE)
  show "dial_inv s \<Longrightarrow> dial_env s t \<Longrightarrow> dial_inv t" by (erule dial_env.cases) (simp_all add: dial_inv_def)
qed (rule dial_inv_own)

lemma dial_reach: "dial_step\<^sup>*\<^sup>* dial_init s \<Longrightarrow> dial_inv s"
  by (erule reach_invariant) (simp add: dial_inv_def dial_init_def, rule dial_inv_step)

text \<open>
  \<open>Dial\<close> moves forward only, in at most ten steps, and can always move while it has not returned
  except where it waits; there the end of the context lets it go on.
\<close>

fun dial_work :: "dial_stage \<Rightarrow> nat" where
  "dial_work NewPC = 10"
| "dial_work CreateDC = 9"
| "dial_work CreateOffer = 8"
| "dial_work SetLocal = 7"
| "dial_work Gather = 6"
| "dial_work Encode = 5"
| "dial_work Exchange = 4"
| "dial_work Decode = 3"
| "dial_work SetRemote = 2"
| "dial_work AwaitOpen = 1"
| "dial_work _ = 0"

lemma dial_own_work: "dial_own s t \<Longrightarrow> dial_work (stage t) < dial_work (stage s) \<and> (ctx_done s \<longrightarrow> ctx_done t)"
  by (induction rule: dial_own.induct) (auto simp: calls_def)

lemma dial_own_stuck:
  assumes "\<And>t. \<not> dial_own s t" "ctx_done s"
  shows "stage s \<in> {DialFailed, Connected}"
proof (cases "stage s \<in> calls")
  case True
  with assms(1) d_call [of s] show ?thesis by blast
next
  case False
  then show ?thesis
    using assms(1) [of "s\<lparr>stage := CreateDC, pc_open := True\<rparr>"] assms d_new [of s] d_expired [of s]
    by (cases "stage s") (auto simp: calls_def)
qed

section \<open>answer\<close>

datatype answer_stage =
  ANewPC | ADecode | ASetRemote | ACreateAnswer | ASetLocal | AGather | AEncode | AReply | AAwait
| AOffer | AHanded | ADropped

fun next_answer :: "answer_stage \<Rightarrow> answer_stage" where
  "next_answer ADecode = ASetRemote"
| "next_answer ASetRemote = ACreateAnswer"
| "next_answer ACreateAnswer = ASetLocal"
| "next_answer ASetLocal = AGather"
| "next_answer AEncode = AReply"
| "next_answer AReply = AAwait"
| "next_answer t = t"

definition answer_calls :: "answer_stage set" where
  "answer_calls = {ADecode, ASetRemote, ACreateAnswer, ASetLocal, AEncode, AReply}"

text \<open>
  \<open>OnDataChannel\<close> is called for every channel the client opens: each callback detaches and sends
  into \<open>opened\<close>, which holds one. \<open>senders\<close>: the callbacks at that send; \<open>buffered\<close>: the buffer is
  full. \<open>closing\<close>: the context of the listener is cancelled.
\<close>

record answer_state =
  astage :: answer_stage
  apc_open :: bool
  senders :: nat
  buffered :: bool
  closing :: bool

definition answer_init :: answer_state where
  "answer_init = \<lparr>astage = ANewPC, apc_open = False, senders = 0, buffered = False, closing = False\<rparr>"

text \<open>
  The steps of the goroutine that runs \<open>answer\<close>, those of the library's callbacks, and the two of
  the listener: \<open>Accept\<close> takes the connection on offer, \<open>Close\<close> cancels.
\<close>

inductive answer_own :: "answer_state \<Rightarrow> answer_state \<Rightarrow> bool" where
  w_new: "astage s = ANewPC \<Longrightarrow> answer_own s (s\<lparr>astage := ADecode, apc_open := True\<rparr>)"
| w_new_fails: "astage s = ANewPC \<Longrightarrow> answer_own s (s\<lparr>astage := ADropped\<rparr>)"
| w_call: "astage s \<in> answer_calls \<Longrightarrow> answer_own s (s\<lparr>astage := next_answer (astage s)\<rparr>)"
| w_call_fails: "astage s \<in> answer_calls \<Longrightarrow> answer_own s (s\<lparr>astage := ADropped, apc_open := False\<rparr>)"
| w_gathered: "astage s = AGather \<Longrightarrow> answer_own s (s\<lparr>astage := AEncode\<rparr>)"
| w_cancelled: "astage s \<in> {AGather, AAwait, AOffer} \<Longrightarrow> closing s \<Longrightarrow>
    answer_own s (s\<lparr>astage := ADropped, apc_open := False\<rparr>)"
| w_timer: "astage s = AAwait \<Longrightarrow> answer_own s (s\<lparr>astage := ADropped, apc_open := False\<rparr>)"
| w_opened: "astage s = AAwait \<Longrightarrow> buffered s \<Longrightarrow> answer_own s (s\<lparr>astage := AOffer, buffered := False\<rparr>)"

inductive answer_callback :: "answer_state \<Rightarrow> answer_state \<Rightarrow> bool" where
  w_channel: "apc_open s \<Longrightarrow> answer_callback s (s\<lparr>senders := senders s + 1\<rparr>)"
| w_detach_fails: "apc_open s \<Longrightarrow> answer_callback s (s\<lparr>apc_open := False\<rparr>)"
| w_send: "0 < senders s \<Longrightarrow> \<not> buffered s \<Longrightarrow> answer_callback s (s\<lparr>senders := senders s - 1, buffered := True\<rparr>)"

inductive answer_listener :: "answer_state \<Rightarrow> answer_state \<Rightarrow> bool" where
  w_handed: "astage s = AOffer \<Longrightarrow> answer_listener s (s\<lparr>astage := AHanded\<rparr>)"
| w_close: "answer_listener s (s\<lparr>closing := True\<rparr>)"

definition answer_step :: "answer_state \<Rightarrow> answer_state \<Rightarrow> bool" where
  "answer_step s t \<longleftrightarrow> answer_own s t \<or> answer_callback s t \<or> answer_listener s t"

lemma answer_stepI:
  "answer_own s t \<Longrightarrow> answer_step s t" "answer_callback s t \<Longrightarrow> answer_step s t"
  "answer_listener s t \<Longrightarrow> answer_step s t"
  by (simp_all add: answer_step_def)

lemmas answer_cases = answer_own.cases answer_callback.cases answer_listener.cases

definition answer_inv :: "answer_state \<Rightarrow> bool" where
  "answer_inv s \<longleftrightarrow> (astage s \<in> {ANewPC, ADropped} \<longrightarrow> \<not> apc_open s)"

lemma answer_inv_step: "answer_step s t \<Longrightarrow> answer_inv s \<Longrightarrow> answer_inv t"
  unfolding answer_step_def by (elim disjE answer_cases) (auto simp: answer_inv_def answer_calls_def)

lemma answer_reach: "answer_step\<^sup>*\<^sup>* answer_init s \<Longrightarrow> answer_inv s"
  by (erule reach_invariant) (simp add: answer_inv_def answer_init_def, rule answer_inv_step)

text \<open>
  \<open>answer\<close> moves forward only, in at most ten steps. Once the listener is cancelled it can always
  move until it has returned.
\<close>

fun answer_work :: "answer_stage \<Rightarrow> nat" where
  "answer_work ANewPC = 10"
| "answer_work ADecode = 9"
| "answer_work ASetRemote = 8"
| "answer_work ACreateAnswer = 7"
| "answer_work ASetLocal = 6"
| "answer_work AGather = 5"
| "answer_work AEncode = 4"
| "answer_work AReply = 3"
| "answer_work AAwait = 2"
| "answer_work AOffer = 1"
| "answer_work _ = 0"

lemma answer_own_work:
  "answer_own s t \<Longrightarrow> answer_work (astage t) < answer_work (astage s) \<and> closing t = closing s"
  by (induction rule: answer_own.induct) (auto simp: answer_calls_def)

lemma answer_own_stuck:
  assumes "\<And>t. \<not> answer_own s t" "closing s"
  shows "astage s \<in> {AHanded, ADropped}"
  using assms w_new [of s] w_call [of s] w_cancelled [of s]
  by (cases "astage s") (auto simp: answer_calls_def)

section \<open>The connection\<close>

text \<open>
  \<open>conn\<close> adapts a detached data channel: whether channel and peer connection are open, and the
  channel's deadline setters, if it has them (the type assertions of the code).
\<close>

record dc_conn =
  raw_open :: bool
  dc_pc_open :: bool
  read_deadline :: "(int option \<Rightarrow> io_err option) option"
  write_deadline :: "(int option \<Rightarrow> io_err option) option"

text \<open>\<open>Close\<close> closes both, with the error \<open>e\<close> of the channel; that of the peer connection is dropped.\<close>

definition dc_close :: "io_err option \<Rightarrow> dc_conn \<Rightarrow> io_err option \<times> dc_conn" where
  "dc_close e c = (e, c\<lparr>raw_open := False, dc_pc_open := False\<rparr>)"

definition set_read_deadline :: "dc_conn \<Rightarrow> int option \<Rightarrow> io_err option" where
  "set_read_deadline c t = (case read_deadline c of Some f \<Rightarrow> f t | None \<Rightarrow> None)"

definition set_write_deadline :: "dc_conn \<Rightarrow> int option \<Rightarrow> io_err option" where
  "set_write_deadline c t = (case write_deadline c of Some f \<Rightarrow> f t | None \<Rightarrow> None)"

text \<open>\<open>SetDeadline\<close> calls both setters and returns what the second does.\<close>

definition set_deadline :: "dc_conn \<Rightarrow> int option \<Rightarrow> io_err option" where
  "set_deadline c t = snd (set_read_deadline c t, set_write_deadline c t)"

section \<open>Properties\<close>

text \<open>
  C40. \<open>Dial\<close> leaks no peer connection: in every state that calls, callbacks, time-outs and
  cancellation can lead to, a failed \<open>Dial\<close> has closed its peer connection, a connection that is
  returned rests on an open one and was taken out of the channel, and the callback never blocks in
  its send.
\<close>

theorem dial_no_leak:
  assumes "dial_step\<^sup>*\<^sup>* dial_init s"
  shows "(stage s = DialFailed \<longrightarrow> \<not> pc_open s) \<and> (stage s = Connected \<longrightarrow> pc_open s \<and> conn_ch s = 0) \<and>
    (registered s \<and> \<not> fired s \<longrightarrow> conn_ch s < 1)"
  using dial_reach [OF assms] by (auto simp: dial_inv_def)

theorem dial_no_leak_witness:
  "\<exists>s. stage s = DialFailed \<and> \<not> pc_open (s :: dial_state) \<and> ctx_done s"
proof -
  let ?s1 = "dial_init\<lparr>stage := CreateDC, pc_open := True\<rparr>"
  let ?s2 = "?s1\<lparr>ctx_done := True\<rparr>"
  let ?s3 = "?s2\<lparr>stage := DialFailed, pc_open := False\<rparr>"
  have "dial_step dial_init ?s1" unfolding dial_step_def by (intro disjI1 d_new) (simp add: dial_init_def)
  moreover have "dial_step ?s1 ?s2" unfolding dial_step_def by (intro disjI2 d_ctx)
  moreover have "dial_step ?s2 ?s3" unfolding dial_step_def by (intro disjI1 d_call_fails) (simp add: calls_def)
  ultimately have "dial_step\<^sup>*\<^sup>* dial_init ?s3"
    by (meson converse_rtranclp_into_rtranclp rtranclp.rtrancl_refl)
  from dial_no_leak [OF this] show ?thesis by (intro exI [of _ ?s3]) simp
qed

text \<open>
  \<open>Dial\<close> returns: in every schedule, whatever the callbacks do meanwhile, its goroutine makes at
  most ten steps; and once the context has ended, as it does after the timeout at the latest, it is
  never stuck before it has returned.
\<close>

theorem dial_returns:
  assumes "\<forall>n. dial_step (f n) (f (Suc n))" and "ctx_done (f k)" and "\<nexists>t. dial_own (f k) t"
  shows "finite {n. dial_own (f n) (f (Suc n))} \<and> card {n. dial_own (f n) (f (Suc n))} \<le> 10 \<and>
    stage (f k) \<in> {DialFailed, Connected}"
proof -
  have le: "dial_work (stage (f (Suc n))) \<le> dial_work (stage (f n))" for n
    using assms(1) [rule_format, of n] dial_own_work [of "f n" "f (Suc n)"]
    unfolding dial_step_def by (elim disjE dial_env.cases) (simp_all add: less_imp_le)
  have "finite {n. dial_own (f n) (f (Suc n))} \<and> card {n. dial_own (f n) (f (Suc n))} \<le> dial_work (stage (f 0))"
    by (rule few_steps [where w = "\<lambda>s. dial_work (stage s)" and P = "\<lambda>_. True"])
      (use le dial_own_work in auto)
  moreover have "dial_work (stage (f 0)) \<le> 10" by (cases "stage (f 0)") simp_all
  moreover have "stage (f k) \<in> {DialFailed, Connected}" using dial_own_stuck assms(2,3) by blast
  ultimately show ?thesis by auto
qed

theorem dial_returns_witness:
  "\<exists>f. f 0 = dial_init \<and> (\<forall>n. dial_step (f n) (f (Suc n))) \<and> card {n. dial_own (f n) (f (Suc n))} \<le> 10 \<and>
     stage (f 2) = DialFailed"
proof -
  let ?a = "dial_init\<lparr>stage := DialFailed\<rparr>" and ?z = "dial_init\<lparr>stage := DialFailed, ctx_done := True\<rparr>"
  define f where "f n = (if n = 0 then dial_init else if n = 1 then ?a else ?z)" for n :: nat
  have "dial_step dial_init ?a" unfolding dial_step_def by (intro disjI1 d_new_fails) (simp add: dial_init_def)
  moreover have "dial_step ?a ?z" "dial_step ?z ?z"
    using d_ctx [of ?a] d_ctx [of ?z] by (simp_all add: dial_step_def dial_init_def)
  ultimately have steps: "\<forall>n. dial_step (f n) (f (Suc n))" by (auto simp: f_def)
  have "\<nexists>t. dial_own (f 2) t" by (auto simp: f_def dial_init_def calls_def elim!: dial_own.cases)
  moreover have "ctx_done (f 2)" by (simp add: f_def)
  moreover have "f 0 = dial_init" "stage (f 2) = DialFailed" by (simp_all add: f_def)
  ultimately show ?thesis using dial_returns [OF steps, of 2] steps by blast
qed

lemma answer_drops:
  assumes "answer_step\<^sup>*\<^sup>* answer_init s"
  shows "astage s = ADropped \<longrightarrow> \<not> apc_open s"
  using answer_reach [OF assms] by (simp add: answer_inv_def)

lemma stuck_senders:
  assumes "answer_step\<^sup>*\<^sup>* s t" "astage s \<in> {AOffer, AHanded, ADropped}" "buffered s" "0 < senders s"
  shows "0 < senders t"
proof -
  have "astage t \<in> {AOffer, AHanded, ADropped} \<and> buffered t \<and> 0 < senders t"
  proof (rule reach_invariant [OF assms(1)])
    show "astage s \<in> {AOffer, AHanded, ADropped} \<and> buffered s \<and> 0 < senders s" using assms by simp
  next
    fix a b
    assume "answer_step a b" "astage a \<in> {AOffer, AHanded, ADropped} \<and> buffered a \<and> 0 < senders a"
    then show "astage b \<in> {AOffer, AHanded, ADropped} \<and> buffered b \<and> 0 < senders b"
      unfolding answer_step_def by (elim disjE answer_cases) (auto simp: answer_calls_def)
  qed
  then show ?thesis by simp
qed

text \<open>
  A client can pin goroutines of the server: \<open>answer\<close> takes one connection out of \<open>opened\<close>,
  so of the callbacks of a client that opens three data channels one stays blocked in its send
  for good, whatever happens afterwards, also after the connection and the listener are closed.
\<close>

theorem answer_pins_callbacks:
  "\<exists>s. answer_step\<^sup>*\<^sup>* answer_init s \<and> astage s = AHanded \<and>
     (\<forall>t. answer_step\<^sup>*\<^sup>* s t \<longrightarrow> 0 < senders t)"
proof -
  define st where "st a p n b = \<lparr>astage = a, apc_open = p, senders = n, buffered = b, closing = False\<rparr>"
    for a p b and n :: nat
  have call: "answer_step (st a True 0 False) (st (next_answer a) True 0 False)" if "a \<in> answer_calls" for a
    using w_call [of "st a True 0 False"] that by (simp add: st_def answer_step_def)
  have "answer_step\<^sup>*\<^sup>* answer_init (st ADecode True 0 False)"
    using w_new [of answer_init] by (intro r_into_rtranclp) (simp add: answer_init_def st_def answer_step_def)
  moreover have "answer_step (st ADecode True 0 False) (st ASetRemote True 0 False)"
    "answer_step (st ASetRemote True 0 False) (st ACreateAnswer True 0 False)"
    "answer_step (st ACreateAnswer True 0 False) (st ASetLocal True 0 False)"
    "answer_step (st ASetLocal True 0 False) (st AGather True 0 False)"
    "answer_step (st AEncode True 0 False) (st AReply True 0 False)"
    "answer_step (st AReply True 0 False) (st AAwait True 0 False)"
    using call [of ADecode] call [of ASetRemote] call [of ACreateAnswer] call [of ASetLocal]
      call [of AEncode] call [of AReply]
    by (simp_all add: answer_calls_def)
  moreover have "answer_step (st AGather True 0 False) (st AEncode True 0 False)"
    using w_gathered [of "st AGather True 0 False"] by (simp add: st_def answer_step_def)
  ultimately have await: "answer_step\<^sup>*\<^sup>* answer_init (st AAwait True 0 False)"
    by (meson rtranclp.rtrancl_into_rtrancl)
  have ch: "answer_step (st a True n b) (st a True (Suc n) b)" for a n b
    using w_channel [of "st a True n b"] by (simp add: st_def answer_step_def)
  have snd: "answer_step (st a True (Suc n) False) (st a True n True)" for a n
    using w_send [of "st a True (Suc n) False"] by (simp add: st_def answer_step_def)
  have "answer_step (st AAwait True 2 True) (st AOffer True 2 False)"
    "answer_step (st AOffer True 1 True) (st AHanded True 1 True)"
    using w_opened [of "st AAwait True 2 True"] w_handed [of "st AOffer True 1 True"] by (simp_all add: st_def answer_step_def)
  moreover have "answer_step\<^sup>*\<^sup>* (st AAwait True 0 False) (st AAwait True 2 True)"
  proof -
    have "answer_step (st AAwait True 0 False) (st AAwait True 1 False)" using ch [of AAwait 0 False] by simp
    moreover have "answer_step (st AAwait True 1 False) (st AAwait True 2 False)"
      using ch [of AAwait 1 False] by (simp add: numeral_2_eq_2)
    moreover have "answer_step (st AAwait True 2 False) (st AAwait True 3 False)"
      using ch [of AAwait 2 False] by (simp add: numeral_3_eq_3 numeral_2_eq_2)
    moreover have "answer_step (st AAwait True 3 False) (st AAwait True 2 True)"
      using snd [of AAwait 2] by (simp add: numeral_3_eq_3 numeral_2_eq_2)
    ultimately show ?thesis by (meson converse_rtranclp_into_rtranclp rtranclp.rtrancl_refl)
  qed
  moreover have "answer_step (st AOffer True 2 False) (st AOffer True 1 True)"
    using snd [of AOffer 1] by (simp add: numeral_2_eq_2)
  ultimately have r: "answer_step\<^sup>*\<^sup>* answer_init (st AHanded True 1 True)"
    using await by (meson rtranclp.rtrancl_into_rtrancl rtranclp_trans)
  moreover have "0 < senders t" if "answer_step\<^sup>*\<^sup>* (st AHanded True 1 True) t" for t
    using stuck_senders [OF that] by (simp add: st_def)
  moreover have "astage (st AHanded True 1 True) = AHanded" by (simp add: st_def)
  ultimately show ?thesis by blast
qed

theorem answer_pins_callbacks_witness:
  "\<exists>s :: answer_state. astage s = AHanded \<and> 0 < senders s"
  using answer_pins_callbacks by blast

end
