(* ===== verification/Shaped_Hiding.thy ===== *)
theory Shaped_Hiding
  imports Shaped_Conn Watching
begin

text \<open>
  What a connection that is not paced hides. With cells of one size and no sampled delay an observer
  of times and byte counts learns of a message how many cells it takes and nothing else. That it was
  written at all he does learn: idle cover comes no sooner than its interval.
\<close>

section \<open>The observer\<close>

definition wire_sees :: "'r sstate \<Rightarrow> 'r sstate \<Rightarrow> (instant \<times> nat) list" where
  "wire_sees s s' = (if length (wire s) < length (wire s') then [(clock s', length (wire s') - length (wire s))] else [])"

definition plain_alike :: "'r sstate \<Rightarrow> 'r sstate \<Rightarrow> bool" where
  "plain_alike s t \<longleftrightarrow> clock s = clock t \<and> last_write s = last_write t \<and> started s = started t \<and>
     front_due s = front_due t \<and> closing s = closing t \<and> base_closed s = base_closed t"

definition undelayed :: "(int \<Rightarrow> 'r \<Rightarrow> (int \<times> 'r) option) \<times> 'r shaper \<times> background list \<Rightarrow> bool" where
  "undelayed = (\<lambda>(jd, c, ls). shaped_wf c \<and> size_sampler c = None \<and> (\<forall>r. apply_delay jd c r = Some (0, r)))"

text \<open>The number of cells of a message.\<close>

definition cell_count :: "'r shaper \<Rightarrow> bytes \<Rightarrow> nat" where
  "cell_count c p = (length p + max_data c - 1) div max_data c"

lemma frame_cells_length:
  assumes "shaped_wf c" "size_sampler c = None"
  shows "length (concat (fst (frame_cells c p r))) = cell_count c p * cell_size c"
proof -
  obtain ws r1 where f: "fixed_loop c (cell_count c p) p r = (ws, r1)" by force
  have "list_all (\<lambda>w. length w = n) ws \<Longrightarrow> length (concat ws) = length ws * n" for n and ws :: "bytes list"
    by (induction ws) simp_all
  with fixed_loop_lengths [OF _ _ f] f assms show ?thesis
    by (auto simp: shaped_wf_def fixed_wf_def frame_cells_def fixed_cells_def cell_count_def Let_def)
qed

lemma cover_cell_length:
  assumes "shaped_wf c" "size_sampler c = None"
  shows "length (fst (cover_cell c r)) = cell_size c"
proof -
  obtain w r1 where k: "cover_cell c r = (w, r1)" by force
  from shaped.cover_frame [OF assms(1) k] assms(2) k show ?thesis
    by (simp add: shaped_frame_def fixed_frame_def)
qed

text \<open>The same outcome of the base write, with buffers of the same length.\<close>

lemma flush_alike:
  assumes "plain_alike s t" "length buf = length buf'"
  shows "plain_alike (snd (flush res buf s)) (snd (flush res buf' t)) \<and> fst (flush res buf s) = fst (flush res buf' t) \<and>
    length (wire (snd (flush res buf s))) - length (wire s) = length (wire (snd (flush res buf' t))) - length (wire t) \<and>
    length (wire s) \<le> length (wire (snd (flush res buf s))) \<and> length (wire t) \<le> length (wire (snd (flush res buf' t)))"
  using assms by (cases res) (auto simp: flush_def plain_alike_def)

lemma sees_alike:
  assumes "plain_alike s' t'" "length (wire s') - length (wire s) = length (wire t') - length (wire t)"
    and "length (wire s) \<le> length (wire s')" "length (wire t) \<le> length (wire t')"
  shows "wire_sees t t' = wire_sees s s'"
  using assms by (auto simp: wire_sees_def plain_alike_def)

lemma write_alike:
  assumes "undelayed (jd, c, ls)" "plain_alike s t" "shaped_write jd c p res s = Some (a, s')"
    and "cell_count c p = cell_count c q" "p = [] \<longleftrightarrow> q = []"
  shows "\<exists>b t'. shaped_write jd c q res t = Some (b, t') \<and> plain_alike s' t' \<and> wire_sees t t' = wire_sees s s'"
proof (cases "p = []")
  case True
  with assms show ?thesis by (simp add: shaped_write_def wire_sees_def)
next
  case False
  have ok: "shaped_wf c" "size_sampler c = None" "apply_delay jd c r = Some (0, r)" for r
    using assms(1) by (simp_all add: undelayed_def)
  obtain ws r1 vs r2 where f: "frame_cells c p (rnd s) = (ws, r1)" "frame_cells c q (rnd t) = (vs, r2)" by force
  let ?s = "s\<lparr>rnd := r1, clock := time_add (clock s) 0\<rparr>" and ?t = "t\<lparr>rnd := r2, clock := time_add (clock t) 0\<rparr>"
  have len: "length (concat ws) = length (concat vs)"
    using frame_cells_length [OF ok(1,2), of p "rnd s"] frame_cells_length [OF ok(1,2), of q "rnd t"] f assms(4) by simp
  have "plain_alike ?s ?t" using assms(2) by (simp add: plain_alike_def)
  note fl = flush_alike [OF this len, of res]
  obtain e s2 where s2: "flush res (concat ws) ?s = (e, s2)" by force
  with fl obtain t2 where t2: "flush res (concat vs) ?t = (e, t2)" by (metis fst_conv surj_pair)
  let ?fin = "\<lambda>m x. x\<lparr>accepted := (case e of None \<Rightarrow> accepted x @ m | Some _ \<Rightarrow> accepted x)\<rparr>"
  have s': "s' = ?fin p s2" using assms(3) False f(1) s2 ok(3) by (cases e) (auto simp: shaped_write_def)
  have t': "\<exists>b. shaped_write jd c q res t = Some (b, ?fin q t2)"
    using assms(5) False f(2) t2 ok(3) by (cases e) (auto simp: shaped_write_def)
  have "plain_alike s' (?fin q t2)" using fl s2 t2 by (simp add: s' plain_alike_def)
  moreover from this have "wire_sees t (?fin q t2) = wire_sees s s'"
    by (rule sees_alike) (use fl s2 t2 in \<open>simp_all add: s'\<close>)
  ultimately show ?thesis using t' by blast
qed

lemma plain_alike_sym: "plain_alike s t \<Longrightarrow> plain_alike t s"
  by (simp add: plain_alike_def)

lemma cover_alike:
  assumes "undelayed (jd, c, ls)" "plain_alike s t"
  shows "plain_alike (cover_tick c d res s) (cover_tick c d res t) \<and>
      wire_sees t (cover_tick c d res t) = wire_sees s (cover_tick c d res s)"
    and "plain_alike (front_send c res s) (front_send c res t) \<and>
      wire_sees t (front_send c res t) = wire_sees s (front_send c res s)"
proof -
  have ok: "shaped_wf c" "size_sampler c = None" using assms(1) by (simp_all add: undelayed_def)
  obtain w r1 v r2 where k: "cover_cell c (rnd s) = (w, r1)" "cover_cell c (rnd t) = (v, r2)" by force
  then have len: "length w = length v"
    using cover_cell_length [OF ok, of "rnd s"] cover_cell_length [OF ok, of "rnd t"] by simp
  have a: "plain_alike (s\<lparr>rnd := r1\<rparr>) (t\<lparr>rnd := r2\<rparr>)"
    "plain_alike (s\<lparr>rnd := r1, front_due := tl (front_due s)\<rparr>) (t\<lparr>rnd := r2, front_due := tl (front_due t)\<rparr>)"
    "clock s = clock t" "last_write s = last_write t"
    using assms(2) by (simp_all add: plain_alike_def)
  show "plain_alike (cover_tick c d res s) (cover_tick c d res t) \<and>
      wire_sees t (cover_tick c d res t) = wire_sees s (cover_tick c d res s)"
  proof (cases "time_sub (clock s) (last_write s) \<ge> d")
    case True
    with flush_alike [OF a(1) len, of res] show ?thesis by (auto simp: cover_tick_def k a(3,4) intro!: sees_alike)
  next
    case False
    with assms(2) show ?thesis by (simp add: cover_tick_def a(3,4) wire_sees_def)
  qed
  from flush_alike [OF a(2) len, of res] show "plain_alike (front_send c res s) (front_send c res t) \<and>
      wire_sees t (front_send c res t) = wire_sees s (front_send c res s)"
    by (auto simp: front_send_def k intro!: sees_alike)
qed

lemma plain_followed:
  assumes "undelayed (jd, c, ls)" "plain_alike s t" "shaped_step jd c ls s s'"
  shows "\<exists>t'. shaped_step jd c ls t t' \<and> wire_sees t t' = wire_sees s s' \<and> plain_alike s' t'"
  using assms(3)
proof cases
  case (pass_time u)
  with assms(2) have "shaped_step jd c ls t (t\<lparr>clock := u\<rparr>)" by (intro shaped_step.pass_time) (simp add: plain_alike_def)
  with pass_time assms(2) show ?thesis
    by (intro exI [of _ "t\<lparr>clock := u\<rparr>"]) (simp add: wire_sees_def plain_alike_def)
next
  case (app_write p res r)
  from write_alike [OF assms(1,2) app_write(1) refl refl] obtain b t' where
    t: "shaped_write jd c p res t = Some (b, t')" "plain_alike s' t'" "wire_sees t t' = wire_sees s s'" by blast
  have "shaped_step jd c ls t t'"
    by (rule shaped_step.app_write [OF t(1)]) (use app_write(2) assms(2) in \<open>simp add: plain_alike_def\<close>)
  with t show ?thesis by blast
next
  case (idle_cover d res)
  have "shaped_step jd c ls t (cover_tick c d res t)"
    by (rule shaped_step.idle_cover) (use idle_cover assms(2) in \<open>simp_all add: plain_alike_def\<close>)
  with cover_alike(1) [OF assms(1,2)] idle_cover(1) show ?thesis by blast
next
  case (front_cover f res)
  have "shaped_step jd c ls t (front_send c res t)"
    by (rule shaped_step.front_cover) (use front_cover assms(2) in \<open>simp_all add: plain_alike_def\<close>)
  with cover_alike(2) [OF assms(1,2)] front_cover(1) show ?thesis by blast
next
  case close_done
  with assms(2) shaped_step.close_done [of jd c ls t] show ?thesis
    by (intro exI [of _ "t\<lparr>closing := True\<rparr>"]) (simp add: wire_sees_def plain_alike_def)
next
  case close_base
  with assms(2) shaped_step.close_base [of t jd c ls] show ?thesis
    by (intro exI [of _ "t\<lparr>base_closed := True\<rparr>"]) (simp add: wire_sees_def plain_alike_def)
qed

interpretation plain: unwinding undelayed "\<lambda>(jd, c, ls). shaped_step jd c ls" "\<lambda>(jd, c, ls). shaped_step jd c ls"
  wire_sees "\<lambda>_. plain_alike"
proof (unfold_locales, goal_cases)
  case (1 k s t s')
  obtain jd c ls where "k = (jd, c, ls)" by (rule prod_cases3)
  with 1 plain_followed [of jd c ls s t s'] show ?case by simp
next
  case (2 k s t t')
  obtain jd c ls where "k = (jd, c, ls)" by (rule prod_cases3)
  with 2 plain_followed [of jd c ls t s t'] plain_alike_sym show ?case by (simp, blast)
qed

section \<open>Properties\<close>



text \<open>
  Idle cover does not make a busy connection look like an idle one, as the comment on \<open>coverLoop\<close>
  says it does: bytes that go out before the interval of the cover loop has passed since the start
  come from a \<open>Write\<close>.
\<close>

theorem cover_shows_busy:
  assumes "(shaped_step jd c ls)\<^sup>*\<^sup>* (shaped_init r now due) s" and "\<And>f. FrontLoop f \<notin> set ls"
    and "\<And>d. CoverLoop d \<in> set ls \<Longrightarrow> time_sub (clock s) now < d" and "wire s \<noteq> []"
  shows "accepted s \<noteq> [] \<or> failed s"
proof -
  let ?quiet = "\<lambda>s. accepted s = [] \<and> \<not> failed s \<and> (\<forall>d. CoverLoop d \<in> set ls \<longrightarrow> time_sub (clock s) now < d)"
  have "?quiet s \<longrightarrow> wire s = [] \<and> last_write s = now"
  proof (rule reach_invariant [OF assms(1)])
    fix s s' :: "'a sstate"
    assume i: "?quiet s \<longrightarrow> wire s = [] \<and> last_write s = now" and "shaped_step jd c ls s s'"
    from this(2) show "?quiet s' \<longrightarrow> wire s' = [] \<and> last_write s' = now"
    proof cases
      case (pass_time t)
      with i show ?thesis using time_sub_mono [of "clock s" t now] by (force intro: le_less_trans)
    next
      case (app_write p res a)
      with i show ?thesis
        by (cases res) (auto simp: shaped_write_def flush_def Let_def bind_eq_Some_conv split: if_splits prod.splits)
    next
      case (idle_cover d res)
      with i show ?thesis
        by (cases res) (auto simp: cover_tick_def flush_def Let_def split: if_splits prod.splits)
    next
      case (front_cover f res)
      with assms(2) show ?thesis by blast
    qed (use i in simp_all)
  qed (simp add: shaped_init_def)
  with assms(3,4) show ?thesis by blast
qed

theorem cover_shows_busy_witness:
  "\<exists>s. (shaped_step (\<lambda>_ r. Some (0, r)) fixed4 [])\<^sup>*\<^sup>* (shaped_init () (Instant 0) []) s \<and> wire s \<noteq> [] \<and>
     (accepted s \<noteq> [] \<or> failed s)"
proof -
  obtain s where s: "(shaped_step (\<lambda>_ r. Some (0, r)) fixed4 [])\<^sup>*\<^sup>* (shaped_init () (Instant 0) []) s"
    "accepted s = [1, 2, 3]" "\<not> failed s" using fixed4_sent by blast
  have "shaped_wf fixed4" using fixed4_wf by (simp add: shaped_wf_def fixed4_def)
  from shaped_reach_inv [OF s(1) this] s(2,3) obtain ws ds where
    f: "list_all2 (shaped_frame fixed4) ws ds" "wire s = concat ws" "concat ds = [1, 2, 3]" by (auto simp: wire_inv_def)
  then obtain w d ws' ds' where "ws = w # ws'" "shaped_frame fixed4 w d" by (cases ws; cases ds) auto
  with f(2) have "wire s \<noteq> []" by (auto simp: shaped_frame_def fixed_frame_def fixed4_def)
  with cover_shows_busy [OF s(1)] s(1) show ?thesis by (intro exI [of _ s]) simp
qed

end
