(* ===== verification/Dc_Stream.thy ===== *)
theory Dc_Stream
  imports Webrtc Shaped_Hiding
begin

text \<open>
  The connection of the WebRTC transport as the base of a shaped connection. A detached data channel
  is a stream of messages, and \<open>conn\<close> forwards \<open>Read\<close> and \<open>Write\<close> as they are: what that means for
  cells, with the library's side as the law of a message reader.
\<close>

section \<open>Read and Write of conn\<close>

text \<open>\<open>raw\<close> is the detached channel, \<open>'q\<close> its state.\<close>

definition dc_read :: "(nat \<Rightarrow> 'q \<Rightarrow> bytes \<times> io_err option \<times> 'q) \<Rightarrow> nat \<Rightarrow> 'q \<Rightarrow> bytes \<times> io_err option \<times> 'q" where
  "dc_read raw n q = raw n q"

definition dc_write :: "(bytes \<Rightarrow> 'q \<Rightarrow> nat \<times> io_err option \<times> 'q) \<Rightarrow> bytes \<Rightarrow> 'q \<Rightarrow> nat \<times> io_err option \<times> 'q" where
  "dc_write raw p q = raw p q"

lemma cell_count_one:
  assumes "shaped_wf c" "size_sampler c = None" "p \<noteq> []"
  shows "cell_count c p * cell_size c \<le> cell_size c \<longleftrightarrow> length p \<le> max_data c"
    and "cell_size c \<le> cell_count c p * cell_size c"
proof -
  have m: "0 < max_data c" "0 < cell_size c"
    using assms(1,2) by (auto simp: shaped_wf_def fixed_wf_def fixed_ok_def hdr_size_def)
  have l: "1 \<le> length p" using assms(3) by (cases p) simp_all
  then have "1 * max_data c \<le> length p + max_data c - 1" by simp
  then have one: "1 \<le> cell_count c p" using m(1) unfolding cell_count_def by (subst less_eq_div_iff_mult_less_eq) auto
  then show "cell_size c \<le> cell_count c p * cell_size c" by simp
  have "cell_count c p * cell_size c \<le> cell_size c \<longleftrightarrow> cell_count c p < 2" using m(2) one by auto
  also have "\<dots> \<longleftrightarrow> length p + max_data c - 1 < 2 * max_data c"
    unfolding cell_count_def using m(1) by (subst div_less_iff_less_mult) auto
  also have "\<dots> \<longleftrightarrow> length p \<le> max_data c" using m(1) l by auto
  finally show "cell_count c p * cell_size c \<le> cell_size c \<longleftrightarrow> length p \<le> max_data c" .
qed

section \<open>Property\<close>

text \<open>
  Cells over a data channel. If the channel delivers one message per \<open>Read\<close> and refuses a buffer that is too
  short for it, then the \<open>io.ReadFull\<close> of one cell with which the shaped connection reads succeeds exactly for
  messages of one cell: \<open>Write\<close> sends all cells of a message with one write of the base, so a message
  longer than one cell can hold, though accepted, never arrives. In paced mode every base write is one cell.
\<close>

theorem dc_carries_single_cells:
  assumes "shaped_wf c" and "size_sampler c = None" and "p \<noteq> []"
    and "\<And>n q m. waiting q = Some m \<Longrightarrow>
      raw n q = (if length m \<le> n then (m, None, after q) else ([], Some short, spoiled q))"
    and "waiting q = Some (concat (fst (frame_cells c p r)))"
  shows "read_full_loop (\<lambda>n q. Some (dc_read raw n q)) unexpected (cell_size c) [] q =
    (if length p \<le> max_data c then Some (concat (fst (frame_cells c p r)), None, after q)
     else Some ([], Some short, spoiled q))"
proof -
  let ?m = "concat (fst (frame_cells c p r))"
  have n: "\<not> cell_size c \<le> 0"
    using assms(1,2) by (auto simp: shaped_wf_def fixed_wf_def fixed_ok_def)
  have len: "length ?m = cell_count c p * cell_size c" by (rule frame_cells_length [OF assms(1,2)])
  note k = cell_count_one [OF assms(1-3)]
  have rd: "dc_read raw (cell_size c) q =
      (if length p \<le> max_data c then (?m, None, after q) else ([], Some short, spoiled q))"
    unfolding dc_read_def assms(4) [OF assms(5)] len k(1) by (rule refl)
  show ?thesis
    using n k(2) rd read_full_loop.simps [of "\<lambda>n q. Some (dc_read raw n q)" unexpected "cell_size c" ?m "after q"]
    by (subst read_full_loop.simps) (simp add: len)
qed

text \<open>Such a channel, over a list of messages.\<close>

definition channel1 :: "nat \<Rightarrow> bytes list \<Rightarrow> bytes \<times> io_err option \<times> bytes list" where
  "channel1 n q = (case q of
       [] \<Rightarrow> ([], Some EOF, [])
     | m # ms \<Rightarrow> if length m \<le> n then (m, None, ms) else ([], Some (OtherErr 1), ms))"

definition waiting1 :: "bytes list \<Rightarrow> bytes option" where
  "waiting1 q = (case q of [] \<Rightarrow> None | m # _ \<Rightarrow> Some m)"

theorem dc_carries_single_cells_witness:
  "\<exists>m. read_full_loop (\<lambda>n q. Some (dc_read channel1 n q)) unexpected 4 [] [m] = Some ([], Some (OtherErr 1), [])"
proof -
  have c: "shaped_wf fixed4" "size_sampler fixed4 = None" "[1, 2, 3 :: 8 word] \<noteq> []"
    using fixed4_wf by (simp_all add: shaped_wf_def fixed4_def)
  have law: "waiting1 q = Some m \<Longrightarrow>
      channel1 n q = (if length m \<le> n then (m, None, tl q) else ([], Some (OtherErr 1), tl q))" for q m n
    by (simp add: waiting1_def channel1_def split: list.splits)
  have w: "waiting1 [concat (fst (frame_cells fixed4 [1, 2, 3] ()))] = Some (concat (fst (frame_cells fixed4 [1, 2, 3] ())))"
    by (simp add: waiting1_def)
  have s: "cell_size fixed4 = 4" "max_data fixed4 = 2" by (simp_all add: fixed4_def)
  from dc_carries_single_cells [where waiting = waiting1 and raw = channel1 and after = tl and spoiled = tl, OF c law w] show ?thesis unfolding s by (intro exI) simp
qed

end
