(* ===== verification/Packet.thy ===== *)
theory Packet
  imports Fill
begin

text \<open>
  Datagram obfuscation, \<open>packet.go\<close>: each datagram is a random salt and, encrypted in counter
  mode under the salt, a 2-byte length, the payload and padding. \<open>sha256.Sum256\<close> and the AES
  block function are parameters; counter mode is written out. Reading decrypts in place in a
  pooled buffer that still holds earlier datagrams, so the buffer is part of the model.
\<close>

section \<open>Counter mode\<close>

definition block_size :: nat where "block_size = 16"

text \<open>The big-endian increment of the counter block, least significant byte last.\<close>

fun inc_le :: "bytes \<Rightarrow> bytes" where
  "inc_le [] = []"
| "inc_le (b # bs) = (if b + 1 = 0 then 0 # inc_le bs else (b + 1) # bs)"

definition inc_be :: "bytes \<Rightarrow> bytes" where
  "inc_be iv = rev (inc_le (rev iv))"

text \<open>\<open>cipher.NewCTR(block, iv).XORKeyStream(frame, frame)\<close> on a fresh stream.\<close>

function xor_key_stream :: "(bytes \<Rightarrow> bytes) \<Rightarrow> bytes \<Rightarrow> bytes \<Rightarrow> bytes" where
  "xor_key_stream blk iv xs =
     (if xs = [] then []
      else map2 (XOR) (take block_size xs) (blk iv) @
           xor_key_stream blk (inc_be iv) (drop block_size xs))"
  by pat_completeness auto
termination xor_key_stream
  by (relation "measure (\<lambda>(blk, iv, xs). length xs)") (auto simp: block_size_def)

declare xor_key_stream.simps [simp del]

definition is_block :: "(bytes \<Rightarrow> bytes) \<Rightarrow> bool" where
  "is_block blk \<longleftrightarrow> (\<forall>iv. length (blk iv) = block_size)"

lemma xor_key_stream_Nil [simp]: "xor_key_stream blk iv [] = []"
  by (simp add: xor_key_stream.simps)

lemma map2_xor_twice:
  "length xs \<le> length ks \<Longrightarrow> map2 (XOR) (map2 (XOR) xs ks) ks = (xs :: bytes)"
  by (induction xs ks rule: list_induct2') (simp_all add: xor.assoc)

lemma map2_take: "map2 f (take n xs) (take n ys) = map2 f (take n xs) ys"
  by (rule nth_equalityI) auto

lemma length_xor_key_stream [simp]: "is_block blk \<Longrightarrow> length (xor_key_stream blk iv xs) = length xs"
  by (induction blk iv xs rule: xor_key_stream.induct)
    (subst xor_key_stream.simps, auto simp: is_block_def min_def)

lemma xor_key_stream_twice:
  "is_block blk \<Longrightarrow> xor_key_stream blk iv (xor_key_stream blk iv xs) = xs"
proof (induction blk iv xs rule: xor_key_stream.induct)
  case (1 blk iv xs)
  show ?case
  proof (cases "xs = []")
    case False
    let ?h = "map2 (XOR) (take block_size xs) (blk iv)"
    let ?t = "xor_key_stream blk (inc_be iv) (drop block_size xs)"
    have e: "xor_key_stream blk iv xs = ?h @ ?t" using False by (subst xor_key_stream.simps) simp
    have b: "length (blk iv) = block_size" using 1 by (simp add: is_block_def)
    have td: "take block_size (?h @ ?t) = ?h" "drop block_size (?h @ ?t) = ?t"
      by (cases "block_size \<le> length xs"; simp add: b 1)+
    have ne: "?h @ ?t \<noteq> []" using False b by (auto simp: block_size_def)
    have "xor_key_stream blk iv (?h @ ?t) = map2 (XOR) (take block_size (?h @ ?t)) (blk iv) @
        xor_key_stream blk (inc_be iv) (drop block_size (?h @ ?t))"
      by (subst xor_key_stream.simps) (rule if_not_P [OF ne])
    then have "xor_key_stream blk iv (?h @ ?t) =
        map2 (XOR) ?h (blk iv) @ xor_key_stream blk (inc_be iv) ?t"
      unfolding td .
    moreover have "map2 (XOR) ?h (blk iv) = take block_size xs"
      using b by (intro map2_xor_twice) simp
    ultimately show ?thesis using "1.IH" [OF False "1.prems"] by (simp only: e append_take_drop_id)
  qed simp
qed

text \<open>Counter mode is a stream: a truncated ciphertext decrypts to the truncated plaintext.\<close>

lemma xor_key_stream_take:
  "is_block blk \<Longrightarrow> take n (xor_key_stream blk iv xs) = xor_key_stream blk iv (take n xs)"
proof (induction blk iv xs arbitrary: n rule: xor_key_stream.induct)
  case (1 blk iv xs)
  show ?case
  proof (cases "xs = [] \<or> n = 0")
    case False
    have b: "length (blk iv) = block_size" using 1 by (simp add: is_block_def)
    show ?thesis
      using False 1 b
      by (subst (1 2) xor_key_stream.simps)
        (auto simp: take_map take_zip min_def drop_take map2_take)
  qed auto
qed

section \<open>The packet connection\<close>

definition salt_size :: nat where "salt_size = 8"
definition pkt_hdr_size :: nat where "pkt_hdr_size = 2"
definition pkt_overhead :: nat where "pkt_overhead = salt_size + pkt_hdr_size"
definition max_datagram :: nat where "max_datagram = 65535"
definition max_pkt_data :: nat where "max_pkt_data = max_datagram - pkt_overhead"

lemmas pkt_consts = salt_size_def pkt_hdr_size_def pkt_overhead_def max_datagram_def max_pkt_data_def

datatype packet_err = ErrShortPacket | ErrPacketLen | ErrPacketBig | BaseErr io_err

record 'r packet_policy =
  pkt_key :: bytes
  pkt_pad :: "('r \<Rightarrow> int \<times> 'r) option"
  pkt_fill :: "'r fill_func option"

record 'r packet_conn =
  block :: "bytes \<Rightarrow> bytes"
  pad :: "('r \<Rightarrow> int \<times> 'r) option"
  pfill :: "'r fill_func"

text \<open>
  \<open>WrapPacket\<close>: \<open>None\<close> is the base, returned unchanged. \<open>sha256\<close> is \<open>sha256.Sum256\<close>,
  \<open>aes key\<close> the block function of \<open>aes.NewCipher(key)\<close>, \<open>rf\<close> is \<open>RandomFill\<close>.
\<close>

definition wrap_packet ::
  "(bytes \<Rightarrow> bytes) \<Rightarrow> (bytes \<Rightarrow> bytes \<Rightarrow> bytes) \<Rightarrow> 'r fill_func \<Rightarrow> 'r packet_policy \<Rightarrow>
   'r packet_conn option" where
  "wrap_packet sha256 aes rf p =
     (if length (pkt_key p) = 0 then None
      else let total = sha256 (pkt_key p);
               fl = (case pkt_fill p of None \<Rightarrow> rf | Some f \<Rightarrow> f)
           in Some \<lparr>block = aes total, pad = pkt_pad p, pfill = fl\<rparr>)"

definition stream_xor :: "'r packet_conn \<Rightarrow> bytes \<Rightarrow> bytes \<Rightarrow> bytes" where
  "stream_xor c salt frame = xor_key_stream (block c) (take block_size (salt @ replicate block_size 0)) frame"

text \<open>The length of the encrypted frame: header and payload, or the sampled size if larger.\<close>

definition frame_length :: "'r packet_conn \<Rightarrow> nat \<Rightarrow> 'r \<Rightarrow> nat \<times> 'r" where
  "frame_length c len_p r =
     (let frame_len = pkt_hdr_size + len_p in
      case pad c of
        None \<Rightarrow> (frame_len, r)
      | Some f \<Rightarrow>
          let (s, r1) = f r in
          if s > int frame_len then
            (nat (if s > int max_datagram then int max_datagram else s), r1)
          else (frame_len, r1))"

text \<open>
  \<open>WriteTo\<close>: \<open>draw\<close> is the outcome of \<open>rand.Read(salt)\<close>, \<open>res\<close> the error of the base's
  \<open>WriteTo\<close>. The result is the count and error, the datagram handed to the base, if any, and
  the state of the samplers.
\<close>

definition write_to ::
  "'r packet_conn \<Rightarrow> bytes \<Rightarrow> io_err + bytes \<Rightarrow> io_err option \<Rightarrow> 'r \<Rightarrow>
   (nat \<times> packet_err option) \<times> bytes option \<times> 'r" where
  "write_to c p draw res r =
     (if length p > max_pkt_data then ((0, Some ErrPacketBig), None, r)
      else let (frame_len, r1) = frame_length c (length p) r in
        case draw of
          Inl e \<Rightarrow> ((0, Some (BaseErr e)), None, r1)
        | Inr salt \<Rightarrow>
            let (padding, r2) = pfill c (frame_len - pkt_hdr_size - length p) r1;
                frame = put_uint16 (to_uint16 (length p)) @ p @ padding;
                datagram = salt @ stream_xor c salt frame
            in case res of
                 Some e \<Rightarrow> ((0, Some (BaseErr e)), Some datagram, r2)
               | None \<Rightarrow> ((length p, None), Some datagram, r2))"

text \<open>
  \<open>ReadFrom\<close> into a slice of length \<open>len_p\<close>, with the pooled buffer \<open>buf\<close>. The base returns
  an error or a datagram, of which it stores what fits; \<open>None\<close> is a panic. The buffer goes back
  to the pool as it is.
\<close>

definition base_read_from :: "io_err + bytes \<Rightarrow> bytes \<Rightarrow> io_err + (nat \<times> bytes)" where
  "base_read_from arrival buf =
     (case arrival of
        Inl e \<Rightarrow> Inl e
      | Inr d \<Rightarrow> (let n = min (length d) (length buf) in Inr (n, take n d @ drop n buf)))"

definition read_from ::
  "'r packet_conn \<Rightarrow> nat \<Rightarrow> io_err + bytes \<Rightarrow> bytes \<Rightarrow>
   ((bytes \<times> packet_err option) \<times> bytes) option" where
  "read_from c len_p arrival buf =
     (case base_read_from arrival buf of
        Inl e \<Rightarrow> Some (([], Some (BaseErr e)), buf)
      | Inr (n, buf) \<Rightarrow>
          if n < pkt_overhead then Some (([], Some ErrShortPacket), buf)
          else do {
            salt \<leftarrow> go_slice buf 0 salt_size;
            frame \<leftarrow> go_slice buf salt_size n;
            let frame = stream_xor c salt frame;
            let buf = salt @ frame @ drop n buf;
            hdr \<leftarrow> go_slice frame 0 pkt_hdr_size;
            v \<leftarrow> get_uint16 hdr;
            let real_len = unat v;
            (if real_len > length frame - pkt_hdr_size then Some (([], Some ErrPacketLen), buf)
             else do {
               d \<leftarrow> go_slice frame pkt_hdr_size (pkt_hdr_size + real_len);
               Some ((take len_p d, None), buf) }) })"

definition packet_wf :: "'r packet_conn \<Rightarrow> bool" where
  "packet_wf c \<longleftrightarrow> is_block (block c) \<and> filler (pfill c)"

section \<open>What a datagram means\<close>

text \<open>The abstract decoder: the payload of a datagram, without buffers.\<close>

definition decode_packet :: "'r packet_conn \<Rightarrow> bytes \<Rightarrow> packet_err + bytes" where
  "decode_packet c d =
     (if length d < 10 then Inl ErrShortPacket
      else let f = stream_xor c (take 8 d) (drop 8 d); n = be16 (f ! 0) (f ! 1)
           in if length f < 2 + n then Inl ErrPacketLen else Inr (take n (drop 2 f)))"

lemma length_stream_xor [simp]: "packet_wf c \<Longrightarrow> length (stream_xor c salt f) = length f"
  by (simp add: stream_xor_def packet_wf_def)

lemma stream_xor_twice: "packet_wf c \<Longrightarrow> stream_xor c salt (stream_xor c salt f) = f"
  by (simp add: stream_xor_def packet_wf_def xor_key_stream_twice)

lemma stream_xor_take: "packet_wf c \<Longrightarrow> take n (stream_xor c salt f) = stream_xor c salt (take n f)"
  by (simp add: stream_xor_def packet_wf_def xor_key_stream_take)

lemma get_uint16_nth: "2 \<le> length f \<Longrightarrow> get_uint16 (take 2 f) = Some v \<Longrightarrow> unat v = be16 (f ! 0) (f ! 1)"
  by (drule get_uint16_be16) simp

lemma read_from_decode:
  assumes "packet_wf c" "length buf = max_datagram"
  shows "\<exists>buf'. length buf' = max_datagram \<and>
    read_from c k (Inr d) buf = Some (case decode_packet c (take max_datagram d) of
      Inl e \<Rightarrow> ([], Some e) | Inr x \<Rightarrow> (take k x, None), buf')"
proof -
  define n b d' where nbd: "n = min (length d) max_datagram" "b = take n d @ drop n buf"
    "d' = take max_datagram d"
  have d': "d' = take max_datagram d" "length d' = n"
    and b: "length b = max_datagram" "take n b = d'" "n \<le> max_datagram"
    and base: "base_read_from (Inr d) buf = Inr (n, b)"
    using assms(2) by (auto simp: nbd base_read_from_def Let_def min_def)
  show ?thesis
  proof (cases "n < 10")
    case True
    then show ?thesis
      using b d' base by (intro exI [of _ b]) (simp add: read_from_def decode_packet_def pkt_consts)
  next
    case False
    define f where "f = stream_xor c (take 8 d') (drop 8 d')"
    define m where "m = be16 (f ! 0) (f ! 1)"
    have lf: "length f = n - 8" using assms(1) d' by (simp add: f_def)
    have sl: "go_slice b 0 8 = Some (take 8 d')" "go_slice b 8 n = Some (drop 8 d')"
      using False b by (auto simp: go_slice_def drop_take min_def)
    obtain v where v: "get_uint16 (take 2 f) = Some v"
      using get_uint16_Some [of "take 2 f"] lf False by auto
    then have m: "unat v = m" unfolding m_def using lf False by (intro get_uint16_nth) auto
    have hdr: "go_slice f 0 2 = Some (take 2 f)" using lf False by (simp add: go_slice_def)
    let ?b = "take 8 d' @ f @ drop n b"
    have rd: "read_from c k (Inr d) buf =
        (if m > length f - 2 then Some (([], Some ErrPacketLen), ?b)
         else do { x \<leftarrow> go_slice f 2 (2 + m); Some ((take k x, None), ?b) })"
      using False by (simp only: read_from_def base sum.case prod.case pkt_consts sl bind.bind_lunit
        Let_def f_def [symmetric] hdr v m) simp
    have dec: "decode_packet c d' = (if length f < 2 + m then Inl ErrPacketLen else Inr (take m (drop 2 f)))"
      using False d' by (simp add: decode_packet_def f_def m_def Let_def)
    have "length ?b = max_datagram" using b d' lf False by simp
    moreover have "length f < 2 + m \<longleftrightarrow> m > length f - 2" using lf False by auto
    ultimately show ?thesis
      unfolding d'(1) [symmetric] rd dec by (intro exI [of _ ?b]) (auto simp: go_slice_def)
  qed
qed

lemma frame_length_ge:
  "frame_length c m r = (n, r') \<Longrightarrow> m \<le> max_pkt_data \<Longrightarrow> pkt_hdr_size + m \<le> n"
  by (auto simp: frame_length_def Let_def pkt_consts split: option.splits prod.splits if_splits)

text \<open>What \<open>WriteTo\<close> hands to the base: salt and encrypted frame of the chosen length.\<close>

lemma write_to_datagram:
  assumes "packet_wf c" "write_to c p (Inr salt) res r = (x, Some w, r')"
  obtains padding r1 where
    "w = salt @ stream_xor c salt (put_uint16 (to_uint16 (length p)) @ p @ padding)"
    "frame_length c (length p) r = (2 + length p + length padding, r1)" "length p \<le> 65525"
    "x = (case res of None \<Rightarrow> (length p, None) | Some e \<Rightarrow> (0, Some (BaseErr e)))"
proof -
  obtain m r1 where m: "frame_length c (length p) r = (m, r1)" by force
  obtain padding r2 where pd: "pfill c (m - pkt_hdr_size - length p) r1 = (padding, r2)" by force
  have "length padding = m - pkt_hdr_size - length p"
    using assms(1) pd filler.fill_whole by (fastforce simp: packet_wf_def)
  moreover have "length p \<le> max_pkt_data" using assms(2) by (auto simp: write_to_def split: if_splits)
  ultimately have "m = 2 + length p + length padding"
    using frame_length_ge [OF m] by (simp add: pkt_consts)
  with m pd assms(2) show ?thesis
    by (intro that [of padding r1])
      (auto simp: write_to_def Let_def pkt_consts split: if_splits option.splits)
qed

lemma decode_written:
  assumes "packet_wf c" "length salt = 8" "length p \<le> 65525" "10 + length p \<le> n"
    and "w = salt @ stream_xor c salt (put_uint16 (to_uint16 (length p)) @ p @ padding)"
  shows "decode_packet c (take n w) = Inr p"
proof -
  let ?f = "put_uint16 (to_uint16 (length p)) @ p @ take (n - 10 - length p) padding"
  have "take n w = salt @ stream_xor c salt ?f"
    using assms by (simp add: stream_xor_take)
  moreover have "be16 (?f ! 0) (?f ! 1) = length p"
    using assms(3) by (simp add: put_uint16_def)
  ultimately show ?thesis
    using assms by (simp add: decode_packet_def stream_xor_twice)
qed

section \<open>Properties\<close>

text \<open>
  C38. Reading refines the abstract decoder: whatever datagram arrives and whatever an earlier
  datagram left in the pooled buffer, \<open>ReadFrom\<close> does not panic, it returns the decoded payload
  cut to the caller's slice, or the decoder's error and nothing, and it leaves the pooled buffer at
  its length.
\<close>

theorem packet_read_refines:
  assumes "packet_wf c" and "length buf = max_datagram"
  shows "\<exists>buf'. length buf' = max_datagram \<and>
    read_from c k (Inr d) buf = Some (case decode_packet c (take max_datagram d) of
      Inl e \<Rightarrow> ([], Some e) | Inr x \<Rightarrow> (take k x, None), buf')"
  by (rule read_from_decode [OF assms])

text \<open>
  C14. Round trip: a peer with the same key gets exactly the payload of every datagram
  \<open>WriteTo\<close> has handed to its base, whatever salt, sampled size and padding were drawn, into any
  slice that is long enough, also when the datagram is longer than the read buffer.
\<close>

theorem packet_round_trip:
  assumes "\<forall>key. is_block (aes key)"
    and "wrap_packet sha256 aes rf pol = Some c" and "wrap_packet sha256 aes rf pol' = Some c'"
    and "pkt_key pol' = pkt_key pol" and "filler (pfill c)" and "filler (pfill c')"
    and "length salt = salt_size" and "write_to c p (Inr salt) res r = (x, Some w, r')"
    and "length buf = max_datagram" and "length p \<le> k"
  shows "\<exists>buf'. read_from c' k (Inr w) buf = Some ((p, None), buf')"
proof -
  have wf: "packet_wf c" "packet_wf c'" and blk: "block c' = block c"
    using assms(1-6) by (auto simp: wrap_packet_def packet_wf_def Let_def split: if_splits)
  obtain padding r1 where
    w: "w = salt @ stream_xor c salt (put_uint16 (to_uint16 (length p)) @ p @ padding)"
    and p: "length p \<le> 65525" by (rule write_to_datagram [OF wf(1) assms(8)])
  have "stream_xor c' = stream_xor c" by (simp add: stream_xor_def fun_eq_iff blk)
  then have "decode_packet c' (take max_datagram w) = Inr p"
    using decode_written [OF wf(2) _ p _ w [folded \<open>stream_xor c' = stream_xor c\<close>]] assms(7) p
    by (simp add: pkt_consts)
  with read_from_decode [OF wf(2) assms(9), of k w] assms(10) show ?thesis by auto
qed

text \<open>
  Sizes on the wire: a payload of at most 65525 bytes is sent in a datagram of exactly
  8 bytes more than the larger of the plain frame and the sampled size cut to 65535; a longer one
  is refused without sending. So a sampled size is exceeded by the 8 bytes of the salt, and a
  sample above 65527 gives a datagram longer than the buffer the peer reads into.
\<close>

theorem packet_sizes:
  assumes "packet_wf c" and "pad c = Some f" and "f r = (s, r1)" and "length salt = salt_size"
    and "write_to c p (Inr salt) None r = (x, out, r')"
  shows "if max_pkt_data < length p then x = (0, Some ErrPacketBig) \<and> out = None
    else x = (length p, None) \<and> (\<exists>w. out = Some w \<and>
      int (length w) = 8 + max (2 + int (length p)) (min s 65535))"
proof (cases "max_pkt_data < length p")
  case True
  then show ?thesis using assms(5) by (simp add: write_to_def)
next
  case False
  with assms(5) obtain w where o: "out = Some w"
    by (auto simp: write_to_def Let_def split: prod.splits)
  obtain padding r2 where
    w: "w = salt @ stream_xor c salt (put_uint16 (to_uint16 (length p)) @ p @ padding)"
    and fl: "frame_length c (length p) r = (2 + length p + length padding, r2)"
    and p: "length p \<le> 65525" and x: "x = (length p, None)"
    using write_to_datagram [OF assms(1) assms(5) [unfolded o]] by auto
  from fl p assms(2,3) have "int (2 + length p + length padding) = max (2 + int (length p)) (min s 65535)"
    by (auto simp: frame_length_def Let_def pkt_consts split: if_splits)
  then show ?thesis using False assms(1,4) by (simp add: o w x pkt_consts)
qed

section \<open>A concrete key stream\<close>

definition key7 :: "unit packet_conn" where
  "key7 = \<lparr>block = (\<lambda>iv. map ((+) 7) (take block_size (iv @ replicate block_size 0))),
     pad = Some (\<lambda>r. (30, r)), pfill = zero_fill\<rparr>"

lemma key7_wf: "packet_wf key7"
  by (auto simp: packet_wf_def key7_def is_block_def zero_filler.filler_axioms min_def)

definition salt7 :: bytes where "salt7 = [1, 2, 3, 4, 5, 6, 7, 8]"

lemma key7_written: "\<exists>w. write_to key7 [10, 20, 30] (Inr salt7) None () = ((3, None), Some w, ())"
  by (simp add: write_to_def key7_def pkt_consts frame_length_def Let_def zero_fill_def)

theorem packet_read_refines_witness:
  "\<exists>buf'. read_from key7 5 (Inr [1, 2, 3]) (replicate 65535 9) = Some (([], Some ErrShortPacket), buf')"
  using packet_read_refines [OF key7_wf, of "replicate 65535 9" 5 "[1, 2, 3]"]
  by (auto simp: decode_packet_def max_datagram_def)

theorem packet_round_trip_witness:
  "\<exists>w buf'. write_to key7 [10, 20, 30] (Inr salt7) None () = ((3, None), Some w, ()) \<and>
     read_from key7 100 (Inr w) (replicate 65535 9) = Some (([10, 20, 30], None), buf')"
proof -
  let ?aes = "\<lambda>key. block key7" and ?pol = "\<lparr>pkt_key = [1], pkt_pad = pad key7, pkt_fill = None\<rparr>"
  obtain w where w: "write_to key7 [10, 20, 30] (Inr salt7) None () = ((3, None), Some w, ())"
    using key7_written by blast
  have "wrap_packet rev ?aes zero_fill ?pol = Some key7" "filler (pfill key7)"
    "is_block (block key7)" "length salt7 = salt_size"
    using key7_wf by (simp_all add: wrap_packet_def key7_def packet_wf_def salt7_def pkt_consts)
  with packet_round_trip [of ?aes rev zero_fill ?pol key7 ?pol key7, OF _ _ _ _ _ _ _ w, of "replicate 65535 9" 100]
  have "\<exists>buf'. read_from key7 100 (Inr w) (replicate 65535 9) = Some (([10, 20, 30], None), buf')"
    by (simp add: pkt_consts)
  with w show ?thesis by blast
qed

theorem packet_sizes_witness:
  "\<exists>w. write_to key7 [10, 20, 30] (Inr salt7) None () = ((3, None), Some w, ()) \<and> length w = 38"
proof -
  obtain w where w: "write_to key7 [10, 20, 30] (Inr salt7) None () = ((3, None), Some w, ())"
    using key7_written by blast
  from packet_sizes [OF key7_wf _ _ _ w, of "\<lambda>r. (30, r)" 30 "()"] w show ?thesis
    by (simp add: key7_def salt7_def pkt_consts)
qed

end
