(* ===== verification/Client_Hello.thy ===== *)
theory Client_Hello
  imports Go_Prelude
begin

text \<open>
  The ClientHello parser of \<open>xreality/clienthello.go\<close>. Every index and slice expression of the
  source is a partial operation here, and \<open>None\<close> is the panic it would raise; that the parser
  never panics is a theorem, not a convention.
\<close>

section \<open>Fields\<close>

text \<open>\<open>int(p[i])<<8 | int(p[i+1])\<close>.\<close>

definition u16_at :: "bytes \<Rightarrow> nat \<Rightarrow> nat option" where
  "u16_at p i = do { a \<leftarrow> idx p i; b \<leftarrow> idx p (i + 1); Some (be16 a b) }"

text \<open>\<open>int(b[1])<<16 | int(b[2])<<8 | int(b[3])\<close>.\<close>

definition be24 :: "byte \<Rightarrow> byte \<Rightarrow> byte \<Rightarrow> nat" where
  "be24 a b c = (push_bit 16 (unat a) OR push_bit 8 (unat b)) OR unat c"

definition take8 :: "bytes \<Rightarrow> (bytes option \<times> bytes \<times> bool) option" where
  "take8 p =
     (if length p < 1 then Some (None, p, False)
      else do {
        b \<leftarrow> idx p 0;
        let n = unat b;
        (if length p < 1 + n then Some (None, p, False)
         else do {
           field \<leftarrow> go_slice p 1 (1 + n);
           rest \<leftarrow> slice_to_end p (1 + n);
           Some (Some field, rest, True) }) })"

definition take16 :: "bytes \<Rightarrow> (bytes option \<times> bytes \<times> bool) option" where
  "take16 p =
     (if length p < 2 then Some (None, p, False)
      else do {
        n \<leftarrow> u16_at p 0;
        (if length p < 2 + n then Some (None, p, False)
         else do {
           field \<leftarrow> go_slice p 2 (2 + n);
           rest \<leftarrow> slice_to_end p (2 + n);
           Some (Some field, rest, True) }) })"

lemma u16_at_Some: "Suc i < length p \<Longrightarrow> u16_at p i = Some (be16 (p ! i) (p ! Suc i))"
  by (simp add: u16_at_def idx_def)

lemma u16_at_fixed [go_simps]:
  "2 \<le> length p \<Longrightarrow> u16_at p 0 = Some (be16 (p ! 0) (p ! 1))"
  "3 \<le> length p \<Longrightarrow> u16_at p (Suc 0) = Some (be16 (p ! 1) (p ! 2))"
  "4 \<le> length p \<Longrightarrow> u16_at p 2 = Some (be16 (p ! 2) (p ! 3))"
  "5 \<le> length p \<Longrightarrow> u16_at p 3 = Some (be16 (p ! 3) (p ! 4))"
  by (simp_all add: u16_at_Some numeral_eq_Suc)

lemma idx_fixed [go_simps]:
  "1 \<le> length p \<Longrightarrow> idx p 0 = Some (p ! 0)" "3 \<le> length p \<Longrightarrow> idx p 0 = Some (p ! 0)"
  by (cases p; simp add: idx_def)+

lemma take8_eq:
  "take8 p = Some (if p = [] \<or> length p < 1 + unat (hd p) then (None, p, False)
     else (Some (take (unat (hd p)) (tl p)), drop (unat (hd p)) (tl p), True))"
  by (cases p) (auto simp: take8_def idx_def go_simps Let_def)

lemma take16_eq:
  "take16 p = Some (if length p < 2 \<or> length p < 2 + be16 (p ! 0) (p ! 1) then (None, p, False)
     else (Some (take (be16 (p ! 0) (p ! 1)) (drop 2 p)), drop (2 + be16 (p ! 0) (p ! 1)) p, True))"
  by (auto simp: take16_def go_simps)

section \<open>Extensions\<close>

text \<open>The loop of \<open>parseSNI\<close> over the ServerNameList; an absent name is the empty string.\<close>

function sni_loop :: "bytes \<Rightarrow> bytes option" where
  "sni_loop l =
     (if length l \<ge> 3 then do {
        name_type \<leftarrow> idx l 0;
        nl \<leftarrow> u16_at l 1;
        l \<leftarrow> slice_to_end l 3;
        (if length l < nl then Some []
         else if name_type = 0 then go_slice l 0 nl
         else do { l \<leftarrow> slice_to_end l nl; sni_loop l }) }
      else Some [])"
  by pat_completeness auto
termination sni_loop
  by (relation "measure length") (auto dest!: slice_to_end_length)

declare sni_loop.simps [simp del]

definition parse_sni :: "bytes \<Rightarrow> bytes option" where
  "parse_sni ext = do {
     (l, rest, ok) \<leftarrow> take16 ext;
     (if \<not> ok then Some [] else case l of Some list \<Rightarrow> sni_loop list | None \<Rightarrow> None) }"

text \<open>The loop of \<open>parseKeyShareX25519\<close>; \<open>None\<close> inside is the \<open>nil\<close> result.\<close>

function share_loop :: "bytes \<Rightarrow> bytes option option" where
  "share_loop shares =
     (if length shares \<ge> 4 then do {
        group \<leftarrow> u16_at shares 0;
        dl \<leftarrow> u16_at shares 2;
        shares \<leftarrow> slice_to_end shares 4;
        (if length shares < dl then Some None
         else do {
           data \<leftarrow> go_slice shares 0 dl;
           shares \<leftarrow> slice_to_end shares dl;
           (if group = 0x1d \<and> length data = 32 then Some (Some data) else share_loop shares) }) }
      else Some None)"
  by pat_completeness auto
termination share_loop
  by (relation "measure length") (auto dest!: slice_to_end_length)

declare share_loop.simps [simp del]

definition parse_key_share_x25519 :: "bytes \<Rightarrow> bytes option option" where
  "parse_key_share_x25519 ext = do {
     (l, rest, ok) \<leftarrow> take16 ext;
     (if \<not> ok then Some None else case l of Some shares \<Rightarrow> share_loop shares | None \<Rightarrow> None) }"

section \<open>The hello\<close>

datatype hello_err = ErrNotTLS | ErrBadHello

record hello_info =
  hrandom :: bytes
  session_id :: bytes
  server_name :: bytes
  x25519 :: "bytes option"

definition empty_info :: hello_info where
  "empty_info = \<lparr>hrandom = [], session_id = [], server_name = [], x25519 = None\<rparr>"

text \<open>The loop over the extensions; what was read before an error is part of the result.\<close>

function ext_loop :: "hello_info \<Rightarrow> bytes \<Rightarrow> (hello_info \<times> hello_err option) option" where
  "ext_loop info ext =
     (if length ext \<ge> 4 then do {
        etype \<leftarrow> u16_at ext 0;
        l \<leftarrow> u16_at ext 2;
        ext \<leftarrow> slice_to_end ext 4;
        (if length ext < l then Some (info, Some ErrBadHello)
         else do {
           body \<leftarrow> go_slice ext 0 l;
           ext \<leftarrow> slice_to_end ext l;
           info \<leftarrow>
             (if etype = 0 then map_option (\<lambda>n. info\<lparr>server_name := n\<rparr>) (parse_sni body)
              else if etype = 0x33 then
                map_option (\<lambda>k. info\<lparr>x25519 := k\<rparr>) (parse_key_share_x25519 body)
              else Some info);
           ext_loop info ext }) }
      else Some (info, None))"
  by pat_completeness auto
termination ext_loop
  by (relation "measure (\<lambda>(info, ext). length ext)") (auto dest!: slice_to_end_length)

declare ext_loop.simps [simp del]

text \<open>The part after the random: session id, cipher suites, compression methods, extensions.\<close>

definition parse_tail :: "hello_info \<Rightarrow> bytes \<Rightarrow> (hello_info \<times> hello_err option) option" where
  "parse_tail info p = do {
     (sid, p, ok) \<leftarrow> take8 p;
     (if \<not> ok then Some (info, Some ErrBadHello)
      else do {
        let info = info\<lparr>session_id := (case sid of None \<Rightarrow> [] | Some b \<Rightarrow> b)\<rparr>;
        (_, p, ok) \<leftarrow> take16 p;
        (if \<not> ok then Some (info, Some ErrBadHello)
         else do {
           (_, p, ok) \<leftarrow> take8 p;
           (if \<not> ok then Some (info, Some ErrBadHello)
            else if length p < 2 then Some (info, None)
            else do {
              ext_len \<leftarrow> u16_at p 0;
              p \<leftarrow> slice_to_end p 2;
              (if length p < ext_len then Some (info, Some ErrBadHello)
               else do { ext \<leftarrow> go_slice p 0 ext_len; ext_loop info ext }) }) }) }) }"

text \<open>The handshake message in the record, and the record around it.\<close>

definition parse_handshake :: "hello_info \<Rightarrow> bytes \<Rightarrow> (hello_info \<times> hello_err option) option" where
  "parse_handshake info b = do {
     t \<leftarrow> idx b 0;
     (if t \<noteq> 1 then Some (info, Some ErrBadHello)
      else do {
        b1 \<leftarrow> idx b 1; b2 \<leftarrow> idx b 2; b3 \<leftarrow> idx b 3;
        let hs_len = be24 b1 b2 b3;
        body \<leftarrow> slice_to_end b 4;
        (if hs_len > length body then Some (info, Some ErrBadHello)
         else do {
           p \<leftarrow> go_slice body 0 hs_len;
           (if length p < 34 then Some (info, Some ErrBadHello)
            else do {
              rnd \<leftarrow> go_slice p 2 34;
              p \<leftarrow> slice_to_end p 34;
              parse_tail (info\<lparr>hrandom := rnd\<rparr>) p }) }) }) }"

definition parse_client_hello :: "bytes \<Rightarrow> (hello_info \<times> hello_err option) option" where
  "parse_client_hello rec =
     (let info = empty_info in
      if length rec < 5 then Some (info, Some ErrNotTLS)
      else do {
        b0 \<leftarrow> idx rec 0;
        (if b0 \<noteq> 0x16 then Some (info, Some ErrNotTLS)
         else do {
           rec_len \<leftarrow> u16_at rec 3;
           (if rec_len < 4 \<or> 5 + rec_len > length rec then Some (info, Some ErrBadHello)
            else do { b \<leftarrow> go_slice rec 5 (5 + rec_len); parse_handshake info b }) }) })"

section \<open>No panic\<close>

text \<open>One turn of each loop, with the indices in range.\<close>

lemma sni_loop_step:
  "3 \<le> length l \<Longrightarrow> sni_loop l =
     (let nl = be16 (l ! 1) (l ! 2); l' = drop 3 l in
      if length l' < nl then Some []
      else if l ! 0 = 0 then Some (take nl l') else sni_loop (drop nl l'))"
  by (subst sni_loop.simps) (simp add: go_simps Let_def)

lemma share_loop_step:
  "4 \<le> length s \<Longrightarrow> share_loop s =
     (let dl = be16 (s ! 2) (s ! 3); s' = drop 4 s in
      if length s' < dl then Some None
      else if be16 (s ! 0) (s ! 1) = 0x1d \<and> dl = 32 then Some (Some (take dl s'))
      else share_loop (drop dl s'))"
  by (subst share_loop.simps) (simp add: go_simps Let_def)

lemma sni_loop_short: "length l < 3 \<Longrightarrow> sni_loop l = Some []"
  by (subst sni_loop.simps) simp

lemma share_loop_short: "length l < 4 \<Longrightarrow> share_loop l = Some None"
  by (subst share_loop.simps) simp

lemma sni_loop_total: "\<exists>n. sni_loop l = Some n"
proof (induction "length l" arbitrary: l rule: less_induct)
  case less
  then show ?case
    by (cases "3 \<le> length l") (auto simp: sni_loop_step sni_loop_short Let_def)
qed

lemma share_loop_total: "\<exists>k. share_loop l = Some k \<and> (\<forall>d. k = Some d \<longrightarrow> length d = 32)"
proof (induction "length l" arbitrary: l rule: less_induct)
  case less
  then show ?case
    by (cases "4 \<le> length l") (auto simp: share_loop_step share_loop_short Let_def)
qed

lemma parse_sni_total: "\<exists>n. parse_sni e = Some n"
  using sni_loop_total by (auto simp: parse_sni_def take16_eq)

lemma parse_key_share_total:
  "\<exists>k. parse_key_share_x25519 e = Some k \<and> (\<forall>d. k = Some d \<longrightarrow> length d = 32)"
  using share_loop_total by (auto simp: parse_key_share_x25519_def take16_eq)

text \<open>The effect of one extension on what has been read so far.\<close>

definition apply_ext :: "nat \<Rightarrow> bytes \<Rightarrow> hello_info \<Rightarrow> hello_info" where
  "apply_ext t body info =
     (if t = 0 then info\<lparr>server_name := the (parse_sni body)\<rparr>
      else if t = 0x33 then info\<lparr>x25519 := the (parse_key_share_x25519 body)\<rparr>
      else info)"

lemma ext_loop_step:
  "4 \<le> length e \<Longrightarrow> ext_loop info e =
     (let t = be16 (e ! 0) (e ! 1); l = be16 (e ! 2) (e ! 3); e' = drop 4 e in
      if length e' < l then Some (info, Some ErrBadHello)
      else ext_loop (apply_ext t (take l e') info) (drop l e'))"
  using parse_sni_total [of "take (be16 (e ! 2) (e ! 3)) (drop 4 e)"]
    parse_key_share_total [of "take (be16 (e ! 2) (e ! 3)) (drop 4 e)"]
  by (subst ext_loop.simps) (auto simp: go_simps Let_def apply_ext_def)

lemma ext_loop_short: "length l < 4 \<Longrightarrow> ext_loop info l = Some (info, None)"
  by (subst ext_loop.simps) simp

text \<open>What every result of the parser satisfies.\<close>

definition info_ok :: "hello_info \<Rightarrow> bool" where
  "info_ok info \<longleftrightarrow> length (session_id info) \<le> 255 \<and> (\<forall>k. x25519 info = Some k \<longrightarrow> length k = 32)"

lemma apply_ext_keeps:
  "info_ok info \<Longrightarrow> info_ok (apply_ext t b info)"
  "hrandom (apply_ext t b info) = hrandom info"
  using parse_key_share_total [of b] by (auto simp: apply_ext_def info_ok_def)

lemma ext_loop_total:
  "info_ok info \<Longrightarrow> \<exists>info' e. ext_loop info l = Some (info', e) \<and> info_ok info' \<and> hrandom info' = hrandom info"
proof (induction "length l" arbitrary: l info rule: less_induct)
  case less
  show ?case
  proof (cases "4 \<le> length l")
    case True
    let ?t = "be16 (l ! 0) (l ! 1)" and ?n = "be16 (l ! 2) (l ! 3)"
    show ?thesis
      using less.hyps [of "drop ?n (drop 4 l)" "apply_ext ?t (take ?n (drop 4 l)) info"] True less.prems
      by (auto simp: ext_loop_step Let_def apply_ext_keeps)
  qed (use less.prems in \<open>simp add: ext_loop_short\<close>)
qed

lemma parse_tail_total:
  assumes "x25519 info = None"
  shows "\<exists>info' e. parse_tail info p = Some (info', e) \<and> (e = None \<longrightarrow> info_ok info') \<and> hrandom info' = hrandom info"
proof -
  have ok: "info_ok (info\<lparr>session_id := take (unat (b :: byte)) q\<rparr>)" for b q
    using assms unsigned_less [of b, where ?'a = nat] by (auto simp: info_ok_def)
  show ?thesis
    using ext_loop_total [OF ok] by (fastforce simp: parse_tail_def take8_eq take16_eq go_simps Let_def ok)
qed

lemma parse_handshake_total:
  assumes "4 \<le> length b" "x25519 info0 = None"
  shows "\<exists>info e. parse_handshake info0 b = Some (info, e) \<and>
     (e = None \<longrightarrow> length (hrandom info) = 32 \<and> info_ok info)"
proof -
  define h where "h = be24 (b ! 1) (b ! 2) (b ! 3)"
  define q where "q = take h (drop 4 b)"
  have i: "idx b 0 = Some (b ! 0)" "idx b 1 = Some (b ! 1)" "idx b 2 = Some (b ! 2)" "idx b 3 = Some (b ! 3)"
    "slice_to_end b 4 = Some (drop 4 b)"
    using assms(1) by (auto simp: idx_def go_simps)
  obtain info e where t: "parse_tail (info0\<lparr>hrandom := take 32 (drop 2 q)\<rparr>) (drop 34 q) = Some (info, e)"
    "e = None \<longrightarrow> info_ok info" "hrandom info = take 32 (drop 2 q)"
    using parse_tail_total [of "info0\<lparr>hrandom := take 32 (drop 2 q)\<rparr>" "drop 34 q"] assms(2) by auto
  have p: "go_slice (drop 4 b) 0 h = Some q" "length q = h" if "h \<le> length b - 4"
    using assms(1) that by (simp_all add: go_simps q_def)
  show ?thesis
  proof (cases "b ! 0 = 1 \<and> h \<le> length b - 4 \<and> 34 \<le> h")
    case True
    then have "parse_handshake info0 b = Some (info, e)"
      using p i t(1) by (simp add: parse_handshake_def h_def [symmetric, simplified] go_simps Let_def)
    moreover have "length (hrandom info) = 32" using t(3) p(2) True by (auto simp: min_def)
    ultimately show ?thesis using t(2) by simp
  next
    case False
    then show ?thesis using p i by (auto simp: parse_handshake_def h_def [symmetric, simplified] Let_def)
  qed
qed

lemma parse_client_hello_total:
  "\<exists>info e. parse_client_hello rec = Some (info, e) \<and>
     (e = None \<longrightarrow> length (hrandom info) = 32 \<and> info_ok info)"
proof (cases "5 \<le> length rec \<and> 4 \<le> be16 (rec ! 3) (rec ! 4) \<and> 5 + be16 (rec ! 3) (rec ! 4) \<le> length rec")
  case True
  then show ?thesis
    using parse_handshake_total [of "take (be16 (rec ! 3) (rec ! 4)) (drop 5 rec)" empty_info]
    by (auto simp: parse_client_hello_def go_simps Let_def idx_def empty_info_def)
next
  case False
  then show ?thesis by (auto simp: parse_client_hello_def go_simps Let_def idx_def)
qed

text \<open>
  C21. The parser never panics: for every byte string a peer can send it returns, and when it
  returns without an error the random has 32 bytes, the session id at most 255 and a key share
  exactly 32. Whatever it accepts is within the lengths the record announced.
\<close>

theorem hello_never_panics:
  "\<exists>info e. parse_client_hello rec = Some (info, e) \<and>
     (case e of Some _ \<Rightarrow> True
      | None \<Rightarrow> length (hrandom info) = 32 \<and> length (session_id info) \<le> 255 \<and>
          (case x25519 info of None \<Rightarrow> True | Some k \<Rightarrow> length k = 32))"
proof -
  obtain info e where "parse_client_hello rec = Some (info, e)"
    "e = None \<longrightarrow> length (hrandom info) = 32 \<and> info_ok info" using parse_client_hello_total by blast
  then show ?thesis
    by (intro exI [of _ info] exI [of _ e]) (auto simp: info_ok_def split: option.split)
qed

section \<open>Hellos on the wire\<close>

text \<open>
  The message format, from the sender's side: the entries of a server_name and of a key_share
  extension, the other extensions as their type and body.
\<close>

datatype extension =
  ServerName "(byte \<times> bytes) list" | KeyShare "(nat \<times> bytes) list" | OtherExt nat bytes

record hello =
  ch_version :: bytes
  ch_random :: bytes
  ch_session :: bytes
  ch_ciphers :: bytes
  ch_compression :: bytes
  ch_extensions :: "extension list option"

definition enc16 :: "bytes \<Rightarrow> bytes" where
  "enc16 b = put_uint16 (to_uint16 (length b)) @ b"

definition enc8 :: "bytes \<Rightarrow> bytes" where
  "enc8 b = word_of_nat (length b) # b"

definition enc_name :: "byte \<times> bytes \<Rightarrow> bytes" where
  "enc_name n = fst n # enc16 (snd n)"

definition enc_share :: "nat \<times> bytes \<Rightarrow> bytes" where
  "enc_share k = put_uint16 (to_uint16 (fst k)) @ enc16 (snd k)"

fun ext_type :: "extension \<Rightarrow> nat" where
  "ext_type (ServerName ns) = 0"
| "ext_type (KeyShare ks) = 0x33"
| "ext_type (OtherExt t b) = t"

fun ext_body :: "extension \<Rightarrow> bytes" where
  "ext_body (ServerName ns) = enc16 (concat (map enc_name ns))"
| "ext_body (KeyShare ks) = enc16 (concat (map enc_share ks))"
| "ext_body (OtherExt t b) = b"

definition enc_ext :: "extension \<Rightarrow> bytes" where
  "enc_ext x = put_uint16 (to_uint16 (ext_type x)) @ enc16 (ext_body x)"

definition hello_body :: "hello \<Rightarrow> bytes" where
  "hello_body h = ch_version h @ ch_random h @ enc8 (ch_session h) @ enc16 (ch_ciphers h) @
     enc8 (ch_compression h) @
     (case ch_extensions h of None \<Rightarrow> [] | Some es \<Rightarrow> enc16 (concat (map enc_ext es)))"

definition hello_record :: "hello \<Rightarrow> bytes" where
  "hello_record h = [0x16, 3, 1] @ enc16 ([1, 0] @ enc16 (hello_body h))"

text \<open>The lengths fit their fields.\<close>

fun ext_fits :: "extension \<Rightarrow> bool" where
  "ext_fits (ServerName ns) \<longleftrightarrow> length (ext_body (ServerName ns)) < 65536"
| "ext_fits (KeyShare ks) \<longleftrightarrow> length (ext_body (KeyShare ks)) < 65536 \<and> list_all (\<lambda>k. fst k < 65536) ks"
| "ext_fits (OtherExt t b) \<longleftrightarrow> length b < 65536 \<and> t < 65536 \<and> t \<noteq> 0 \<and> t \<noteq> 0x33"

definition hello_fits :: "hello \<Rightarrow> bool" where
  "hello_fits h \<longleftrightarrow> length (ch_version h) = 2 \<and> length (ch_random h) = 32 \<and>
     length (ch_session h) < 256 \<and> length (ch_compression h) < 256 \<and>
     length (hello_body h) + 4 < 65536 \<and>
     (case ch_extensions h of None \<Rightarrow> True | Some es \<Rightarrow> list_all ext_fits es)"

text \<open>What a server is to read: the first host name and the first X25519 share of each list.\<close>

definition host_of :: "(byte \<times> bytes) list \<Rightarrow> bytes" where
  "host_of ns = (case find (\<lambda>n. fst n = 0) ns of None \<Rightarrow> [] | Some n \<Rightarrow> snd n)"

definition share_of :: "(nat \<times> bytes) list \<Rightarrow> bytes option" where
  "share_of ks = map_option snd (find (\<lambda>k. fst k = 0x1d \<and> length (snd k) = 32) ks)"

fun see_ext :: "extension \<Rightarrow> hello_info \<Rightarrow> hello_info" where
  "see_ext (ServerName ns) info = info\<lparr>server_name := host_of ns\<rparr>"
| "see_ext (KeyShare ks) info = info\<lparr>x25519 := share_of ks\<rparr>"
| "see_ext (OtherExt t b) info = info"

definition see_hello :: "hello \<Rightarrow> hello_info" where
  "see_hello h = fold see_ext (case ch_extensions h of None \<Rightarrow> [] | Some es \<Rightarrow> es)
     \<lparr>hrandom = ch_random h, session_id = ch_session h, server_name = [], x25519 = None\<rparr>"

lemma be16_put [simp]:
  "be16 ((put_uint16 v @ xs) ! 0) ((put_uint16 v @ xs) ! Suc 0) = unat v"
  by (simp add: put_uint16_def)

lemma drop2_put [simp]: "drop 2 (put_uint16 v @ xs) = xs"
  by (simp add: put_uint16_def)

lemma length_enc [simp]: "length (enc16 b) = 2 + length b" "length (enc8 b) = 1 + length b"
  by (simp_all add: enc16_def enc8_def)

lemma enc16_parts [simp]:
  "length b < 65536 \<Longrightarrow> be16 (enc16 b ! 0) (enc16 b ! Suc 0) = length b" "drop 2 (enc16 b) = b"
  by (simp_all add: enc16_def)

lemma take16_enc16 [simp]: "length b < 65536 \<Longrightarrow> take16 (enc16 b @ rest) = Some (Some b, rest, True)"
  by (simp add: take16_eq enc16_def)

lemma take8_enc8 [simp]: "length b < 256 \<Longrightarrow> take8 (enc8 b @ rest) = Some (Some b, rest, True)"
  by (simp add: take8_eq enc8_def unat_of_nat)

lemma sni_loop_enc:
  assumes "length (snd n) < 65536"
  shows "sni_loop (enc_name n @ rest) = (if fst n = 0 then Some (snd n) else sni_loop rest)"
proof -
  obtain t nm where n: "n = (t, nm)" by force
  have e: "enc_name n @ rest = [t, ucast (drop_bit 8 (to_uint16 (length nm))), ucast (to_uint16 (length nm))] @ nm @ rest"
    by (simp add: n enc_name_def enc16_def put_uint16_def)
  then show ?thesis
    using assms by (subst sni_loop_step) (simp_all add: n Let_def)
qed

lemma sni_loop_names:
  "list_all (\<lambda>n. length (snd n) < 65536) ns \<Longrightarrow> sni_loop (concat (map enc_name ns)) = Some (host_of ns)"
  by (induction ns) (simp_all add: sni_loop_short sni_loop_enc host_of_def)

lemma share_loop_enc:
  assumes "fst k < 65536" "length (snd k) < 65536"
  shows "share_loop (enc_share k @ rest) =
    (if fst k = 0x1d \<and> length (snd k) = 32 then Some (Some (snd k)) else share_loop rest)"
proof -
  obtain g d where k: "k = (g, d)" by force
  have e: "enc_share k @ rest = [ucast (drop_bit 8 (to_uint16 g)), ucast (to_uint16 g),
      ucast (drop_bit 8 (to_uint16 (length d))), ucast (to_uint16 (length d))] @ d @ rest"
    by (simp add: k enc_share_def enc16_def put_uint16_def)
  then show ?thesis
    using assms by (subst share_loop_step) (simp_all add: k Let_def)
qed

lemma share_loop_shares:
  "list_all (\<lambda>k. fst k < 65536 \<and> length (snd k) < 65536) ks \<Longrightarrow>
   share_loop (concat (map enc_share ks)) = Some (share_of ks)"
  by (induction ks) (simp_all add: share_loop_short share_loop_enc share_of_def)

lemma concat_bound: "x \<in> set xs \<Longrightarrow> length (f x) \<le> length (concat (map f xs))"
  by (induction xs) auto

lemma names_fit:
  "ext_fits (ServerName ns) \<Longrightarrow> list_all (\<lambda>n. length (snd n) < 65536) ns"
  using concat_bound [of _ ns enc_name] by (fastforce simp: list_all_iff enc_name_def)

lemma shares_fit:
  "ext_fits (KeyShare ks) \<Longrightarrow> list_all (\<lambda>k. fst k < 65536 \<and> length (snd k) < 65536) ks"
  using concat_bound [of _ ks enc_share] by (fastforce simp: list_all_iff enc_share_def)

lemma apply_ext_see: "ext_fits x \<Longrightarrow> apply_ext (ext_type x) (ext_body x) info = see_ext x info"
proof (cases x)
  case (ServerName ns)
  assume "ext_fits x"
  with ServerName names_fit [of ns] sni_loop_names [of ns] take16_enc16 [of "concat (map enc_name ns)" "[]"]
  show ?thesis by (simp add: apply_ext_def parse_sni_def)
next
  case (KeyShare ks)
  assume "ext_fits x"
  with KeyShare shares_fit [of ks] share_loop_shares [of ks] take16_enc16 [of "concat (map enc_share ks)" "[]"]
  show ?thesis by (simp add: apply_ext_def parse_key_share_x25519_def)
next
  case (OtherExt t b)
  assume "ext_fits x"
  with OtherExt show ?thesis by (simp add: apply_ext_def)
qed

lemma ext_fits_bounds: "ext_fits x \<Longrightarrow> ext_type x < 65536 \<and> length (ext_body x) < 65536"
  by (cases x) auto

lemma ext_loop_enc:
  assumes "ext_fits x"
  shows "ext_loop info (enc_ext x @ rest) = ext_loop (see_ext x info) rest"
proof -
  have e: "enc_ext x @ rest = [ucast (drop_bit 8 (to_uint16 (ext_type x))), ucast (to_uint16 (ext_type x)),
      ucast (drop_bit 8 (to_uint16 (length (ext_body x)))), ucast (to_uint16 (length (ext_body x)))] @
      ext_body x @ rest"
    by (simp add: enc_ext_def enc16_def put_uint16_def)
  then show ?thesis
    using ext_fits_bounds [OF assms] apply_ext_see [OF assms]
    by (subst ext_loop_step) (simp_all add: Let_def)
qed

lemma ext_loop_exts:
  "list_all ext_fits es \<Longrightarrow> ext_loop info (concat (map enc_ext es)) = Some (fold see_ext es info, None)"
  by (induction es arbitrary: info) (simp_all add: ext_loop_short ext_loop_enc)

lemma be24_small: "be24 0 b c = be16 b c"
  by (simp add: be24_def be16_def)

lemma parse_tail_enc:
  assumes "hello_fits h" "info = empty_info\<lparr>hrandom := ch_random h\<rparr>"
  shows "parse_tail info (drop 34 (hello_body h)) = Some (see_hello h, None)"
proof -
  let ?ext = "case ch_extensions h of None \<Rightarrow> [] | Some es \<Rightarrow> enc16 (concat (map enc_ext es))"
  have d: "drop 34 (hello_body h) = enc8 (ch_session h) @ enc16 (ch_ciphers h) @ enc8 (ch_compression h) @ ?ext"
    using assms(1) by (simp add: hello_body_def hello_fits_def)
  have l: "length (ch_ciphers h) < 65536" "length ?ext < 65536"
    using assms(1) by (simp_all add: hello_body_def hello_fits_def)
  show ?thesis
  proof (cases "ch_extensions h")
    case None
    with assms l show ?thesis
      by (simp add: d parse_tail_def Let_def hello_fits_def see_hello_def empty_info_def)
        (use take8_enc8 [of "ch_compression h" "[]"] in simp)
  next
    case (Some es)
    let ?es = "concat (map enc_ext es)"
    have fits: "list_all ext_fits es" "length ?es < 65536" "length (ch_session h) < 256" "length (ch_compression h) < 256"
      using assms(1) l(2) Some by (simp_all add: hello_fits_def)
    have "u16_at (enc16 ?es) 0 = Some (length ?es)" "slice_to_end (enc16 ?es) 2 = Some ?es"
      "go_slice ?es 0 (length ?es) = Some ?es"
      using fits(2) by (simp_all add: go_simps enc16_def)
    with fits l(1) ext_loop_exts [OF fits(1)] Some show ?thesis
      by (simp add: d parse_tail_def Let_def see_hello_def empty_info_def assms(2))
  qed
qed

lemma hello_parsed:
  assumes "hello_fits h"
  shows "parse_client_hello (hello_record h @ rest) = Some (see_hello h, None)"
proof -
  let ?m = "[1, 0] @ enc16 (hello_body h)"
  have m: "length ?m < 65536" "length (hello_body h) < 65536" "34 \<le> length (hello_body h)"
    using assms by (auto simp: hello_fits_def hello_body_def)
  have r: "hello_record h @ rest = [0x16, 3, 1, ucast (drop_bit 8 (to_uint16 (length ?m))),
      ucast (to_uint16 (length ?m))] @ ?m @ rest"
    unfolding hello_record_def enc16_def [of ?m] put_uint16_def by simp
  have rec: "parse_client_hello (hello_record h @ rest) = parse_handshake empty_info ?m"
  proof -
    define mm where "mm = ?m"
    have "5 + length mm \<le> length (hello_record h @ rest)" "4 \<le> length mm"
      by (simp_all add: r mm_def)
    then show ?thesis
      using m(1) unfolding r mm_def [symmetric] by (simp add: parse_client_hello_def go_simps)
  qed
  have rnd: "take 32 (drop 2 (hello_body h)) = ch_random h"
    using assms by (simp add: hello_fits_def hello_body_def)
  have "parse_handshake empty_info ?m =
      parse_tail (empty_info\<lparr>hrandom := ch_random h\<rparr>) (drop 34 (hello_body h))"
    using m(2,3) rnd by (simp add: parse_handshake_def idx_def go_simps be24_small Let_def)
  then show ?thesis
    unfolding rec by (simp only: parse_tail_enc [OF assms refl])
qed

text \<open>
  C20. Round trip: every well-formed ClientHello, whatever its cipher suites, its order of
  extensions and the other extensions and key shares among them, is parsed to its random, its
  session id, its host name and its X25519 share; bytes after the record are ignored.
\<close>

theorem hello_round_trip:
  assumes "hello_fits h"
  shows "parse_client_hello (hello_record h @ rest) = Some (see_hello h, None)"
  by (rule hello_parsed [OF assms])

definition hello7 :: hello where
  "hello7 = \<lparr>ch_version = [3, 3], ch_random = replicate 32 9, ch_session = [5, 6], ch_ciphers = [0x13, 1],
     ch_compression = [0], ch_extensions = Some [OtherExt 0x0a0a [], ServerName [(0, [97, 46, 98])],
       KeyShare [(0x11ec, [1, 2, 3]), (0x1d, replicate 32 4)]]\<rparr>"

theorem hello_round_trip_witness:
  "parse_client_hello (hello_record hello7) =
   Some (\<lparr>hrandom = replicate 32 9, session_id = [5, 6], server_name = [97, 46, 98],
     x25519 = Some (replicate 32 4)\<rparr>, None)"
proof -
  have "hello_fits hello7"
    by (simp add: hello_fits_def hello7_def hello_body_def enc_ext_def enc_name_def enc_share_def)
  from hello_round_trip [OF this, of "[]"] show ?thesis
    by (simp add: see_hello_def hello7_def host_of_def share_of_def)
qed

end
