(* ===== verification/X_Auth.thy ===== *)
theory X_Auth
  imports Client_Hello
begin

text \<open>
  Authentication inside the ClientHello, \<open>xreality/auth.go\<close> and \<open>xreality/server.go\<close>: the
  client seals a time stamp and its short id into the session id, the server opens it. X25519,
  HKDF-SHA256, AES-256-GCM and HMAC-SHA512 are the fields of a record of functions; what the code
  relies on about them is \<open>crypto_ok\<close>.
\<close>

section \<open>Cryptography as a parameter\<close>

text \<open>
  \<open>c_pub priv\<close> is the public key of a private key, \<open>c_ecdh priv pub\<close> the shared secret (None
  where \<open>ECDH\<close> refuses the point), \<open>c_hkdf ikm salt info n\<close> is \<open>hkdf.Key\<close>, \<open>c_seal\<close> and
  \<open>c_open\<close> take key, nonce, text and additional data.
\<close>

record crypto =
  c_pub :: "bytes \<Rightarrow> bytes"
  c_ecdh :: "bytes \<Rightarrow> bytes \<Rightarrow> bytes option"
  c_hkdf :: "bytes \<Rightarrow> bytes \<Rightarrow> string \<Rightarrow> nat \<Rightarrow> bytes"
  c_seal :: "bytes \<Rightarrow> bytes \<Rightarrow> bytes \<Rightarrow> bytes \<Rightarrow> bytes"
  c_open :: "bytes \<Rightarrow> bytes \<Rightarrow> bytes \<Rightarrow> bytes \<Rightarrow> bytes option"
  c_hmac :: "bytes \<Rightarrow> bytes \<Rightarrow> bytes"

text \<open>
  The documented behaviour: public keys have 32 bytes and both sides of a key exchange get the
  same secret; HKDF returns as many bytes as asked for; GCM appends a 16-byte tag, and opening
  succeeds exactly on what sealing produces.
\<close>

definition crypto_ok :: "crypto \<Rightarrow> bool" where
  "crypto_ok K \<longleftrightarrow>
     (\<forall>a. length (c_pub K a) = 32) \<and>
     (\<forall>a b. c_ecdh K a (c_pub K b) = c_ecdh K b (c_pub K a)) \<and>
     (\<forall>ikm salt info n. length (c_hkdf K ikm salt info n) = n) \<and>
     (\<forall>key nonce pt aad. length (c_seal K key nonce pt aad) = length pt + 16) \<and>
     (\<forall>key nonce ct aad pt. c_open K key nonce ct aad = Some pt \<longleftrightarrow> ct = c_seal K key nonce pt aad)"

section \<open>Sealing and opening\<close>

definition client_random_len :: nat where "client_random_len = 32"
definition short_id_len :: nat where "short_id_len = 8"
definition session_id_len :: nat where "session_id_len = 32"
definition auth_key_len :: nat where "auth_key_len = 32"
definition payload_len :: nat where "payload_len = 16"
definition aad_len :: nat where "aad_len = 20"

definition hkdf_info :: string where
  "hkdf_info = ''go.arpabet.com/obfs/xreality v1 auth''"

lemmas auth_lens = client_random_len_def short_id_len_def session_id_len_def auth_key_len_def
  payload_len_def aad_len_def

datatype x_err = ErrBadRandom | ErrShortID | ErrBadSession | ErrAuth | CryptoErr

text \<open>
  \<open>binary.BigEndian.PutUint64\<close> and \<open>Uint64\<close>: the low byte of the word comes last.
\<close>

fun put_be :: "nat \<Rightarrow> 64 word \<Rightarrow> bytes" where
  "put_be 0 v = []"
| "put_be (Suc n) v = put_be n (drop_bit 8 v) @ [ucast v]"

definition get_be :: "bytes \<Rightarrow> 64 word" where
  "get_be b = foldl (\<lambda>v x. push_bit 8 v OR ucast x) 0 b"

definition put_uint64 :: "64 word \<Rightarrow> bytes" where
  "put_uint64 v = put_be 8 v"

definition get_uint64 :: "bytes \<Rightarrow> 64 word option" where
  "get_uint64 b = (if length b < 8 then None else Some (get_be (take 8 b)))"

lemma length_put_be [simp]: "length (put_be n v) = n"
  by (induction n v rule: put_be.induct) simp_all

lemma length_put_uint64 [simp]: "length (put_uint64 v) = 8"
  by (simp add: put_uint64_def)

lemma push_take_or:
  "push_bit 8 (take_bit (8 * n) (drop_bit 8 v)) OR ucast (ucast v :: byte) = take_bit (8 * Suc n) (v :: 64 word)"
  by (rule bit_word_eqI) (auto simp: bit_simps)

lemma get_put_be: "get_be (put_be n v) = take_bit (8 * n) v"
proof (induction n v rule: put_be.induct)
  case (1 v)
  show ?case by (simp add: get_be_def)
next
  case (2 n v)
  have "get_be (put_be (Suc n) v) = push_bit 8 (get_be (put_be n (drop_bit 8 v))) OR ucast (ucast v :: byte)"
    by (simp add: get_be_def)
  then show ?case unfolding 2 push_take_or .
qed

lemma get_put_uint64 [simp]: "get_uint64 (put_uint64 v) = Some v"
  by (simp add: get_uint64_def put_uint64_def get_put_be take_bit_word_eq_self)

text \<open>
  \<open>t.Unix()\<close>, and \<open>time.Unix(sec, 0)\<close>, whose internal seconds count from year 1 in 64 bits.
\<close>

definition unix_seconds :: "instant \<Rightarrow> int" where
  "unix_seconds t = nanos t div 1000000000"

definition time_unix :: "int \<Rightarrow> instant" where
  "time_unix s = Instant ((wrap64 (s + 62135596800) - 62135596800) * 1000000000)"

definition derive_auth_key :: "crypto \<Rightarrow> bytes \<Rightarrow> bytes \<Rightarrow> x_err + bytes" where
  "derive_auth_key K shared client_random =
     (if length client_random \<noteq> client_random_len then Inl ErrBadRandom
      else Inr (c_hkdf K shared client_random hkdf_info auth_key_len))"

text \<open>\<open>aeadFor\<close> fails on a key that is no AES key.\<close>

definition aead_for :: "bytes \<Rightarrow> x_err + bytes" where
  "aead_for key = (if length key = 16 \<or> length key = 24 \<or> length key = 32 then Inr key else Inl CryptoErr)"

definition seal_auth :: "crypto \<Rightarrow> bytes \<Rightarrow> bytes \<Rightarrow> bytes \<Rightarrow> instant \<Rightarrow> x_err + bytes" where
  "seal_auth K auth_key client_random short_id t =
     (if length client_random \<noteq> client_random_len then Inl ErrBadRandom
      else if length short_id > short_id_len then Inl ErrShortID
      else case aead_for auth_key of
        Inl err \<Rightarrow> Inl err
      | Inr key \<Rightarrow>
          let pt = put_uint64 (word_of_int (unix_seconds t)) @
                   short_id @ replicate (short_id_len - length short_id) 0
          in Inr (c_seal K key (drop aad_len client_random) pt (take aad_len client_random)))"

text \<open>\<open>openAuth\<close>: the slices of the plaintext would panic if it were short.\<close>

definition open_auth :: "crypto \<Rightarrow> bytes \<Rightarrow> bytes \<Rightarrow> bytes \<Rightarrow> (x_err + (instant \<times> bytes)) option" where
  "open_auth K auth_key client_random sid =
     (if length client_random \<noteq> client_random_len then Some (Inl ErrBadRandom)
      else if length sid \<noteq> session_id_len then Some (Inl ErrBadSession)
      else case aead_for auth_key of
        Inl err \<Rightarrow> Some (Inl err)
      | Inr key \<Rightarrow>
          (case c_open K key (drop aad_len client_random) sid (take aad_len client_random) of
             None \<Rightarrow> Some (Inl ErrAuth)
           | Some pt \<Rightarrow> do {
               b \<leftarrow> go_slice pt 0 8;
               v \<leftarrow> get_uint64 b;
               s \<leftarrow> go_slice pt 8 16;
               Some (Inr (time_unix (sint v), s)) }))"

definition cert_hmac :: "crypto \<Rightarrow> bytes \<Rightarrow> bytes \<Rightarrow> bytes" where
  "cert_hmac K auth_key ed25519_pub = c_hmac K auth_key ed25519_pub"

section \<open>Client and server\<close>

text \<open>\<open>ecdh.X25519().NewPublicKey\<close> refuses any length but 32; \<open>ECDH\<close> may refuse the point.\<close>

definition key_exchange :: "crypto \<Rightarrow> bytes \<Rightarrow> bytes \<Rightarrow> x_err + bytes" where
  "key_exchange K priv pub =
     (if length pub \<noteq> 32 then Inl CryptoErr
      else case c_ecdh K priv pub of None \<Rightarrow> Inl CryptoErr | Some s \<Rightarrow> Inr s)"

definition client_session_id ::
  "crypto \<Rightarrow> bytes \<Rightarrow> bytes \<Rightarrow> bytes \<Rightarrow> bytes \<Rightarrow> instant \<Rightarrow> x_err + (bytes \<times> bytes)" where
  "client_session_id K server_pub client_ephemeral client_random short_id now =
     (case key_exchange K client_ephemeral server_pub of
        Inl err \<Rightarrow> Inl err
      | Inr shared \<Rightarrow>
          (case derive_auth_key K shared client_random of
             Inl err \<Rightarrow> Inl err
           | Inr auth_key \<Rightarrow>
               (case seal_auth K auth_key client_random short_id now of
                  Inl err \<Rightarrow> Inl err
                | Inr sid \<Rightarrow> Inr (sid, auth_key))))"

text \<open>The result is the auth key where Go returns \<open>ok\<close>, \<open>Some None\<close> where it does not.\<close>

definition server_authenticate ::
  "crypto \<Rightarrow> bytes \<Rightarrow> bytes \<Rightarrow> bytes \<Rightarrow> bytes \<Rightarrow> (bytes \<Rightarrow> bool) option \<Rightarrow> int \<Rightarrow> instant \<Rightarrow>
   bytes option option" where
  "server_authenticate K server_priv client_pub client_random sid accept skew now =
     (case key_exchange K server_priv client_pub of
        Inl _ \<Rightarrow> Some None
      | Inr shared \<Rightarrow>
          (case derive_auth_key K shared client_random of
             Inl _ \<Rightarrow> Some None
           | Inr auth_key \<Rightarrow> do {
               r \<leftarrow> open_auth K auth_key client_random sid;
               (case r of
                  Inl _ \<Rightarrow> Some None
                | Inr (t, short_id) \<Rightarrow>
                    if skew > 0 \<and> (time_sub now t < - skew \<or> time_sub now t > skew) then Some None
                    else if (case accept of None \<Rightarrow> False | Some f \<Rightarrow> \<not> f short_id) then Some None
                    else Some (Some auth_key)) }))"

record decision =
  authenticated :: bool
  auth_key :: "bytes option"
  info :: hello_info

definition authenticate ::
  "crypto \<Rightarrow> bytes \<Rightarrow> bytes \<Rightarrow> (bytes \<Rightarrow> bool) option \<Rightarrow> int \<Rightarrow> instant \<Rightarrow>
   (decision \<times> hello_err option) option" where
  "authenticate K server_priv rec accept skew now = do {
     (i, err) \<leftarrow> parse_client_hello rec;
     (case err of
        Some e \<Rightarrow> Some (\<lparr>authenticated = False, auth_key = None, info = empty_info\<rparr>, Some e)
      | None \<Rightarrow>
          let d = \<lparr>authenticated = False, auth_key = None, info = i\<rparr> in
          if length (case x25519 i of None \<Rightarrow> [] | Some k \<Rightarrow> k) \<noteq> 32 \<or>
             length (session_id i) \<noteq> session_id_len \<or> length (hrandom i) \<noteq> client_random_len
          then Some (d, None)
          else do {
            r \<leftarrow> server_authenticate K server_priv (case x25519 i of None \<Rightarrow> [] | Some k \<Rightarrow> k)
                  (hrandom i) (session_id i) accept skew now;
            (case r of
               None \<Rightarrow> Some (d, None)
             | Some key \<Rightarrow> Some (d\<lparr>authenticated := True, auth_key := Some key\<rparr>, None)) }) }"

section \<open>Lemmas\<close>

lemma crypto_okD:
  assumes "crypto_ok K"
  shows "length (c_pub K a) = 32" "c_ecdh K a (c_pub K b) = c_ecdh K b (c_pub K a)"
    "length (c_hkdf K ikm salt label n) = n" "length (c_seal K key nonce pt aad) = length pt + 16"
    "c_open K key nonce ct aad = Some pt \<longleftrightarrow> ct = c_seal K key nonce pt aad"
  using assms by (simp_all add: crypto_ok_def)

definition padded :: "bytes \<Rightarrow> bytes" where
  "padded short_id = short_id @ replicate (short_id_len - length short_id) 0"

text \<open>The token: what an accepted session id is, in terms of the sealing function.\<close>

definition token :: "crypto \<Rightarrow> bytes \<Rightarrow> bytes \<Rightarrow> bytes \<Rightarrow> bytes" where
  "token K key rnd pt = c_seal K key (drop 20 rnd) pt (take 20 rnd)"

lemma length_padded: "length short_id \<le> 8 \<Longrightarrow> length (padded short_id) = 8"
  by (simp add: padded_def short_id_len_def)

lemma seal_auth_token:
  "seal_auth K key rnd short t = Inr sid \<Longrightarrow>
   length rnd = 32 \<and> length short \<le> 8 \<and> aead_for key = Inr key \<and>
   sid = token K key rnd (put_uint64 (word_of_int (unix_seconds t)) @ padded short)"
  by (auto simp: seal_auth_def token_def padded_def auth_lens aead_for_def split: if_splits sum.splits)

lemma open_auth_iff:
  assumes "crypto_ok K" "length rnd = 32" "length key = 32"
  shows "open_auth K key rnd sid = Some (Inr (t, short)) \<longleftrightarrow>
    (\<exists>tm v. length tm = 8 \<and> length short = 8 \<and> get_uint64 tm = Some v \<and> t = time_unix (sint v) \<and>
       sid = token K key rnd (tm @ short))"
proof
  assume "open_auth K key rnd sid = Some (Inr (t, short))"
  then obtain pt b v s where sid: "length sid = 32" "sid = token K key rnd pt"
    and pt: "go_slice pt 0 8 = Some b" "get_uint64 b = Some v" "go_slice pt 8 16 = Some s"
    and r: "t = time_unix (sint v)" "short = s"
    using assms(2,3) crypto_okD(5) [OF assms(1)]
    by (auto simp: open_auth_def auth_lens aead_for_def token_def bind_eq_Some_conv
        split: if_splits sum.splits option.splits)
  from sid have "length pt = 16" using crypto_okD(4) [OF assms(1)] by (simp add: token_def)
  with pt have "pt = b @ s" "length b = 8" "length s = 8"
    by (auto simp: go_slice_def)
  with pt(2) r sid(2) show "\<exists>tm v. length tm = 8 \<and> length short = 8 \<and> get_uint64 tm = Some v \<and>
      t = time_unix (sint v) \<and> sid = token K key rnd (tm @ short)" by blast
next
  assume "\<exists>tm v. length tm = 8 \<and> length short = 8 \<and> get_uint64 tm = Some v \<and> t = time_unix (sint v) \<and>
       sid = token K key rnd (tm @ short)"
  then obtain tm v where h: "length tm = 8" "length short = 8" "get_uint64 tm = Some v"
    "t = time_unix (sint v)" "sid = token K key rnd (tm @ short)" by blast
  have "c_open K key (drop 20 rnd) sid (take 20 rnd) = Some (tm @ short)"
    using crypto_okD(5) [OF assms(1)] h(5) by (simp add: token_def)
  moreover have "length sid = 32" using crypto_okD(4) [OF assms(1)] h by (simp add: token_def)
  ultimately show "open_auth K key rnd sid = Some (Inr (t, short))"
    using assms(2,3) h by (simp add: open_auth_def auth_lens aead_for_def go_slice_def)
qed

lemma open_auth_total:
  assumes "crypto_ok K"
  shows "\<exists>r. open_auth K key rnd sid = Some r"
proof (cases "length rnd = 32 \<and> length sid = 32 \<and> aead_for key = Inr key")
  case True
  show ?thesis
  proof (cases "c_open K key (drop 20 rnd) sid (take 20 rnd)")
    case (Some pt)
    then have "length pt = 16"
      using crypto_okD(4,5) [OF assms] True by (metis add_right_cancel numeral_Bit0)
    with True Some show ?thesis by (simp add: open_auth_def auth_lens go_slice_def get_uint64_def)
  qed (use True in \<open>simp add: open_auth_def auth_lens\<close>)
qed (auto simp: open_auth_def auth_lens aead_for_def)

text \<open>When the server accepts a session id.\<close>

definition in_window :: "int \<Rightarrow> instant \<Rightarrow> instant \<Rightarrow> bool" where
  "in_window skew now t \<longleftrightarrow> skew \<le> 0 \<or> (- skew \<le> time_sub now t \<and> time_sub now t \<le> skew)"

definition allowed :: "(bytes \<Rightarrow> bool) option \<Rightarrow> bytes \<Rightarrow> bool" where
  "allowed accept short_id \<longleftrightarrow> (case accept of None \<Rightarrow> True | Some f \<Rightarrow> f short_id)"

lemma server_authenticate_cases:
  "server_authenticate K sp cp rnd sid acc skew now =
    (if length cp = 32 \<and> length rnd = 32 \<and> c_ecdh K sp cp \<noteq> None then
       let key = c_hkdf K (the (c_ecdh K sp cp)) rnd hkdf_info 32 in
       case open_auth K key rnd sid of None \<Rightarrow> None
       | Some (Inl _) \<Rightarrow> Some None
       | Some (Inr (t, short)) \<Rightarrow>
           if in_window skew now t \<and> allowed acc short then Some (Some key) else Some None
     else Some None)"
proof (cases "length cp = 32 \<and> length rnd = 32")
  case True
  show ?thesis
  proof (cases "c_ecdh K sp cp")
    case (Some shared)
    with True show ?thesis
      by (cases "open_auth K (c_hkdf K shared rnd hkdf_info 32) rnd sid")
        (auto simp: server_authenticate_def key_exchange_def derive_auth_key_def auth_lens Let_def
          in_window_def allowed_def split: sum.splits option.splits)
  qed (simp add: server_authenticate_def key_exchange_def)
qed (auto simp: server_authenticate_def key_exchange_def derive_auth_key_def auth_lens split: option.splits)

lemma server_authenticate_total:
  assumes "crypto_ok K"
  shows "\<exists>r. server_authenticate K sp cp rnd sid acc skew now = Some r"
proof -
  obtain r where "open_auth K (c_hkdf K (the (c_ecdh K sp cp)) rnd hkdf_info 32) rnd sid = Some r"
    using open_auth_total [OF assms] by blast
  then show ?thesis by (cases r) (auto simp: server_authenticate_cases Let_def)
qed

lemma server_authenticate_opened:
  "server_authenticate K sp cp rnd sid acc skew now = Some (Some key) \<longleftrightarrow>
    (\<exists>shared t short. length cp = 32 \<and> c_ecdh K sp cp = Some shared \<and> length rnd = 32 \<and>
       key = c_hkdf K shared rnd hkdf_info 32 \<and> open_auth K key rnd sid = Some (Inr (t, short)) \<and>
       in_window skew now t \<and> allowed acc short)"
proof (cases "length cp = 32 \<and> length rnd = 32 \<and> c_ecdh K sp cp \<noteq> None")
  case True
  then obtain shared where sh: "c_ecdh K sp cp = Some shared" by blast
  with True show ?thesis
    by (cases "open_auth K (c_hkdf K shared rnd hkdf_info 32) rnd sid")
      (auto simp: server_authenticate_cases Let_def split: sum.splits)
qed (auto simp: server_authenticate_cases)

lemma server_authenticate_iff:
  assumes "crypto_ok K"
  shows "server_authenticate K sp cp rnd sid acc skew now = Some (Some key) \<longleftrightarrow>
    (\<exists>shared tm v short. length cp = 32 \<and> c_ecdh K sp cp = Some shared \<and> length rnd = 32 \<and>
       key = c_hkdf K shared rnd hkdf_info 32 \<and> length tm = 8 \<and> length short = 8 \<and>
       get_uint64 tm = Some v \<and> sid = token K key rnd (tm @ short) \<and>
       in_window skew now (time_unix (sint v)) \<and> allowed acc short)" (is "?l \<longleftrightarrow> ?r")
proof
  assume ?l
  then obtain shared t short where h: "length cp = 32" "c_ecdh K sp cp = Some shared" "length rnd = 32"
    "key = c_hkdf K shared rnd hkdf_info 32" "open_auth K key rnd sid = Some (Inr (t, short))"
    "in_window skew now t" "allowed acc short"
    unfolding server_authenticate_opened by blast
  moreover have "length key = 32" using h(4) crypto_okD(3) [OF assms] by simp
  ultimately obtain tm v where "length tm = 8" "length short = 8" "get_uint64 tm = Some v"
    "t = time_unix (sint v)" "sid = token K key rnd (tm @ short)"
    using open_auth_iff [OF assms] by blast
  with h show ?r by blast
next
  assume ?r
  then obtain shared tm v short where h: "length cp = 32" "c_ecdh K sp cp = Some shared" "length rnd = 32"
    "key = c_hkdf K shared rnd hkdf_info 32" "length tm = 8" "length short = 8" "get_uint64 tm = Some v"
    "sid = token K key rnd (tm @ short)" "in_window skew now (time_unix (sint v))" "allowed acc short"
    by blast
  have "length key = 32" using h(4) crypto_okD(3) [OF assms] by simp
  with open_auth_iff [OF assms h(3)] h(5-8)
  have "open_auth K key rnd sid = Some (Inr (time_unix (sint v), short))" by blast
  with h show ?l unfolding server_authenticate_opened by blast
qed

lemma client_session_id_token:
  assumes "client_session_id K spub ce rnd short now = Inr (sid, key)"
  obtains shared where "c_ecdh K ce spub = Some shared" "length rnd = 32" "length short \<le> 8"
    "key = c_hkdf K shared rnd hkdf_info 32"
    "sid = token K key rnd (put_uint64 (word_of_int (unix_seconds now)) @ padded short)"
proof -
  from assms obtain shared where e: "key_exchange K ce spub = Inr shared"
    "derive_auth_key K shared rnd = Inr key" "seal_auth K key rnd short now = Inr sid"
    by (auto simp: client_session_id_def split: sum.splits)
  from e(1) have "c_ecdh K ce spub = Some shared"
    by (simp add: key_exchange_def split: if_splits option.splits)
  moreover from e(2) have "key = c_hkdf K shared rnd hkdf_info 32"
    by (simp add: derive_auth_key_def auth_lens split: if_splits)
  moreover note seal_auth_token [OF e(3)]
  ultimately show ?thesis by (intro that [of shared]) simp_all
qed

lemma sealed_time:
  assumes "\<bar>s\<bar> < 2 ^ 62"
  shows "time_unix (sint (word_of_int s :: 64 word)) = Instant (s * 1000000000)"
proof -
  have "sint (word_of_int s :: 64 word) = s"
    using assms by (simp add: signed_of_int signed_take_bit_int_eq_self)
  moreover have "wrap64 (s + 62135596800) = s + 62135596800" using assms by (intro wrap64_id) auto
  ultimately show ?thesis by (simp add: time_unix_def)
qed

lemma see_fold:
  "hrandom (fold see_ext es i) = hrandom i" "session_id (fold see_ext es i) = session_id i"
proof -
  have "hrandom (see_ext e i) = hrandom i \<and> session_id (see_ext e i) = session_id i" for e i
    by (cases e) simp_all
  then have "hrandom (fold see_ext es i) = hrandom i \<and> session_id (fold see_ext es i) = session_id i"
    by (induction es arbitrary: i) simp_all
  then show "hrandom (fold see_ext es i) = hrandom i" "session_id (fold see_ext es i) = session_id i"
    by simp_all
qed

lemma see_hello_fields [simp]: "hrandom (see_hello h) = ch_random h" "session_id (see_hello h) = ch_session h"
  by (simp_all add: see_hello_def see_fold)

section \<open>Properties\<close>

lemma auth_agrees:
  assumes "crypto_ok K" and "client_session_id K (c_pub K sp) ce (ch_random h) short now = Inr (ch_session h, key)"
    and "hello_fits h" and "x25519 (see_hello h) = Some (c_pub K ce)"
    and "\<bar>unix_seconds now\<bar> < 2 ^ 62" and "in_window skew later (Instant (unix_seconds now * 1000000000))"
    and "allowed accept (padded short)"
  shows "authenticate K sp (hello_record h @ rest) accept skew later =
    Some (\<lparr>authenticated = True, auth_key = Some key, info = see_hello h\<rparr>, None)"
proof -
  obtain shared where c: "c_ecdh K ce (c_pub K sp) = Some shared" "length (ch_random h) = 32"
    "length short \<le> 8" "key = c_hkdf K shared (ch_random h) hkdf_info 32"
    and sid: "ch_session h = token K key (ch_random h) (put_uint64 (word_of_int (unix_seconds now)) @ padded short)"
    by (rule client_session_id_token [OF assms(2)])
  have "c_ecdh K sp (c_pub K ce) = Some shared" using c(1) crypto_okD(2) [OF assms(1)] by simp
  then have "server_authenticate K sp (c_pub K ce) (ch_random h) (ch_session h) accept skew later = Some (Some key)"
    unfolding server_authenticate_iff [OF assms(1)]
    using c sid assms(6,7) crypto_okD(1) [OF assms(1)] length_padded [OF c(3)] get_put_uint64
    by (intro exI [of _ shared] exI [of _ "put_uint64 (word_of_int (unix_seconds now))"]
        exI [of _ "word_of_int (unix_seconds now)"] exI [of _ "padded short"])
      (simp add: sealed_time [OF assms(5)])
  moreover have "length (ch_session h) = 32"
    using crypto_okD(4) [OF assms(1)] length_padded [OF c(3)] by (simp add: sid token_def)
  ultimately show ?thesis
    using c(2) crypto_okD(1) [OF assms(1)] assms(4)
    by (simp add: authenticate_def hello_parsed [OF assms(3)] auth_lens)
qed

text \<open>
  C19. Agreement: a ClientHello that carries the session id of \<open>ClientSessionID\<close>, its random
  and the client's X25519 share authenticates at the server of the public key the client used,
  and both sides hold the same auth key, provided that the short id is allowed and the server's
  clock is within the window of the client's second.
\<close>

theorem x_auth_agreement:
  assumes "crypto_ok K" and "client_session_id K (c_pub K sp) ce (ch_random h) short now = Inr (ch_session h, key)"
    and "hello_fits h" and "x25519 (see_hello h) = Some (c_pub K ce)"
    and "\<bar>unix_seconds now\<bar> < 2 ^ 62" and "in_window skew later (Instant (unix_seconds now * 1000000000))"
    and "allowed accept (padded short)"
  shows "authenticate K sp (hello_record h @ rest) accept skew later =
    Some (\<lparr>authenticated = True, auth_key = Some key, info = see_hello h\<rparr>, None)"
  by (rule auth_agrees [OF assms])

lemma auth_sound:
  assumes "crypto_ok K" and "authenticate K sp rec accept skew now = Some (d, err)" and "authenticated d"
  shows "err = None \<and> parse_client_hello rec = Some (info d, None) \<and>
    (\<exists>share shared key tm v short. x25519 (info d) = Some share \<and> c_ecdh K sp share = Some shared \<and>
       key = c_hkdf K shared (hrandom (info d)) hkdf_info 32 \<and> auth_key d = Some key \<and>
       length short = 8 \<and> get_uint64 tm = Some v \<and>
       session_id (info d) = token K key (hrandom (info d)) (tm @ short) \<and>
       in_window skew now (time_unix (sint v)) \<and> allowed accept short)"
proof -
  obtain i e where p: "parse_client_hello rec = Some (i, e)" using parse_client_hello_total by blast
  have e: "e = None" using p assms(2,3) by (cases e) (auto simp: authenticate_def)
  let ?share = "case x25519 i of None \<Rightarrow> [] | Some k \<Rightarrow> k"
  have st: "length ?share = 32 \<and> length (session_id i) = session_id_len \<and> length (hrandom i) = client_random_len"
    using p e assms(2,3) by (cases "length ?share = 32 \<and> length (session_id i) = session_id_len \<and>
      length (hrandom i) = client_random_len") (auto simp: authenticate_def Let_def)
  then obtain share where x: "x25519 i = Some share" by (auto split: option.splits)
  obtain r where r: "server_authenticate K sp share (hrandom i) (session_id i) accept skew now = Some r"
    using server_authenticate_total [OF assms(1)] by blast
  have "r \<noteq> None"
    using p e st x r assms(2,3) by (cases r) (auto simp: authenticate_def Let_def)
  then obtain key where sa: "server_authenticate K sp share (hrandom i) (session_id i) accept skew now = Some (Some key)"
    and "r = Some key" using r by blast
  then have d: "info d = i" "auth_key d = Some key" "err = None"
    using p e st x assms(2) by (auto simp: authenticate_def Let_def)
  from sa obtain shared tm v short where "c_ecdh K sp share = Some shared"
    "key = c_hkdf K shared (hrandom i) hkdf_info 32" "length short = 8" "get_uint64 tm = Some v"
    "session_id i = token K key (hrandom i) (tm @ short)"
    "in_window skew now (time_unix (sint v))" "allowed accept short"
    unfolding server_authenticate_iff [OF assms(1)] by blast
  with p e x d show ?thesis by blast
qed

text \<open>
  C10. Soundness: the server authenticates nothing else. If \<open>Authenticate\<close> accepts a record, the
  record parses, its session id is the seal, under the key of the exchange with the record's own
  share and random, of a time stamp within the window and a short id the gate allows; the auth key
  is that key. In particular a stale token and a foreign short id are refused.
\<close>

theorem x_auth_sound:
  assumes "crypto_ok K" and "authenticate K sp rec accept skew now = Some (d, err)" and "authenticated d"
  shows "err = None \<and> parse_client_hello rec = Some (info d, None) \<and>
    (\<exists>share shared key tm v short. x25519 (info d) = Some share \<and> c_ecdh K sp share = Some shared \<and>
       key = c_hkdf K shared (hrandom (info d)) hkdf_info 32 \<and> auth_key d = Some key \<and>
       length short = 8 \<and> get_uint64 tm = Some v \<and>
       session_id (info d) = token K key (hrandom (info d)) (tm @ short) \<and>
       in_window skew now (time_unix (sint v)) \<and> allowed accept short)"
  by (rule auth_sound [OF assms])

lemma auth_total:
  assumes "crypto_ok K"
  shows "\<exists>d err i. authenticate K sp rec accept skew now = Some (d, err) \<and>
    parse_client_hello rec = Some (i, err) \<and> (authenticated d \<longleftrightarrow> auth_key d \<noteq> None) \<and>
    (err \<noteq> None \<longrightarrow> \<not> authenticated d) \<and> (err = None \<longrightarrow> info d = i)"
proof -
  obtain i err where p: "parse_client_hello rec = Some (i, err)" using parse_client_hello_total by blast
  show ?thesis
  proof (cases err)
    case (Some e)
    with p show ?thesis by (simp add: authenticate_def)
  next
    case None
    obtain r where "server_authenticate K sp (case x25519 i of None \<Rightarrow> [] | Some k \<Rightarrow> k)
        (hrandom i) (session_id i) accept skew now = Some r"
      using server_authenticate_total [OF assms] by blast
    with p None show ?thesis by (cases r) (simp_all add: authenticate_def Let_def)
  qed
qed

text \<open>
  The decision is total: for every record a peer can send \<open>Authenticate\<close> returns without a
  panic; it fails exactly when the record is no parseable ClientHello, with the parser's error, and
  a key is given out exactly with an authenticated decision.
\<close>

theorem x_auth_total:
  assumes "crypto_ok K"
  shows "\<exists>d err i. authenticate K sp rec accept skew now = Some (d, err) \<and>
    parse_client_hello rec = Some (i, err) \<and> (authenticated d \<longleftrightarrow> auth_key d \<noteq> None) \<and>
    (err \<noteq> None \<longrightarrow> \<not> authenticated d) \<and> (err = None \<longrightarrow> info d = i)"
  by (rule auth_total [OF assms])

section \<open>A model of the laws\<close>

text \<open>
  Not cryptography: functions that satisfy \<open>crypto_ok\<close>, so that the hypothesis can be met.
\<close>

definition pad32 :: "bytes \<Rightarrow> bytes" where
  "pad32 a = take 32 (a @ replicate 32 0)"

definition toy :: crypto where
  "toy = \<lparr>c_pub = pad32, c_ecdh = (\<lambda>a b. Some (map2 (+) (pad32 a) b)),
     c_hkdf = (\<lambda>ikm salt label n. take n (ikm @ replicate n 1)),
     c_seal = (\<lambda>key nonce pt aad. pt @ replicate 16 7),
     c_open = (\<lambda>key nonce ct aad. if 16 \<le> length ct \<and> drop (length ct - 16) ct = replicate 16 7
       then Some (take (length ct - 16) ct) else None),
     c_hmac = (\<lambda>key msg. key @ msg)\<rparr>"

lemma map2_add_comm: "map2 (+) xs ys = map2 (+) ys (xs :: bytes)"
  by (induction xs ys rule: list_induct2') (simp_all add: add.commute)

lemma toy_ok: "crypto_ok toy"
proof -
  have "(if 16 \<le> length ct \<and> drop (length ct - 16) ct = t then Some (take (length ct - 16) ct) else None) = Some pt
      \<longleftrightarrow> ct = pt @ (t :: bytes)" if "length t = 16" for ct pt t
  proof
    assume "ct = pt @ t"
    with that show "(if 16 \<le> length ct \<and> drop (length ct - 16) ct = t then Some (take (length ct - 16) ct)
      else None) = Some pt" by simp
  next
    assume "(if 16 \<le> length ct \<and> drop (length ct - 16) ct = t then Some (take (length ct - 16) ct)
      else None) = Some pt"
    then have "take (length ct - 16) ct = pt" "drop (length ct - 16) ct = t" by (simp_all split: if_splits)
    then show "ct = pt @ t" using append_take_drop_id [of "length ct - 16" ct] by simp
  qed
  then show ?thesis by (auto simp: crypto_ok_def toy_def pad32_def map2_add_comm min_def)
qed

definition hello_toy :: hello where
  "hello_toy = hello7\<lparr>ch_session := put_uint64 (word_of_int 1000) @ padded [1, 2] @ replicate 16 7,
     ch_extensions := Some [KeyShare [(0x1d, pad32 [5])]]\<rparr>"

lemma hello_toy_fits: "hello_fits hello_toy"
  by (simp add: hello_fits_def hello_toy_def hello7_def hello_body_def enc_ext_def enc_share_def pad32_def
      length_padded)

lemma hello_toy_session:
  "\<exists>key. client_session_id toy (c_pub toy [3]) [5] (ch_random hello_toy) [1, 2] (Instant 1000000000999) =
     Inr (ch_session hello_toy, key)"
proof -
  have len: "length (take 32 (xs @ replicate 32 (1 :: byte))) = 32" for xs by simp
  have "length (pad32 a) = 32" for a by (simp add: pad32_def)
  then show ?thesis
    by (simp add: client_session_id_def key_exchange_def derive_auth_key_def seal_auth_def aead_for_def len
        toy_def auth_lens hello_toy_def hello7_def unix_seconds_def padded_def del: take_append take_map)
qed

lemma hello_toy_share: "x25519 (see_hello hello_toy) = Some (c_pub toy [5])"
  by (simp add: see_hello_def hello_toy_def hello7_def share_of_def toy_def pad32_def)

lemma toy_window:
  "in_window 60000000000 (Instant 1030000000000) (Instant (unix_seconds (Instant 1000000000999) * 1000000000))"
  "allowed (Some (\<lambda>s. hd s = 1)) (padded [1, 2])" "\<bar>unix_seconds (Instant 1000000000999)\<bar> < 2 ^ 62"
  by (simp_all add: unix_seconds_def in_window_def time_sub_def max_duration_def min_duration_def
      allowed_def padded_def)

theorem x_auth_agreement_witness:
  "\<exists>key. authenticate toy [3] (hello_record hello_toy) (Some (\<lambda>s. hd s = 1)) 60000000000
       (Instant 1030000000000) =
     Some (\<lparr>authenticated = True, auth_key = Some key, info = see_hello hello_toy\<rparr>, None)"
proof -
  obtain key where k: "client_session_id toy (c_pub toy [3]) [5] (ch_random hello_toy) [1, 2]
      (Instant 1000000000999) = Inr (ch_session hello_toy, key)" using hello_toy_session by blast
  from x_auth_agreement [OF toy_ok k hello_toy_fits hello_toy_share toy_window(3,1,2), of "[]"]
  show ?thesis by simp
qed

theorem x_auth_sound_witness:
  "\<exists>d tm v short. authenticate toy [3] (hello_record hello_toy) (Some (\<lambda>s. hd s = 1)) 60000000000
       (Instant 1030000000000) = Some (d, None) \<and> length short = 8 \<and> get_uint64 tm = Some v \<and>
     in_window 60000000000 (Instant 1030000000000) (time_unix (sint v)) \<and> hd (short :: bytes) = 1"
proof -
  obtain key where k: "client_session_id toy (c_pub toy [3]) [5] (ch_random hello_toy) [1, 2]
      (Instant 1000000000999) = Inr (ch_session hello_toy, key)" using hello_toy_session by blast
  from auth_agrees [OF toy_ok k hello_toy_fits hello_toy_share toy_window(3,1,2), of "[]"]
  obtain d where d: "authenticate toy [3] (hello_record hello_toy) (Some (\<lambda>s. hd s = 1)) 60000000000
       (Instant 1030000000000) = Some (d, None)" "authenticated d" by simp
  from x_auth_sound [OF toy_ok d] d(1) show ?thesis by (auto simp: allowed_def)
qed

theorem x_auth_total_witness:
  "\<exists>d. authenticate toy [3] [1, 2, 3] None 0 (Instant 0) = Some (d, Some ErrNotTLS) \<and> \<not> authenticated d"
  using x_auth_total [OF toy_ok, of "[3]" "[1, 2, 3]" None 0 "Instant 0"]
  by (auto simp: parse_client_hello_def)

end
