(* ===== verification/Peek.thy ===== *)
theory Peek
  imports Go_IO Client_Hello
begin

text \<open>
  Peeking at the first TLS record and replaying it: \<open>peekRecord\<close> of
  \<open>xreality/listener.go\<close> and the \<open>prefixConn\<close> that both listeners put in front of the
  connection. Whatever the peek consumed is replayed, so whoever reads next sees the
  connection as if nobody had looked.
\<close>

section \<open>Reading through a tee\<close>

text \<open>\<open>io.ReadFull(io.TeeReader(r, &buf), p)\<close>: what was read is also appended to the buffer.\<close>

definition tee_full :: "nat \<Rightarrow> instream \<times> bytes \<Rightarrow> bytes \<times> io_err option \<times> (instream \<times> bytes)" where
  "tee_full n st = (case read_full n (fst st) of (bs, e, s) \<Rightarrow> (bs, e, (s, snd st @ bs)))"

text \<open>The joined stream that the pair of connection and buffer stands for.\<close>

definition replayed_stream :: "instream \<times> bytes \<Rightarrow> bytes" where
  "replayed_stream st = snd st @ avail (fst st)"

lemma tee_full_stream:
  "tee_full n st = (bs, e, st') \<Longrightarrow>
   replayed_stream st' = replayed_stream st \<and> rd_err (fst st') = rd_err (fst st) \<and>
   snd st' = snd st @ bs \<and> length bs \<le> n \<and> (e = None \<longleftrightarrow> length bs = n)"
  using read_full_stream [of n "fst st"] read_full_length [of n "fst st"]
  by (fastforce simp: tee_full_def replayed_stream_def split: prod.splits)

datatype peek_err = PeekIO io_err | PeekHello hello_err

definition max_record :: nat where "max_record = 2 ^ 14"

text \<open>\<open>peekRecord\<close>: the bytes read, the error, the connection after.\<close>

definition peek_record :: "instream \<Rightarrow> (bytes \<times> peek_err option \<times> instream) option" where
  "peek_record r =
     (case tee_full 5 (r, []) of (hdr, e, st) \<Rightarrow>
        (case e of
           Some err \<Rightarrow> Some (snd st, Some (PeekIO err), fst st)
         | None \<Rightarrow> do {
             h0 \<leftarrow> idx hdr 0;
             (if h0 \<noteq> 0x16 then Some (snd st, Some (PeekHello ErrNotTLS), fst st)
              else do {
                n \<leftarrow> u16_at hdr 3;
                (if n < 4 \<or> n > max_record then Some (snd st, Some (PeekHello ErrBadHello), fst st)
                 else
                   (case tee_full n st of (_, e, st) \<Rightarrow>
                      (case e of
                         Some err \<Rightarrow> Some (snd st, Some (PeekIO err), fst st)
                       | None \<Rightarrow> Some (snd st, None, fst st)))) }) }))"

text \<open>
  What every peek satisfies: it consumed a prefix of the stream, of bounded length, and when it
  succeeded that prefix is one whole record.
\<close>

definition peeked :: "instream \<Rightarrow> bytes \<Rightarrow> instream \<Rightarrow> bool" where
  "peeked r buf r' \<longleftrightarrow> buf @ avail r' = avail r \<and> rd_err r' = rd_err r \<and> length buf \<le> 5 + max_record"

definition one_record :: "bytes \<Rightarrow> bool" where
  "one_record buf \<longleftrightarrow> 5 \<le> length buf \<and> buf ! 0 = 0x16 \<and> length buf = 5 + be16 (buf ! 3) (buf ! 4) \<and>
     4 \<le> be16 (buf ! 3) (buf ! 4)"

lemma peek_record_peeked:
  "\<exists>buf e r'. peek_record r = Some (buf, e, r') \<and> peeked r buf r' \<and> (e = None \<longrightarrow> one_record buf)"
proof -
  obtain hdr e st where t: "tee_full 5 (r, []) = (hdr, e, st)" by (metis prod_cases3)
  note h = tee_full_stream [OF t]
  show ?thesis
  proof (cases e)
    case (Some err)
    with t h show ?thesis by (auto simp: peek_record_def peeked_def replayed_stream_def)
  next
    case None
    with h have l: "length hdr = 5" "snd st = hdr" by simp_all
    then have i: "idx hdr 0 = Some (hdr ! 0)" "u16_at hdr 3 = Some (be16 (hdr ! 3) (hdr ! 4))"
      by (simp_all add: go_simps)
    obtain bs e2 st2 where t2: "tee_full (be16 (hdr ! 3) (hdr ! 4)) st = (bs, e2, st2)" by (metis prod_cases3)
    note h2 = tee_full_stream [OF t2]
    have "hdr ! i = (hdr @ bs) ! i" if "i < 5" for i using that l by (simp add: nth_append)
    then have n: "hdr ! 0 = (hdr @ bs) ! 0" "hdr ! 3 = (hdr @ bs) ! 3" "hdr ! 4 = (hdr @ bs) ! 4"
      by simp_all
    show ?thesis
      using t None i t2 h h2 l n
      by (cases e2) (auto simp: peek_record_def peeked_def one_record_def replayed_stream_def)
  qed
qed

section \<open>The record of a well-formed hello\<close>

definition handshake :: "hello \<Rightarrow> bytes" where
  "handshake h = [1, 0] @ enc16 (hello_body h)"

lemma tee_hello:
  assumes "hello_fits h" "length (hello_body h) + 4 \<le> max_record"
  obtains hdr where
    "tee_full 5 (\<lparr>avail = hello_record h @ rest, rd_err = err\<rparr>, []) =
      (hdr, None, (\<lparr>avail = handshake h @ rest, rd_err = err\<rparr>, hdr))"
    "tee_full (length (handshake h)) (\<lparr>avail = handshake h @ rest, rd_err = err\<rparr>, hdr) =
      (handshake h, None, (\<lparr>avail = rest, rd_err = err\<rparr>, hello_record h))"
    "idx hdr 0 = Some 0x16" "u16_at hdr 3 = Some (length (handshake h))"
    "4 \<le> length (handshake h)" "length (handshake h) \<le> max_record"
proof -
  let ?n = "length (handshake h)"
  let ?hdr = "[0x16, 3, 1, ucast (drop_bit 8 (to_uint16 ?n)), ucast (to_uint16 ?n)]"
  have r: "hello_record h = ?hdr @ handshake h"
    unfolding hello_record_def handshake_def [symmetric] enc16_def [of "handshake h"] put_uint16_def
    by simp
  have n: "?n < 65536" "4 \<le> ?n" "?n \<le> max_record"
    using assms by (simp_all add: handshake_def hello_fits_def)
  then have "u16_at ?hdr 3 = Some ?n" "idx ?hdr 0 = Some 0x16" by (simp_all add: go_simps idx_def)
  moreover have "tee_full 5 (\<lparr>avail = hello_record h @ rest, rd_err = err\<rparr>, []) =
      (?hdr, None, (\<lparr>avail = handshake h @ rest, rd_err = err\<rparr>, ?hdr))"
    by (simp add: tee_full_def read_full_def r)
  moreover have "tee_full ?n (\<lparr>avail = handshake h @ rest, rd_err = err\<rparr>, ?hdr) =
      (handshake h, None, (\<lparr>avail = rest, rd_err = err\<rparr>, hello_record h))"
    by (simp add: tee_full_def read_full_def r)
  ultimately show ?thesis using n by (intro that [of ?hdr])
qed

lemma peek_record_hello:
  assumes "hello_fits h" "length (hello_body h) + 4 \<le> max_record"
  shows "peek_record \<lparr>avail = hello_record h @ rest, rd_err = err\<rparr> =
    Some (hello_record h, None, \<lparr>avail = rest, rd_err = err\<rparr>)"
proof -
  obtain hdr where t: "tee_full 5 (\<lparr>avail = hello_record h @ rest, rd_err = err\<rparr>, []) =
      (hdr, None, (\<lparr>avail = handshake h @ rest, rd_err = err\<rparr>, hdr))"
    "tee_full (length (handshake h)) (\<lparr>avail = handshake h @ rest, rd_err = err\<rparr>, hdr) =
      (handshake h, None, (\<lparr>avail = rest, rd_err = err\<rparr>, hello_record h))"
    and u: "idx hdr 0 = Some 0x16" "u16_at hdr 3 = Some (length (handshake h))"
    and n: "4 \<le> length (handshake h)" "length (handshake h) \<le> max_record"
    by (rule tee_hello [OF assms])
  show ?thesis
    unfolding peek_record_def t(1) prod.case option.case u bind.bind_lunit using n by (simp add: t(2))
qed

section \<open>Replay\<close>

record 's prefix_conn =
  pconn :: 's
  prefix_bytes :: bytes

fun prefix_read ::
  "(nat \<Rightarrow> 's \<Rightarrow> (bytes \<times> 'e option \<times> 's) option) \<Rightarrow> nat \<Rightarrow> 's prefix_conn \<Rightarrow>
   (bytes \<times> 'e option \<times> 's prefix_conn) option" where
  "prefix_read rd n c =
     (if length (prefix_bytes c) > 0 then
        Some (take n (prefix_bytes c), None, c\<lparr>prefix_bytes := drop n (prefix_bytes c)\<rparr>)
      else map_option (\<lambda>(bs, e, s). (bs, e, c\<lparr>pconn := s\<rparr>)) (rd n (pconn c)))"

definition prefix_delivers ::
  "('s \<Rightarrow> bytes \<Rightarrow> 'e \<Rightarrow> bool) \<Rightarrow> 's prefix_conn \<Rightarrow> bytes \<Rightarrow> 'e \<Rightarrow> bool" where
  "prefix_delivers del c bs e \<longleftrightarrow> (\<exists>rest. bs = prefix_bytes c @ rest \<and> del (pconn c) rest e)"

text \<open>
  A prefix in front of a reader is a reader of the joined stream. (A locale of its own, so that
  the derived reader does not ask for a further prefix.)
\<close>

locale replayed = reader rd delivers
  for rd :: "nat \<Rightarrow> 's \<Rightarrow> (bytes \<times> 'e option \<times> 's) option" and delivers

sublocale replayed \<subseteq> replay: reader "prefix_read rd" "prefix_delivers delivers"
proof
  fix c bs e and n :: nat
  assume d: "prefix_delivers delivers c bs e" and n: "0 < n" and ne: "bs \<noteq> []"
  from d obtain rest where bs: "bs = prefix_bytes c @ rest" and r: "delivers (pconn c) rest e"
    by (auto simp: prefix_delivers_def)
  show "\<exists>k s'. 0 < k \<and> k \<le> n \<and> k \<le> length bs \<and>
      prefix_read rd n c = Some (take k bs, None, s') \<and> prefix_delivers delivers s' (drop k bs) e"
  proof (cases "prefix_bytes c = []")
    case True
    with read_some [OF r n] bs ne obtain k s' where "0 < k" "k \<le> n" "k \<le> length bs"
      "rd n (pconn c) = Some (take k bs, None, s')" "delivers s' (drop k bs) e" by auto
    with True show ?thesis
      by (intro exI [of _ k] exI [of _ "c\<lparr>pconn := s'\<rparr>"]) (simp add: prefix_delivers_def)
  next
    case False
    let ?k = "min n (length (prefix_bytes c))"
    have "prefix_read rd n c = Some (take ?k bs, None, c\<lparr>prefix_bytes := drop n (prefix_bytes c)\<rparr>)"
      using False bs by (simp add: min_def)
    moreover have "drop ?k bs = drop n (prefix_bytes c) @ rest" using bs by (simp add: min_def)
    ultimately show ?thesis
      using False n bs r
      by (intro exI [of _ ?k] exI [of _ "c\<lparr>prefix_bytes := drop n (prefix_bytes c)\<rparr>"])
        (auto simp: prefix_delivers_def)
  qed
next
  fix c e and n :: nat
  assume d: "prefix_delivers delivers c [] e" and n: "0 < n"
  then have "prefix_bytes c = []" "delivers (pconn c) [] e" by (auto simp: prefix_delivers_def)
  with read_end [OF this(2) n] show "\<exists>s'. prefix_read rd n c = Some ([], Some e, s') \<and>
      prefix_delivers delivers s' [] e" by (auto simp: prefix_delivers_def)
qed

interpretation seg_replay: replayed seg_read seg_delivers
  by unfold_locales

lemma peeked_replay:
  assumes "peeked r buf r'" "seg_delivers s' (avail r') (rd_err r')" "n \<le> length (avail r)"
  shows "\<exists>t. read_full_loop (prefix_read seg_read) ue n [] \<lparr>pconn = s', prefix_bytes = buf\<rparr> =
    Some (take n (avail r), None, t)"
proof -
  have "prefix_delivers seg_delivers \<lparr>pconn = s', prefix_bytes = buf\<rparr> (avail r) (rd_err r)"
    using assms(1,2) unfolding prefix_delivers_def peeked_def by (intro exI [of _ "avail r'"]) simp
  from seg_replay.replay.read_full_delivers [OF this assms(3)] show ?thesis by blast
qed

text \<open>
  C23. Peeking leaves no trace: \<open>peekRecord\<close> always returns, it has read at most 16389 bytes,
  on success exactly one record, and a reader behind the \<open>prefixConn\<close> that replays what it read gets
  the bytes the peer sent, in whatever segments the rest of the stream arrives.
\<close>

theorem peek_leaves_no_trace:
  "\<exists>buf e r'. peek_record r = Some (buf, e, r') \<and> length buf \<le> 16389 \<and>
    (e = None \<longrightarrow> one_record buf) \<and>
    (\<forall>s' n. seg_delivers s' (avail r') (rd_err r') \<longrightarrow> n \<le> length (avail r) \<longrightarrow>
       (\<exists>t. read_full_loop (prefix_read seg_read) unexpected n [] \<lparr>pconn = s', prefix_bytes = buf\<rparr> =
          Some (take n (avail r), None, t)))"
proof -
  obtain buf e r' where p: "peek_record r = Some (buf, e, r')" "peeked r buf r'"
    "e = None \<longrightarrow> one_record buf" using peek_record_peeked by blast
  from p(2) have "length buf \<le> 16389" by (simp add: peeked_def max_record_def)
  with p peeked_replay [OF p(2)] show ?thesis by blast
qed

theorem peek_leaves_no_trace_witness:
  "\<exists>t. read_full_loop (prefix_read seg_read) unexpected 8 []
     \<lparr>pconn = \<lparr>segs = [[7, 9], [8]], seg_err = EOF\<rparr>, prefix_bytes = [0x17, 3, 3, 0, 5]\<rparr> =
   Some ([0x17, 3, 3, 0, 5, 7, 9, 8], None, t)"
proof -
  let ?r = "\<lparr>avail = [0x17, 3, 3, 0, 5, 7, 9, 8], rd_err = EOF\<rparr>"
  let ?s = "\<lparr>segs = [[7, 9], [8]], seg_err = EOF\<rparr>"
  have p: "peek_record ?r = Some ([0x17, 3, 3, 0, 5], Some (PeekHello ErrNotTLS), \<lparr>avail = [7, 9, 8], rd_err = EOF\<rparr>)"
    by (simp add: peek_record_def tee_full_def read_full_def idx_def)
  have "seg_delivers ?s [7, 9, 8] EOF" by (simp add: seg_delivers_def)
  with peek_leaves_no_trace [of ?r] p
  have "\<forall>n \<le> 8. \<exists>t. read_full_loop (prefix_read seg_read) unexpected n []
      \<lparr>pconn = ?s, prefix_bytes = [0x17, 3, 3, 0, 5]\<rparr> = Some (take n [0x17, 3, 3, 0, 5, 7, 9, 8], None, t)"
    by auto
  then have "\<exists>t. read_full_loop (prefix_read seg_read) unexpected 8 []
      \<lparr>pconn = ?s, prefix_bytes = [0x17, 3, 3, 0, 5]\<rparr> = Some (take 8 [0x17, 3, 3, 0, 5, 7, 9, 8], None, t)"
    by blast
  then show ?thesis by simp
qed

end
