(* ===== verification/X_Channel.thy ===== *)
theory X_Channel
  imports X_Auth Peek
begin

text \<open>
  Mutual authentication inside the TLS channel, \<open>proof\<close>, \<open>serverChannelAuth\<close> and
  \<open>clientChannelAuth\<close> of \<open>xreality/client.go\<close> and \<open>xreality/listener.go\<close>: each side proves
  with an HMAC over the exported keying material that it holds the auth key.
\<close>

section \<open>An established TLS connection\<close>

text \<open>
  What the code sees of \<open>crypto/tls\<close> and uTLS: the plaintext that will arrive, the keying material
  \<open>ExportKeyingMaterial(ekmLabel, ekmContext, 32)\<close> or its error, and the outcome of a write.
\<close>

record tls_conn =
  plain :: instream
  exporter :: "io_err + bytes"
  tls_write :: "bytes \<Rightarrow> io_err option"

datatype chan_err = ChanIO io_err | ErrServerAuth

definition proof_len :: nat where "proof_len = 64"

definition server_tag :: bytes where "server_tag = [83]"

definition client_tag :: bytes where "client_tag = [67]"

lemmas chan_consts = proof_len_def server_tag_def client_tag_def

definition channel_proof :: "crypto \<Rightarrow> bytes \<Rightarrow> bytes \<Rightarrow> bytes \<Rightarrow> bytes" where
  "channel_proof K key tag ekm = cert_hmac K key (tag @ ekm)"

text \<open>
  Both functions return the error, the bytes written and the connection after. The server writes
  before it reads.
\<close>

definition server_channel_auth ::
  "crypto \<Rightarrow> tls_conn \<Rightarrow> bytes \<Rightarrow> chan_err option \<times> bytes \<times> tls_conn" where
  "server_channel_auth K conn key =
     (case exporter conn of
        Inl err \<Rightarrow> (Some (ChanIO err), [], conn)
      | Inr ekm \<Rightarrow>
          let p = channel_proof K key server_tag ekm in
          (case tls_write conn p of
             Some err \<Rightarrow> (Some (ChanIO err), [], conn)
           | None \<Rightarrow>
               (case read_full proof_len (plain conn) of (got, e, s) \<Rightarrow>
                  (case e of
                     Some err \<Rightarrow> (Some (ChanIO err), p, conn\<lparr>plain := s\<rparr>)
                   | None \<Rightarrow>
                       if got \<noteq> channel_proof K key client_tag ekm
                       then (Some ErrServerAuth, p, conn\<lparr>plain := s\<rparr>)
                       else (None, p, conn\<lparr>plain := s\<rparr>)))))"

definition client_channel_auth ::
  "crypto \<Rightarrow> tls_conn \<Rightarrow> bytes \<Rightarrow> chan_err option \<times> bytes \<times> tls_conn" where
  "client_channel_auth K conn key =
     (case exporter conn of
        Inl err \<Rightarrow> (Some (ChanIO err), [], conn)
      | Inr ekm \<Rightarrow>
          (case read_full proof_len (plain conn) of (got, e, s) \<Rightarrow>
             (case e of
                Some err \<Rightarrow> (Some (ChanIO err), [], conn\<lparr>plain := s\<rparr>)
              | None \<Rightarrow>
                  if got \<noteq> channel_proof K key server_tag ekm
                  then (Some ErrServerAuth, [], conn\<lparr>plain := s\<rparr>)
                  else let p = channel_proof K key client_tag ekm in
                    (case tls_write conn p of
                       Some err \<Rightarrow> (Some (ChanIO err), [], conn\<lparr>plain := s\<rparr>)
                     | None \<Rightarrow> (None, p, conn\<lparr>plain := s\<rparr>)))))"

section \<open>When the two sides accept\<close>

text \<open>HMAC-SHA512 gives 64 bytes.\<close>

definition hmac_ok :: "crypto \<Rightarrow> bool" where
  "hmac_ok K \<longleftrightarrow> (\<forall>key msg. length (c_hmac K key msg) = 64)"

lemma length_channel_proof: "hmac_ok K \<Longrightarrow> length (channel_proof K key tag ekm) = 64"
  by (simp add: hmac_ok_def channel_proof_def cert_hmac_def)

text \<open>The proofs of the two sides are taken over different messages, and over different material.\<close>

lemma proof_messages: "tag @ ekm = tag' @ ekm' \<Longrightarrow> length tag = length tag' \<Longrightarrow> tag = tag' \<and> ekm = ekm'"
  by simp

lemma read_full_exactly:
  "length w = n \<Longrightarrow> read_full n s = (w, None, s') \<longleftrightarrow> s = s'\<lparr>avail := w @ avail s'\<rparr>"
  by (cases s; cases s') (auto simp: read_full_def, metis append_take_drop_id)

lemma server_channel_iff:
  assumes "hmac_ok K"
  shows "server_channel_auth K conn key = (None, w, conn') \<longleftrightarrow>
    (\<exists>ekm. exporter conn = Inr ekm \<and> w = channel_proof K key server_tag ekm \<and> tls_write conn w = None \<and>
       conn' = conn\<lparr>plain := plain conn'\<rparr> \<and>
       plain conn = (plain conn')\<lparr>avail := channel_proof K key client_tag ekm @ avail (plain conn')\<rparr>)"
    (is "?l \<longleftrightarrow> ?r")
proof (cases "exporter conn")
  case (Inr ekm)
  let ?s = "channel_proof K key server_tag ekm" and ?c = "channel_proof K key client_tag ekm"
  have "?l \<longleftrightarrow> w = ?s \<and> tls_write conn ?s = None \<and>
      (\<exists>s'. read_full 64 (plain conn) = (?c, None, s') \<and> conn' = conn\<lparr>plain := s'\<rparr>)"
    using Inr by (auto simp: server_channel_auth_def Let_def proof_len_def split: option.splits prod.splits if_splits)
  also have "\<dots> \<longleftrightarrow> ?r"
    using Inr length_channel_proof [OF assms, of key client_tag ekm]
    by (auto simp: read_full_exactly)
  finally show ?thesis .
qed (simp add: server_channel_auth_def)

lemma client_channel_iff:
  assumes "hmac_ok K"
  shows "client_channel_auth K conn key = (None, w, conn') \<longleftrightarrow>
    (\<exists>ekm. exporter conn = Inr ekm \<and> w = channel_proof K key client_tag ekm \<and> tls_write conn w = None \<and>
       conn' = conn\<lparr>plain := plain conn'\<rparr> \<and>
       plain conn = (plain conn')\<lparr>avail := channel_proof K key server_tag ekm @ avail (plain conn')\<rparr>)"
    (is "?l \<longleftrightarrow> ?r")
proof (cases "exporter conn")
  case (Inr ekm)
  let ?s = "channel_proof K key server_tag ekm" and ?c = "channel_proof K key client_tag ekm"
  have "?l \<longleftrightarrow> w = ?c \<and> tls_write conn ?c = None \<and>
      (\<exists>s'. read_full 64 (plain conn) = (?s, None, s') \<and> conn' = conn\<lparr>plain := s'\<rparr>)"
    using Inr by (auto simp: client_channel_auth_def Let_def proof_len_def split: option.splits prod.splits if_splits)
  also have "\<dots> \<longleftrightarrow> ?r"
    using Inr length_channel_proof [OF assms, of key server_tag ekm]
    by (auto simp: read_full_exactly)
  finally show ?thesis .
qed (simp add: client_channel_auth_def)

section \<open>A model of the laws with proofs of 64 bytes\<close>

definition toy64 :: crypto where
  "toy64 = toy\<lparr>c_hmac := \<lambda>key msg. take 64 (key @ msg @ replicate 64 0)\<rparr>"

lemma toy64_ok: "crypto_ok toy64" "hmac_ok toy64"
  using toy_ok by (simp add: crypto_ok_def toy64_def) (auto simp: toy64_def hmac_ok_def min_def)

lemma toy64_pub [simp]: "c_pub toy64 = c_pub toy"
  by (simp add: toy64_def)

lemma toy64_session [simp]: "client_session_id toy64 = client_session_id toy"
proof -
  have "key_exchange toy64 = key_exchange toy" "derive_auth_key toy64 = derive_auth_key toy"
    "seal_auth toy64 = seal_auth toy"
    by (intro ext, simp add: key_exchange_def derive_auth_key_def seal_auth_def toy64_def Let_def
        split: sum.split)+
  then show ?thesis by (intro ext) (simp only: client_session_id_def)
qed

end
