(* ===== verification/Splice.thy ===== *)
theory Splice
  imports Go_IO "HOL-Library.Sublist"
begin

text \<open>
  The raw splice at the end of \<open>reverseProxy\<close> and \<open>passthrough\<close> of \<open>reality/reality.go\<close>
  and of \<open>passthrough\<close> of \<open>xreality/listener.go\<close>: one goroutine copies from the client to
  the site, the handler copies back, and whoever ends first closes both connections.
\<close>

section \<open>Two copiers\<close>

text \<open>
  \<open>Copied\<close>: \<open>io.Copy\<close> has returned and \<open>closeBoth\<close> is next; \<open>Ended\<close>: \<open>closeBoth\<close> has
  returned.
\<close>

datatype copier = Copying | Copied | Ended

text \<open>
  \<open>from_client\<close> and \<open>from_site\<close> are what the two ends will still send, \<open>to_site\<close> and
  \<open>to_client\<close> what was written to them; \<open>once_done\<close> is the \<open>sync.Once\<close>.
\<close>

record splice =
  from_client :: instream
  from_site :: instream
  to_site :: bytes
  to_client :: bytes
  upward :: copier
  downward :: copier
  once_done :: bool
  client_closed :: bool
  site_closed :: bool
  returned :: bool

definition close_both :: "splice \<Rightarrow> splice" where
  "close_both s = (if once_done s then s
     else s\<lparr>once_done := True, client_closed := True, site_closed := True\<rparr>)"

definition splice_init :: "bytes \<Rightarrow> instream \<Rightarrow> instream \<Rightarrow> splice" where
  "splice_init consumed client site = \<lparr>from_client = client, from_site = site, to_site = consumed,
     to_client = [], upward = Copying, downward = Copying, once_done = False,
     client_closed = False, site_closed = False, returned = False\<rparr>"

text \<open>
  A copier moves a chunk while both connections are open, ends when its source has ended or one
  connection is closed, and ends with a partial write when the destination fails (an empty one
  when it was closed since the chunk was read). The handler returns through its deferred
  \<open>Close\<close> calls once its own copier has ended.
\<close>

inductive splice_step :: "splice \<Rightarrow> splice \<Rightarrow> bool" where
  up_copy: "upward s = Copying \<Longrightarrow> \<not> client_closed s \<Longrightarrow> \<not> site_closed s \<Longrightarrow>
    from_client s = \<lparr>avail = chunk @ rest, rd_err = e\<rparr> \<Longrightarrow> chunk \<noteq> [] \<Longrightarrow>
    splice_step s (s\<lparr>from_client := \<lparr>avail = rest, rd_err = e\<rparr>, to_site := to_site s @ chunk\<rparr>)"
| up_fail: "upward s = Copying \<Longrightarrow> (client_closed s \<or> site_closed s \<Longrightarrow> k = 0) \<Longrightarrow>
    from_client s = \<lparr>avail = chunk @ rest, rd_err = e\<rparr> \<Longrightarrow> k < length chunk \<Longrightarrow>
    splice_step s (s\<lparr>from_client := \<lparr>avail = rest, rd_err = e\<rparr>, to_site := to_site s @ take k chunk,
      upward := Copied\<rparr>)"
| up_end: "upward s = Copying \<Longrightarrow> avail (from_client s) = [] \<or> client_closed s \<or> site_closed s \<Longrightarrow>
    splice_step s (s\<lparr>upward := Copied\<rparr>)"
| up_close: "upward s = Copied \<Longrightarrow> splice_step s ((close_both s)\<lparr>upward := Ended\<rparr>)"
| down_copy: "downward s = Copying \<Longrightarrow> \<not> client_closed s \<Longrightarrow> \<not> site_closed s \<Longrightarrow>
    from_site s = \<lparr>avail = chunk @ rest, rd_err = e\<rparr> \<Longrightarrow> chunk \<noteq> [] \<Longrightarrow>
    splice_step s (s\<lparr>from_site := \<lparr>avail = rest, rd_err = e\<rparr>, to_client := to_client s @ chunk\<rparr>)"
| down_fail: "downward s = Copying \<Longrightarrow> (client_closed s \<or> site_closed s \<Longrightarrow> k = 0) \<Longrightarrow>
    from_site s = \<lparr>avail = chunk @ rest, rd_err = e\<rparr> \<Longrightarrow> k < length chunk \<Longrightarrow>
    splice_step s (s\<lparr>from_site := \<lparr>avail = rest, rd_err = e\<rparr>, to_client := to_client s @ take k chunk,
      downward := Copied\<rparr>)"
| down_end: "downward s = Copying \<Longrightarrow> avail (from_site s) = [] \<or> client_closed s \<or> site_closed s \<Longrightarrow>
    splice_step s (s\<lparr>downward := Copied\<rparr>)"
| down_close: "downward s = Copied \<Longrightarrow> splice_step s ((close_both s)\<lparr>downward := Ended\<rparr>)"
| handler_return: "downward s = Ended \<Longrightarrow> \<not> returned s \<Longrightarrow>
    splice_step s (s\<lparr>client_closed := True, site_closed := True, returned := True\<rparr>)"

section \<open>What the splice keeps\<close>

text \<open>
  While a copier runs nothing is lost on its way; afterwards what was delivered is a prefix.
\<close>

definition way :: "copier \<Rightarrow> bytes \<Rightarrow> instream \<Rightarrow> bytes \<Rightarrow> bool" where
  "way c written src sent \<longleftrightarrow> prefix written sent \<and> (c = Copying \<longrightarrow> written @ avail src = sent)"

definition splice_inv :: "bytes \<Rightarrow> bytes \<Rightarrow> splice \<Rightarrow> bool" where
  "splice_inv sent answer s \<longleftrightarrow>
     way (upward s) (to_site s) (from_client s) sent \<and> way (downward s) (to_client s) (from_site s) answer \<and>
     (once_done s \<longleftrightarrow> upward s = Ended \<or> downward s = Ended) \<and> client_closed s = once_done s \<and>
     site_closed s = once_done s \<and> (returned s \<longrightarrow> downward s = Ended)"

lemma way_simps [simp]:
  "way Copying w src sent \<longleftrightarrow> w @ avail src = sent"
  "way Copied w src sent \<longleftrightarrow> prefix w sent" "way Ended w src sent \<longleftrightarrow> prefix w sent"
  by (auto simp: way_def)

lemma prefix_partial: "prefix (w @ take k chunk) (w @ chunk @ rest)"
  by (simp add: take_is_prefix prefix_append)

lemma splice_inv_step: "splice_step s t \<Longrightarrow> splice_inv sent answer s \<Longrightarrow> splice_inv sent answer t"
proof (induction rule: splice_step.induct)
  case (up_close s)
  then show ?case by (cases "once_done s") (auto simp: splice_inv_def close_both_def)
next
  case (down_close s)
  then show ?case by (cases "once_done s") (auto simp: splice_inv_def close_both_def)
next
  case (up_fail s k chunk rest e)
  then show ?case using prefix_partial [of "to_site s" k chunk rest] by (auto simp: splice_inv_def)
next
  case (down_fail s k chunk rest e)
  then show ?case using prefix_partial [of "to_client s" k chunk rest] by (auto simp: splice_inv_def)
qed (auto simp: splice_inv_def)

lemma splice_reach:
  assumes "splice_step\<^sup>*\<^sup>* (splice_init consumed client site) s"
  shows "splice_inv (consumed @ avail client) (avail site) s"
  by (rule reach_invariant [OF assms])
    (simp add: splice_inv_def splice_init_def, rule splice_inv_step)

section \<open>Termination\<close>

text \<open>The work left: the bytes to move and the calls each copier and the handler still make.\<close>

fun calls_left :: "copier \<Rightarrow> nat" where
  "calls_left Copying = 2"
| "calls_left Copied = 1"
| "calls_left Ended = 0"

definition work :: "splice \<Rightarrow> nat" where
  "work s = length (avail (from_client s)) + length (avail (from_site s)) +
     calls_left (upward s) + calls_left (downward s) + (if returned s then 0 else 1)"

lemma work_decreases: "splice_step s t \<Longrightarrow> work t < work s"
  by (induction rule: splice_step.induct) (auto simp: work_def close_both_def neq_Nil_conv)

lemma no_endless_splice: "\<not> (\<exists>f. \<forall>i. splice_step (f i) (f (Suc i)))"
proof
  assume "\<exists>f. \<forall>i. splice_step (f i) (f (Suc i))"
  then obtain f where "\<And>i. splice_step (f i) (f (Suc i))" by blast
  then have "\<And>i. (f (Suc i), f i) \<in> measure work" using work_decreases by simp
  then show False using wf_iff_no_infinite_down_chain [of "measure work"] by blast
qed

lemma stuck_splice:
  assumes "splice_inv sent answer s" "\<And>t. \<not> splice_step s t"
  shows "upward s = Ended \<and> returned s \<and> client_closed s \<and> site_closed s"
proof -
  have "upward s \<noteq> Copying"
  proof
    assume u: "upward s = Copying"
    obtain bs e where f: "from_client s = \<lparr>avail = bs, rd_err = e\<rparr>" by (cases "from_client s") auto
    show False
    proof (cases "bs = [] \<or> client_closed s \<or> site_closed s")
      case True
      with u f up_end [of s] assms(2) show False by auto
    next
      case False
      with u f up_copy [of s bs "[]" e] assms(2) show False by auto
    qed
  qed
  moreover have "upward s \<noteq> Copied" using up_close assms(2) by blast
  moreover have "downward s \<noteq> Copying"
  proof
    assume u: "downward s = Copying"
    obtain bs e where f: "from_site s = \<lparr>avail = bs, rd_err = e\<rparr>" by (cases "from_site s") auto
    show False
    proof (cases "bs = [] \<or> client_closed s \<or> site_closed s")
      case True
      with u f down_end [of s] assms(2) show False by auto
    next
      case False
      with u f down_copy [of s bs "[]" e] assms(2) show False by auto
    qed
  qed
  moreover have "downward s \<noteq> Copied" using down_close assms(2) by blast
  ultimately have d: "upward s = Ended" "downward s = Ended" by (metis copier.exhaust)+
  with handler_return assms(2) have "returned s" by blast
  with d assms(1) show ?thesis by (simp add: splice_inv_def)
qed

section \<open>Properties\<close>

text \<open>
  C24. The splice is transparent: in every reachable state the site has got a prefix of the
  replayed and the remaining bytes of the client, the client a prefix of the site's answer, all of
  it as long as that direction runs; both connections are closed together, exactly once a direction
  has ended.
\<close>

theorem splice_transparent:
  assumes "splice_step\<^sup>*\<^sup>* (splice_init consumed client site) s"
  shows "prefix (to_site s) (consumed @ avail client) \<and> prefix (to_client s) (avail site) \<and>
    (upward s = Copying \<longrightarrow> to_site s @ avail (from_client s) = consumed @ avail client) \<and>
    (downward s = Copying \<longrightarrow> to_client s @ avail (from_site s) = avail site) \<and>
    client_closed s = site_closed s \<and>
    (client_closed s \<longleftrightarrow> upward s = Ended \<or> downward s = Ended)"
  using splice_reach [OF assms] by (auto simp: splice_inv_def way_def)

theorem splice_transparent_witness:
  "\<exists>s :: splice. prefix (to_site s) [1, 2, 3] \<and> to_site s @ avail (from_client s) = [1, 2, 3] \<and> to_client s = [9]"
proof -
  let ?i = "splice_init [1] \<lparr>avail = [2, 3], rd_err = EOF\<rparr> \<lparr>avail = [9], rd_err = EOF\<rparr>"
  let ?s = "?i\<lparr>from_site := \<lparr>avail = [], rd_err = EOF\<rparr>, to_client := [9]\<rparr>"
  have "splice_step ?i ?s"
    using down_copy [of ?i "[9]" "[]" EOF] by (simp add: splice_init_def)
  then have "splice_step\<^sup>*\<^sup>* ?i ?s" by (rule r_into_rtranclp)
  note t = splice_transparent [OF this]
  have "upward ?s = Copying" "to_client ?s = [9]" by (simp_all add: splice_init_def)
  with t have "prefix (to_site ?s) [1, 2, 3] \<and> to_site ?s @ avail (from_client ?s) = [1, 2, 3] \<and> to_client ?s = [9]"
    by (simp only: instream.simps append.simps simp_thms)
  then show ?thesis by blast
qed

text \<open>
  C25. The splice ends: no schedule lets the two copiers run forever once both ends have only
  finitely much to send, and where nothing more can happen the handler has returned, both copiers
  have ended and both connections are closed, so neither a goroutine nor a connection leaks.
\<close>

theorem splice_ends:
  "(\<nexists>f. f 0 = splice_init consumed client site \<and> (\<forall>i :: nat. splice_step (f i) (f (Suc i)))) \<and>
   (\<forall>s. splice_step\<^sup>*\<^sup>* (splice_init consumed client site) s \<longrightarrow> (\<exists>t. splice_step s t) \<or>
      upward s = Ended \<and> returned s \<and> client_closed s \<and> site_closed s)"
  using no_endless_splice stuck_splice [OF splice_reach] by blast

theorem splice_ends_witness:
  "\<exists>t. splice_step (splice_init [1] \<lparr>avail = [], rd_err = EOF\<rparr> \<lparr>avail = [9], rd_err = EOF\<rparr>) t"
proof -
  let ?i = "splice_init [1] \<lparr>avail = [], rd_err = EOF\<rparr> \<lparr>avail = [9], rd_err = EOF\<rparr>"
  have "(\<exists>t. splice_step ?i t) \<or> upward ?i = Ended \<and> returned ?i \<and> client_closed ?i \<and> site_closed ?i"
    using splice_ends [of "[1]" "\<lparr>avail = [], rd_err = EOF\<rparr>" "\<lparr>avail = [9], rd_err = EOF\<rparr>"] by blast
  then show ?thesis by (simp add: splice_init_def)
qed

text \<open>
  A half-closing client loses the answer: when the client has sent all it has and ends its
  direction, as after a shutdown of its write side, the splice can close both connections before
  anything of the site's answer was copied; from then on nothing more reaches the client.
\<close>

theorem splice_half_close:
  "\<exists>s. splice_step\<^sup>*\<^sup>* (splice_init consumed \<lparr>avail = [], rd_err = EOF\<rparr> site) s \<and>
     to_site s = consumed \<and> to_client s = [] \<and>
     (\<forall>t. splice_step\<^sup>*\<^sup>* s t \<longrightarrow> to_client t = [])"
proof -
  let ?i = "splice_init consumed \<lparr>avail = [], rd_err = EOF\<rparr> site"
  let ?s1 = "?i\<lparr>upward := Copied\<rparr>"
  let ?s2 = "(close_both ?s1)\<lparr>upward := Ended\<rparr>"
  have "splice_step ?i ?s1" by (rule up_end) (simp_all add: splice_init_def)
  moreover have "splice_step ?s1 ?s2" by (rule up_close) simp
  ultimately have r: "splice_step\<^sup>*\<^sup>* ?i ?s2"
    by (meson converse_rtranclp_into_rtranclp rtranclp.rtrancl_refl)
  have "client_closed t \<and> to_client t = []" if "splice_step\<^sup>*\<^sup>* ?s2 t" for t
  proof (rule reach_invariant [OF that])
    show "client_closed ?s2 \<and> to_client ?s2 = []" by (simp add: splice_init_def close_both_def)
  next
    fix a b
    assume "splice_step a b" "client_closed a \<and> to_client a = []"
    then show "client_closed b \<and> to_client b = []"
      by (induction rule: splice_step.induct) (auto simp: close_both_def)
  qed
  with r show ?thesis by (intro exI [of _ ?s2]) (simp add: splice_init_def close_both_def)
qed

theorem splice_half_close_witness:
  "\<exists>s. splice_step\<^sup>*\<^sup>* (splice_init [1] \<lparr>avail = [], rd_err = EOF\<rparr> \<lparr>avail = [9], rd_err = EOF\<rparr>) s \<and>
     to_client s = []"
  using splice_half_close [of "[1]" "\<lparr>avail = [9], rd_err = EOF\<rparr>"] by blast

end
