(* ===== verification/X_Server.thy ===== *)
theory X_Server
  imports X_Channel Acceptor Splice
begin

text \<open>
  The XReality listener, \<open>xreality/listener.go\<close>: \<open>handle\<close> peeks at the ClientHello,
  splices everyone who does not authenticate to the borrowed site, and runs TLS and the channel
  authentication with the others. \<open>tls.Server(..).Handshake\<close> and \<open>net.Dial\<close> are parameters.
\<close>

section \<open>Configuration\<close>

record x_config =
  private_key :: bytes
  short_ids :: "bytes list"
  dest :: string
  time_skew :: int
  x_timeout :: int
  x_on_error :: bool

definition x_default_timeout :: int where "x_default_timeout = 15 * second"

definition x_handshake_timeout :: "x_config \<Rightarrow> int" where
  "x_handshake_timeout c = (if x_timeout c \<le> 0 then x_default_timeout else x_timeout c)"

text \<open>\<open>copy\<close> into a fresh slice of eight zero bytes.\<close>

definition copy_padded :: "bytes \<Rightarrow> bytes" where
  "copy_padded s = take short_id_len s @ replicate (short_id_len - length s) 0"

definition accept_short_id :: "x_config \<Rightarrow> bytes \<Rightarrow> bool" where
  "accept_short_id cfg short_id = list_ex (\<lambda>s. copy_padded s = short_id) (short_ids cfg)"

section \<open>The handler\<close>

record x_env =
  x_tls :: "instream \<Rightarrow> io_err + tls_conn"
  x_dial :: "string \<Rightarrow> io_err option"

datatype x_route = XTunnel tls_conn | XSpliced string instream | XShut

text \<open>
  The outcome: what became of the connection, the deadline left on it, what was written into the
  tunnel, and what \<open>OnError\<close> got.
\<close>

record x_handled =
  x_route :: x_route
  x_deadline :: "int option"
  x_written :: bytes
  x_logged :: "chan_err list"

definition x_logf :: "x_config \<Rightarrow> chan_err \<Rightarrow> chan_err list" where
  "x_logf cfg err = (if x_on_error cfg then [err] else [])"

definition x_passthrough :: "x_env \<Rightarrow> x_config \<Rightarrow> instream \<Rightarrow> x_handled" where
  "x_passthrough env cfg client =
     (if dest cfg = []
      then \<lparr>x_route = XShut, x_deadline = Some (x_handshake_timeout cfg), x_written = [], x_logged = []\<rparr>
      else case x_dial env (dest cfg) of
        Some err \<Rightarrow> \<lparr>x_route = XShut, x_deadline = None, x_written = [], x_logged = x_logf cfg (ChanIO err)\<rparr>
      | None \<Rightarrow> \<lparr>x_route = XSpliced (dest cfg) client, x_deadline = None, x_written = [], x_logged = []\<rparr>)"

definition x_terminate :: "x_env \<Rightarrow> crypto \<Rightarrow> x_config \<Rightarrow> instream \<Rightarrow> bytes \<Rightarrow> x_handled" where
  "x_terminate env K cfg pc key =
     (case x_tls env pc of
        Inl _ \<Rightarrow> \<lparr>x_route = XShut, x_deadline = Some (x_handshake_timeout cfg), x_written = [], x_logged = []\<rparr>
      | Inr conn \<Rightarrow>
          (case server_channel_auth K conn key of
             (Some err, w, _) \<Rightarrow>
               \<lparr>x_route = XShut, x_deadline = Some (x_handshake_timeout cfg), x_written = w, x_logged = x_logf cfg err\<rparr>
           | (None, w, conn) \<Rightarrow>
               \<lparr>x_route = XTunnel conn, x_deadline = None, x_written = w, x_logged = []\<rparr>))"

text \<open>\<open>pc\<close> is the \<open>prefixConn\<close>: the stream that starts with the peeked record.\<close>

definition x_handle :: "x_env \<Rightarrow> crypto \<Rightarrow> x_config \<Rightarrow> instant \<Rightarrow> instream \<Rightarrow> x_handled option" where
  "x_handle env K cfg now raw = do {
     (rec, perr, rest) \<leftarrow> peek_record raw;
     let pc = rest\<lparr>avail := rec @ avail rest\<rparr> in
     (case perr of
        Some _ \<Rightarrow> Some (x_passthrough env cfg pc)
      | None \<Rightarrow> do {
          (d, err) \<leftarrow> authenticate K (private_key cfg) rec (Some (accept_short_id cfg)) (time_skew cfg) now;
          (if err \<noteq> None \<or> \<not> authenticated d then Some (x_passthrough env cfg pc)
           else do {
             key \<leftarrow> auth_key d;
             Some (x_terminate env K cfg pc key) }) }) }"

section \<open>What the handler decides\<close>

text \<open>The auth key of a connection that authenticates; everybody else is a probe.\<close>

definition x_key :: "crypto \<Rightarrow> x_config \<Rightarrow> instant \<Rightarrow> instream \<Rightarrow> bytes option" where
  "x_key K cfg now raw =
     (case peek_record raw of
        Some (rec, None, _) \<Rightarrow>
          (case authenticate K (private_key cfg) rec (Some (accept_short_id cfg)) (time_skew cfg) now of
             Some (d, None) \<Rightarrow> (if authenticated d then auth_key d else None)
           | _ \<Rightarrow> None)
      | _ \<Rightarrow> None)"

lemma x_handle_eq:
  assumes "crypto_ok K"
  shows "x_handle env K cfg now raw = Some
    (case x_key K cfg now raw of None \<Rightarrow> x_passthrough env cfg raw | Some key \<Rightarrow> x_terminate env K cfg raw key)"
proof -
  obtain rec e rest where p: "peek_record raw = Some (rec, e, rest)" "peeked raw rec rest"
    using peek_record_peeked by blast
  from p(2) have pc: "rest\<lparr>avail := rec @ avail rest\<rparr> = raw" by (simp add: peeked_def)
  obtain d err where a: "authenticate K (private_key cfg) rec (Some (accept_short_id cfg)) (time_skew cfg) now
      = Some (d, err)" "authenticated d \<longleftrightarrow> auth_key d \<noteq> None" "err \<noteq> None \<Longrightarrow> \<not> authenticated d"
    using auth_total [OF assms, of "private_key cfg" rec "Some (accept_short_id cfg)" "time_skew cfg" now] by blast
  show ?thesis
  proof (cases "e = None \<and> authenticated d")
    case True
    with a obtain key where "auth_key d = Some key" "err = None" by (cases err) auto
    with True p a pc show ?thesis by (simp add: x_handle_def x_key_def)
  next
    case False
    then show ?thesis using p a pc
      by (cases e; cases err) (auto simp: x_handle_def x_key_def)
  qed
qed

lemma x_key_sealed:
  assumes "crypto_ok K" "x_key K cfg now raw = Some key"
  obtains rec rest d where "peek_record raw = Some (rec, None, rest)" "avail raw = rec @ avail rest"
    "authenticate K (private_key cfg) rec (Some (accept_short_id cfg)) (time_skew cfg) now = Some (d, None)"
    "authenticated d" "auth_key d = Some key"
proof -
  obtain rec e rest where p: "peek_record raw = Some (rec, e, rest)" "peeked raw rec rest"
    using peek_record_peeked by blast
  with assms(2) that show ?thesis
    by (auto simp: x_key_def peeked_def split: option.splits if_splits)
qed

lemma x_key_of_hello:
  assumes "crypto_ok K" and "client_session_id K (c_pub K (private_key scfg)) ce (ch_random h) short now = Inr (ch_session h, key)"
    and "hello_fits h" and "length (hello_body h) + 4 \<le> max_record" and "x25519 (see_hello h) = Some (c_pub K ce)"
    and "\<bar>unix_seconds now\<bar> < 2 ^ 62" and "in_window (time_skew scfg) later (Instant (unix_seconds now * 1000000000))"
    and "accept_short_id scfg (padded short)"
  shows "x_key K scfg later \<lparr>avail = hello_record h @ rest, rd_err = err\<rparr> = Some key"
proof -
  have "allowed (Some (accept_short_id scfg)) (padded short)" using assms(8) by (simp add: allowed_def)
  from auth_agrees [OF assms(1-3,5-7) this, of "[]"] show ?thesis
    by (simp add: x_key_def peek_record_hello [OF assms(3,4)])
qed

lemma x_terminate_tunnel:
  "x_route (x_terminate env K cfg pc key) = XTunnel t \<longleftrightarrow>
     (\<exists>conn w. x_tls env pc = Inr conn \<and> server_channel_auth K conn key = (None, w, t))"
  by (auto simp: x_terminate_def split: sum.splits prod.splits option.splits)

lemma x_terminate_not_spliced: "x_route (x_terminate env K cfg pc key) \<noteq> XSpliced a r"
  by (auto simp: x_terminate_def split: sum.splits prod.splits option.splits)

lemma x_passthrough_route:
  "x_route (x_passthrough env cfg client) =
     (if dest cfg \<noteq> [] \<and> x_dial env (dest cfg) = None then XSpliced (dest cfg) client else XShut)"
  by (auto simp: x_passthrough_def split: option.splits)

section \<open>The listener\<close>

text \<open>A connection is a name, the server's clock when it is decided, and what the client sends.\<close>

definition x_tunnel :: "x_env \<Rightarrow> crypto \<Rightarrow> x_config \<Rightarrow> 'i \<times> instant \<times> instream \<Rightarrow> tls_conn option" where
  "x_tunnel env K cfg c =
     (case x_handle env K cfg (fst (snd c)) (snd (snd c)) of
        Some h \<Rightarrow> (case x_route h of XTunnel t \<Rightarrow> Some t | _ \<Rightarrow> None)
      | None \<Rightarrow> None)"

text \<open>
  The listener of the package: \<open>acceptLoop\<close> starts this handler for every connection, and
  \<open>Accept\<close> and \<open>Close\<close> are those of the common pattern.
\<close>

definition x_listener_init :: "('i \<times> instant \<times> instream, tls_conn) acceptor" where
  "x_listener_init = acceptor_init"

definition x_accept_loop :: "x_env \<Rightarrow> crypto \<Rightarrow> x_config \<Rightarrow>
    ('i \<times> instant \<times> instream, tls_conn) acceptor \<Rightarrow> ('i \<times> instant \<times> instream, tls_conn) acceptor \<Rightarrow> bool" where
  "x_accept_loop env K cfg = loop_step (x_tunnel env K cfg)"

definition x_listener_step :: "x_env \<Rightarrow> crypto \<Rightarrow> x_config \<Rightarrow>
    ('i \<times> instant \<times> instream, tls_conn) acceptor \<Rightarrow> ('i \<times> instant \<times> instream, tls_conn) acceptor \<Rightarrow> bool" where
  "x_listener_step env K cfg s s' \<longleftrightarrow> x_accept_loop env K cfg s s' \<or> api_step s s'"

lemma x_listener_acceptor: "x_listener_step env K cfg = acceptor_step (x_tunnel env K cfg)"
  by (simp add: fun_eq_iff x_listener_step_def x_accept_loop_def acceptor_step_def)

text \<open>
  What a tunnel stands for: the client authenticated with a key of this server, and over the TLS
  channel it sent the proof of that key for the keying material of this very channel.
\<close>

definition x_authentic ::
  "x_env \<Rightarrow> crypto \<Rightarrow> x_config \<Rightarrow> 'i \<times> instant \<times> instream \<Rightarrow> tls_conn \<Rightarrow> bool" where
  "x_authentic env K cfg c t \<longleftrightarrow>
     (\<exists>key conn ekm. x_key K cfg (fst (snd c)) (snd (snd c)) = Some key \<and> x_tls env (snd (snd c)) = Inr conn \<and>
        exporter conn = Inr ekm \<and> tls_write conn (channel_proof K key server_tag ekm) = None \<and>
        t = conn\<lparr>plain := plain t\<rparr> \<and>
        plain conn = (plain t)\<lparr>avail := channel_proof K key client_tag ekm @ avail (plain t)\<rparr>)"

lemma x_tunnel_iff:
  assumes "crypto_ok K" "hmac_ok K"
  shows "x_tunnel env K cfg c = Some t \<longleftrightarrow> x_authentic env K cfg c t"
proof -
  obtain i now raw where c: "c = (i, now, raw)" by (metis prod_cases3)
  show ?thesis
  proof (cases "x_key K cfg now raw")
    case None
    then show ?thesis
      by (simp add: c x_tunnel_def x_authentic_def x_handle_eq [OF assms(1)] x_passthrough_route)
  next
    case (Some key)
    then have "x_tunnel env K cfg c = Some t \<longleftrightarrow> x_route (x_terminate env K cfg raw key) = XTunnel t"
      by (simp add: c x_tunnel_def x_handle_eq [OF assms(1)] split: x_route.split)
    also have "\<dots> \<longleftrightarrow> x_authentic env K cfg c t"
      using Some unfolding x_terminate_tunnel server_channel_iff [OF assms(2)] x_authentic_def c fst_conv snd_conv
      by auto
    finally show ?thesis .
  qed
qed

text \<open>The handler meets the contract of the accept loop for any functions in place of cryptography.\<close>

definition x_channel_bound ::
  "x_env \<Rightarrow> crypto \<Rightarrow> x_config \<Rightarrow> 'i \<times> instant \<times> instream \<Rightarrow> tls_conn \<Rightarrow> bool" where
  "x_channel_bound env K cfg c t \<longleftrightarrow> crypto_ok K \<and> hmac_ok K \<longrightarrow> x_authentic env K cfg c t"

interpretation xreality: authenticator "x_tunnel env K cfg" "x_channel_bound env K cfg" for env K cfg
proof
  fix c t
  assume "x_tunnel env K cfg c = Some t"
  then show "x_channel_bound env K cfg c t" using x_tunnel_iff [of K env cfg c t] by (simp add: x_channel_bound_def)
qed

section \<open>Properties\<close>

text \<open>
  Who gets a tunnel: a connection becomes one exactly if its ClientHello authenticates, TLS
  succeeds on the bytes the client sent, the server could write its proof, and the first 64 bytes of
  plaintext are the client's proof over the keying material of this channel; the tunnel then
  delivers the rest and has no deadline.
\<close>

theorem x_accepts_iff:
  assumes "crypto_ok K" and "hmac_ok K"
  shows "(\<exists>h. x_handle env K cfg now raw = Some h \<and> x_route h = XTunnel t \<and> x_deadline h = None) \<longleftrightarrow>
    (\<exists>key conn ekm. x_key K cfg now raw = Some key \<and> x_tls env raw = Inr conn \<and>
       exporter conn = Inr ekm \<and> tls_write conn (channel_proof K key server_tag ekm) = None \<and>
       t = conn\<lparr>plain := plain t\<rparr> \<and>
       plain conn = (plain t)\<lparr>avail := channel_proof K key client_tag ekm @ avail (plain t)\<rparr>)"
proof -
  have "x_deadline h = None" if "x_handle env K cfg now raw = Some h" "x_route h = XTunnel t" for h
    using that by (auto simp: x_handle_eq [OF assms(1)] x_passthrough_def x_terminate_def
        split: option.splits if_splits sum.splits prod.splits)
  then have "(\<exists>h. x_handle env K cfg now raw = Some h \<and> x_route h = XTunnel t \<and> x_deadline h = None) \<longleftrightarrow>
      x_tunnel env K cfg ((), now, raw) = Some t"
    by (auto simp: x_tunnel_def split: option.splits x_route.splits)
  then show ?thesis by (simp only: x_tunnel_iff [OF assms] x_authentic_def fst_conv snd_conv)
qed

text \<open>
  C8. Probe resistance: the handler always decides. Whoever does not authenticate (no TLS, no or a
  malformed ClientHello, a foreign or stale session id) never gets a byte written by us: the
  connection is spliced, without deadline, to the borrowed site, if it is configured and reachable,
  and in every state of the splice the site has got a prefix of exactly what the client sent and the
  client a prefix of exactly what the site answered.
\<close>

theorem x_probe_resistance:
  assumes "crypto_ok K" and "x_key K cfg now raw = None"
  shows "\<exists>h. x_handle env K cfg now raw = Some h \<and> x_written h = [] \<and>
    (if dest cfg \<noteq> [] \<and> x_dial env (dest cfg) = None
     then x_route h = XSpliced (dest cfg) raw \<and> x_deadline h = None \<and>
       (\<forall>site s. splice_step\<^sup>*\<^sup>* (splice_init [] raw site) s \<longrightarrow>
          prefix (to_site s) (avail raw) \<and> prefix (to_client s) (avail site) \<and>
          (upward s = Copying \<longrightarrow> to_site s @ avail (from_client s) = avail raw))
     else x_route h = XShut)"
proof -
  have h: "x_handle env K cfg now raw = Some (x_passthrough env cfg raw)"
    using assms by (simp add: x_handle_eq)
  have s: "prefix (to_site s) (avail raw) \<and> prefix (to_client s) (avail site) \<and>
      (upward s = Copying \<longrightarrow> to_site s @ avail (from_client s) = avail raw)"
    if "splice_step\<^sup>*\<^sup>* (splice_init [] raw site) s" for site s
    using splice_reach [OF that] by (auto simp: splice_inv_def way_def)
  show ?thesis
    unfolding h using s
    by (intro exI [of _ "x_passthrough env cfg raw"]) (auto simp: x_passthrough_def split: option.splits)
qed


text \<open>
  C26. The listener is safe: in every interleaving of arrivals, handlers, \<open>Accept\<close> and
  \<open>Close\<close>, every tunnel handed out is authenticated and bound to its channel, no connection is
  handed out twice, and at most one error is.
\<close>

theorem x_listener_safe:
  assumes "crypto_ok K" and "hmac_ok K"
    and "(x_listener_step env K cfg)\<^sup>*\<^sup>* x_listener_init s"
  shows "list_all (\<lambda>(c, t). x_authentic env K cfg c t) (tunnels s) \<and> distinct (map fst (tunnels s)) \<and>
    length (accept_errs s) \<le> 1"
  using xreality.handed_authentic [OF assms(3) [unfolded x_listener_acceptor x_listener_init_def]] assms(1,2) by (simp add: x_channel_bound_def)

text \<open>A short id longer than eight bytes admits the clients of its first eight bytes.\<close>

lemma long_short_id:
  assumes "s \<in> set (short_ids cfg)" "8 < length s"
  shows "accept_short_id cfg (take 8 s)"
  using assms by (auto simp: accept_short_id_def copy_padded_def list_ex_iff short_id_len_def intro!: bexI [of _ s])

section \<open>Concrete inputs\<close>

text \<open>A server, the hello of a client that knows its public key, and a TLS channel between them.\<close>

definition server1 :: x_config where
  "server1 = \<lparr>private_key = [3], short_ids = [[1, 2]], dest = ''site:443'', time_skew = 60000000000,
     x_timeout = 0, x_on_error = False\<rparr>"

definition raw1 :: instream where
  "raw1 = \<lparr>avail = hello_record hello_toy, rd_err = EOF\<rparr>"

definition later1 :: instant where "later1 = Instant 1030000000000"

definition conn1 :: "bytes \<Rightarrow> tls_conn" where
  "conn1 key = \<lparr>plain = \<lparr>avail = channel_proof toy64 key client_tag [1] @ [77], rd_err = EOF\<rparr>,
     exporter = Inr [1], tls_write = (\<lambda>_. None)\<rparr>"

definition xenv1 :: "bytes \<Rightarrow> x_env" where
  "xenv1 key = \<lparr>x_tls = (\<lambda>_. Inr (conn1 key)), x_dial = (\<lambda>_. None)\<rparr>"

definition tunnel1 :: tls_conn where
  "tunnel1 = \<lparr>plain = \<lparr>avail = [77], rd_err = EOF\<rparr>, exporter = Inr [1], tls_write = (\<lambda>_. None)\<rparr>"

lemma hello_toy_record: "length (hello_body hello_toy) + 4 \<le> max_record"
  by (simp add: hello_toy_def hello7_def hello_body_def enc_ext_def enc_share_def pad32_def max_record_def
      length_padded)

lemma server1_accepts: "accept_short_id server1 (padded [1, 2])"
  by (simp add: accept_short_id_def server1_def copy_padded_def padded_def short_id_len_def)

lemma server1_key:
  obtains key where "client_session_id toy64 (c_pub toy64 [3]) [5] (ch_random hello_toy) [1, 2]
      (Instant 1000000000999) = Inr (ch_session hello_toy, key)"
    "x_key toy64 server1 later1 raw1 = Some key"
proof -
  obtain key where k: "client_session_id toy64 (c_pub toy64 [3]) [5] (ch_random hello_toy) [1, 2]
      (Instant 1000000000999) = Inr (ch_session hello_toy, key)" using hello_toy_session by auto
  have s: "x25519 (see_hello hello_toy) = Some (c_pub toy64 [5])" "private_key server1 = [3]"
    "time_skew server1 = 60000000000"
    by (simp_all add: hello_toy_share server1_def)
  have "x_key toy64 server1 later1 \<lparr>avail = hello_record hello_toy @ [], rd_err = EOF\<rparr> = Some key"
    by (rule x_key_of_hello [OF toy64_ok(1) _ hello_toy_fits hello_toy_record s(1) toy_window(3) _ server1_accepts])
      (unfold s later1_def, rule k, rule toy_window(1))
  with k show ?thesis by (intro that [of key]) (simp_all add: raw1_def)
qed

lemma conn1_proved:
  "x_tls (xenv1 key) raw1 = Inr (conn1 key)" "exporter (conn1 key) = Inr [1]"
  "tls_write (conn1 key) bs = None" "tunnel1 = (conn1 key)\<lparr>plain := plain tunnel1\<rparr>"
  "plain (conn1 key) = (plain tunnel1)\<lparr>avail := channel_proof toy64 key client_tag [1] @ avail (plain tunnel1)\<rparr>"
  by (simp_all add: xenv1_def conn1_def tunnel1_def)

lemma tunnel1_authentic:
  "x_key toy64 server1 later1 raw1 = Some key \<Longrightarrow>
   x_authentic (xenv1 key) toy64 server1 (0 :: nat, later1, raw1) tunnel1"
  unfolding x_authentic_def fst_conv snd_conv
  by (intro exI [of _ key] exI [of _ "conn1 key"] exI [of _ "[1]"] conjI conn1_proved) assumption

theorem x_accepts_iff_witness:
  "\<exists>env h. x_handle env toy64 server1 later1 raw1 = Some h \<and> x_route h = XTunnel tunnel1 \<and> x_deadline h = None"
proof -
  obtain key where "x_key toy64 server1 later1 raw1 = Some key" by (rule server1_key)
  from tunnel1_authentic [OF this] have "\<exists>h. x_handle (xenv1 key) toy64 server1 later1 raw1 = Some h \<and>
      x_route h = XTunnel tunnel1 \<and> x_deadline h = None"
    unfolding x_accepts_iff [OF toy64_ok] x_authentic_def fst_conv snd_conv .
  then show ?thesis by blast
qed

theorem x_probe_resistance_witness:
  "\<exists>h. x_handle (xenv1 []) toy64 server1 later1 \<lparr>avail = [71, 69, 84], rd_err = EOF\<rparr> = Some h \<and>
     x_written h = [] \<and> x_route h = XSpliced ''site:443'' \<lparr>avail = [71, 69, 84], rd_err = EOF\<rparr>"
proof -
  have k: "x_key toy64 server1 later1 \<lparr>avail = [71, 69, 84], rd_err = EOF\<rparr> = None"
    by (simp add: x_key_def peek_record_def tee_full_def read_full_def)
  have "dest server1 = ''site:443''" "x_dial (xenv1 []) ''site:443'' = None"
    by (simp_all add: server1_def xenv1_def)
  with x_probe_resistance [OF toy64_ok(1) k, of "xenv1 []"] show ?thesis by auto
qed


theorem x_listener_safe_witness:
  "\<exists>env (s :: (nat \<times> instant \<times> instream, tls_conn) acceptor).
     tunnels s = [((0, later1, raw1), tunnel1)] \<and>
     list_all (\<lambda>(c, t). x_authentic env toy64 server1 c t) (tunnels s)"
proof -
  obtain key where "x_key toy64 server1 later1 raw1 = Some key" by (rule server1_key)
  then have "x_tunnel (xenv1 key) toy64 server1 (0 :: nat, later1, raw1) = Some tunnel1"
    unfolding x_tunnel_iff [OF toy64_ok] by (rule tunnel1_authentic)
  from acceptor_run [where handle = "x_tunnel (xenv1 key) toy64 server1", OF this] obtain s where s:
    "(acceptor_step (x_tunnel (xenv1 key) toy64 server1))\<^sup>*\<^sup>* acceptor_init s"
    "tunnels s = [((0 :: nat, later1, raw1), tunnel1)]" by (elim exE conjE)
  from x_listener_safe [OF toy64_ok s(1) [folded x_listener_acceptor x_listener_init_def]] have
    "list_all (\<lambda>(c, t). x_authentic (xenv1 key) toy64 server1 c t) (tunnels s)" by (elim conjE)
  with s(2) show ?thesis by (intro exI [of _ "xenv1 key"] exI [of _ s] conjI)
qed

end
