(* ===== verification/Dialing.thy ===== *)
theory Dialing
  imports Go_IO
begin

text \<open>
  The client side the packages \<open>tlscamo\<close>, \<open>reality\<close>, \<open>xreality\<close> and \<open>xrayreality\<close> share: a
  \<open>Client\<close> function runs a handshake over a dialed connection, a \<open>Dialer\<close> dials, runs it and
  closes the connection when it fails. A run is the list of what was done to the connection and
  the result; the locale states what a \<open>Dialer\<close> relies on.
\<close>

section \<open>What is done to a connection\<close>

datatype conn_event =
  Dialed | ArmDeadline int | ClearDeadline | Sent bytes | CloseTLS | CloseRaw

text \<open>Whether the dialed connection is open, and the deadline it has; closing TLS closes it too.\<close>

fun after_event :: "conn_event \<Rightarrow> bool \<times> int option \<Rightarrow> bool \<times> int option" where
  "after_event Dialed (opn, dl) = (True, None)"
| "after_event (ArmDeadline d) (opn, dl) = (opn, Some d)"
| "after_event ClearDeadline (opn, dl) = (opn, None)"
| "after_event (Sent bs) (opn, dl) = (opn, dl)"
| "after_event CloseTLS (opn, dl) = (False, dl)"
| "after_event CloseRaw (opn, dl) = (False, dl)"

definition left_open :: "conn_event list \<Rightarrow> bool" where
  "left_open evs = fst (fold after_event evs (False, None))"

definition left_deadline :: "conn_event list \<Rightarrow> int option" where
  "left_deadline evs = snd (fold after_event evs (False, None))"

text \<open>A deadline was armed before anything was sent.\<close>

definition bounded_run :: "conn_event list \<Rightarrow> bool" where
  "bounded_run evs \<longleftrightarrow> (\<exists>d pre post. evs = Dialed # pre @ ArmDeadline d # post \<and> pre = [])"

section \<open>Dialer\<close>

text \<open>
  The function a \<open>Dialer\<close> returns: \<open>d\<close> is the outcome of \<open>net.Dial\<close>, \<open>run\<close> what \<open>Client\<close>
  does on the connection; \<open>None\<close> is a panic.
\<close>

definition dial_with ::
  "io_err option \<Rightarrow> (io_err \<Rightarrow> 'e) \<Rightarrow> (conn_event list \<times> ('e + 'c)) option \<Rightarrow>
   (conn_event list \<times> ('e + 'c)) option" where
  "dial_with d wrap_err run =
     (case d of
        Some err \<Rightarrow> Some ([], Inl (wrap_err err))
      | None \<Rightarrow> do {
          (evs, r) \<leftarrow> run;
          (case r of
             Inl err \<Rightarrow> Some (Dialed # evs @ [CloseRaw], Inl err)
           | Inr c \<Rightarrow> Some (Dialed # evs, Inr c)) })"

lemma dial_with_ok:
  "dial_with d w run = Some (evs, Inr c) \<longleftrightarrow>
     d = None \<and> (\<exists>evs'. run = Some (evs', Inr c) \<and> evs = Dialed # evs')"
  by (cases d; cases run) (auto simp: dial_with_def split: sum.splits prod.splits)

lemma dial_with_err:
  "dial_with d w run = Some (evs, Inl e) \<longleftrightarrow>
     (\<exists>err. d = Some err \<and> evs = [] \<and> e = w err) \<or>
     d = None \<and> (\<exists>evs'. run = Some (evs', Inl e) \<and> evs = Dialed # evs' @ [CloseRaw])"
  by (cases d; cases run) (auto simp: dial_with_def split: sum.splits prod.splits)

lemma closed_at_end [simp]: "\<not> fst (after_event CloseRaw s)" "\<not> fst (after_event CloseTLS s)"
  by (cases s, simp)+

text \<open>
  The contract of a \<open>Client\<close>: it does not dial, what it returns is established, and the
  connection is then open and without a deadline.
\<close>

locale handshake_client =
  fixes client :: "'x \<Rightarrow> (conn_event list \<times> ('e + 'c)) option"
    and established :: "'x \<Rightarrow> 'c \<Rightarrow> bool"
  assumes client_established: "client x = Some (evs, Inr c) \<Longrightarrow> established x c"
    and client_open: "client x = Some (evs, Inr c) \<Longrightarrow>
      fold after_event evs (True, None) = (True, None)"
begin

lemma dialer_ok:
  assumes "dial_with d wrap_err (client x) = Some (evs, Inr c)"
  shows "d = None \<and> established x c \<and> left_open evs \<and> left_deadline evs = None"
  using assms client_established client_open
  by (auto simp: dial_with_ok left_open_def left_deadline_def)

lemma dialer_failed:
  assumes "dial_with d wrap_err (client x) = Some (evs, Inl err)"
  shows "\<not> left_open evs"
  using assms by (auto simp: dial_with_err left_open_def)

lemma dialer_safe:
  assumes "dial_with d wrap_err (client x) = Some (evs, r)"
  shows "case r of Inr c \<Rightarrow> d = None \<and> established x c \<and> left_open evs \<and> left_deadline evs = None
    | Inl _ \<Rightarrow> \<not> left_open evs"
  using assms dialer_ok dialer_failed by (cases r) auto

end

end
