(* ===== verification/Tls_Camo.thy ===== *)
theory Tls_Camo
  imports Dialing
begin

text \<open>
  Browser-like TLS on the client, \<open>tlscamo/tlscamo.go\<close>, and the dialer of
  \<open>reality/reality.go\<close> on top of it. The uTLS handshake is a parameter: a function of the
  configuration and of the ClientHello to imitate.
\<close>

section \<open>Fingerprints and configuration\<close>

text \<open>
  \<open>utls.ClientHelloID\<close> with the fields the code looks at; an empty client name is the zero
  value. The presets are constants of the library.
\<close>

record hello_id =
  id_client :: string
  id_version :: string

record presets =
  chrome :: hello_id
  firefox :: hello_id
  safari :: hello_id
  edge :: hello_id

definition roll_set :: "presets \<Rightarrow> hello_id list" where
  "roll_set ps = [chrome ps, firefox ps, safari ps, edge ps]"

record 'ca camo_config =
  camo_name :: string
  fingerprint :: hello_id
  next_protos :: "string list"
  root_cas :: 'ca
  insecure :: bool
  roll :: bool
  ech_list :: bytes

text \<open>\<open>utls.Config\<close> as \<open>Client\<close> fills it.\<close>

record 'ca utls_config =
  u_name :: string
  u_roots :: 'ca
  u_insecure :: bool
  u_protos :: "string list"
  u_ech :: bytes

definition default_alpn :: "string list" where
  "default_alpn = [''h2'', ''http/1.1'']"

text \<open>The fingerprint of a call; \<open>rand.Intn\<close> is drawn only for \<open>Roll\<close>.\<close>

definition pick_hello_id :: "presets \<Rightarrow> 'ca camo_config \<Rightarrow> rng \<Rightarrow> (hello_id \<times> rng) option" where
  "pick_hello_id ps cfg r =
     (let h = (if id_client (fingerprint cfg) = [] then chrome ps else fingerprint cfg) in
      if roll cfg then do {
        (k, r) \<leftarrow> rand_Intn (int (length (roll_set ps))) r;
        h \<leftarrow> idx (roll_set ps) (nat k);
        Some (h, r) }
      else Some (h, r))"

definition camo_utls :: "'ca camo_config \<Rightarrow> 'ca utls_config" where
  "camo_utls cfg = \<lparr>u_name = camo_name cfg, u_roots = root_cas cfg, u_insecure = insecure cfg,
     u_protos = (if length (next_protos cfg) = 0 then default_alpn else next_protos cfg),
     u_ech = ech_list cfg\<rparr>"

text \<open>
  \<open>Client\<close>: \<open>hs\<close> is \<open>uconn.Handshake()\<close>. It touches the connection in no other way, so no
  deadline is set and nothing is closed.
\<close>

definition camo_client ::
  "presets \<Rightarrow> ('ca utls_config \<Rightarrow> hello_id \<Rightarrow> io_err + 'c) \<Rightarrow> 'ca camo_config \<times> rng \<Rightarrow>
   (conn_event list \<times> (io_err + 'c)) option" where
  "camo_client ps hs x = do {
     (h, r) \<leftarrow> pick_hello_id ps (fst x) (snd x);
     (case hs (camo_utls (fst x)) h of
        Inl err \<Rightarrow> Some ([], Inl err)
      | Inr c \<Rightarrow> Some ([], Inr c)) }"

section \<open>The name of the server\<close>

text \<open>
  \<open>net.SplitHostPort\<close>: the last colon separates the port; a host in brackets may hold colons,
  and no other bracket may occur. \<open>None\<close> is any of its errors.
\<close>

definition last_index :: "char \<Rightarrow> string \<Rightarrow> nat option" where
  "last_index c s = (if c \<in> set s then Some (length s - 1 - length (takeWhile (\<lambda>x. x \<noteq> c) (rev s))) else None)"

definition first_index :: "char \<Rightarrow> string \<Rightarrow> nat option" where
  "first_index c s = (if c \<in> set s then Some (length (takeWhile (\<lambda>x. x \<noteq> c) s)) else None)"

definition split_host_port :: "string \<Rightarrow> (string \<times> string) option" where
  "split_host_port hp = do {
     i \<leftarrow> last_index CHR '':'' hp;
     (host, j, k) \<leftarrow>
       (if hd hp = CHR ''['' then do {
          e \<leftarrow> first_index CHR '']'' hp;
          (if e + 1 = i then Some (take (e - 1) (drop 1 hp), 1, e + 1) else None) }
        else let host = take i hp in
          if CHR '':'' \<in> set host then None else Some (host, 0, 0));
     (if CHR ''['' \<in> set (drop j hp) \<or> CHR '']'' \<in> set (drop k hp) then None
      else Some (host, drop (i + 1) hp)) }"

text \<open>\<open>Dialer\<close> derives the server name from the address when none is set, once.\<close>

definition derive_name :: "string \<Rightarrow> 'ca camo_config \<Rightarrow> 'ca camo_config" where
  "derive_name addr cfg =
     (if camo_name cfg = [] then
        (case split_host_port addr of
           Some (host, _) \<Rightarrow> cfg\<lparr>camo_name := host\<rparr>
         | None \<Rightarrow> cfg)
      else cfg)"

definition camo_dialer ::
  "presets \<Rightarrow> ('ca utls_config \<Rightarrow> hello_id \<Rightarrow> io_err + 'c) \<Rightarrow> io_err option \<Rightarrow> string \<Rightarrow>
   'ca camo_config \<Rightarrow> rng \<Rightarrow> (conn_event list \<times> (io_err + 'c)) option" where
  "camo_dialer ps hs d addr cfg r = dial_with d id (camo_client ps hs (derive_name addr cfg, r))"

text \<open>
  \<open>reality.Dialer\<close>: the token is the first thing written into the tunnel; \<open>wr\<close> is
  \<open>conn.Write\<close>.
\<close>

definition reality_dialer ::
  "presets \<Rightarrow> ('ca utls_config \<Rightarrow> hello_id \<Rightarrow> io_err + 'c) \<Rightarrow> ('c \<Rightarrow> bytes \<Rightarrow> io_err option) \<Rightarrow>
   io_err option \<Rightarrow> 'ca camo_config \<Rightarrow> bytes \<Rightarrow> rng \<Rightarrow> (conn_event list \<times> (io_err + 'c)) option" where
  "reality_dialer ps hs wr d cfg token r = do {
     (evs, res) \<leftarrow> dial_with d id (camo_client ps hs (cfg, r));
     (case res of
        Inl err \<Rightarrow> Some (evs, Inl err)
      | Inr c \<Rightarrow>
          (case wr c token of
             Some err \<Rightarrow> Some (evs @ [CloseTLS], Inl err)
           | None \<Rightarrow> Some (evs @ [Sent token], Inr c))) }"

section \<open>Lemmas\<close>

text \<open>What the handshake of a call may have imitated.\<close>

definition imitates :: "presets \<Rightarrow> 'ca camo_config \<Rightarrow> hello_id \<Rightarrow> bool" where
  "imitates ps cfg h \<longleftrightarrow>
     (if roll cfg then h \<in> {chrome ps, firefox ps, safari ps, edge ps}
      else if id_client (fingerprint cfg) = [] then h = chrome ps else h = fingerprint cfg)"

lemma roll_set_nth: "k < 4 \<Longrightarrow> \<exists>h. idx (roll_set ps) k = Some h \<and> h \<in> {chrome ps, firefox ps, safari ps, edge ps}"
  by (auto simp: idx_def roll_set_def less_Suc_eq numeral_eq_Suc)

lemma pick_imitates: "\<exists>h r'. pick_hello_id ps cfg r = Some (h, r') \<and> imitates ps cfg h"
proof (cases "roll cfg")
  case True
  obtain k where k: "rand_Intn 4 r = Some (k, stl r)" "0 \<le> k" "k < 4"
    using rand_Intn_Some [of 4 r] by auto
  then have "nat k < 4" by simp
  from roll_set_nth [OF this] obtain h where "idx (roll_set ps) (nat k) = Some h"
    "h \<in> {chrome ps, firefox ps, safari ps, edge ps}" by blast
  with True k show ?thesis by (simp add: pick_hello_id_def imitates_def roll_set_def)
qed (simp add: pick_hello_id_def imitates_def)

definition camo_established ::
  "presets \<Rightarrow> ('ca utls_config \<Rightarrow> hello_id \<Rightarrow> io_err + 'c) \<Rightarrow> 'ca camo_config \<times> rng \<Rightarrow> 'c \<Rightarrow> bool" where
  "camo_established ps hs x c \<longleftrightarrow> (\<exists>h. imitates ps (fst x) h \<and> hs (camo_utls (fst x)) h = Inr c)"

lemma camo_client_cases:
  "\<exists>h. imitates ps (fst x) h \<and> camo_client ps hs x = Some ([], hs (camo_utls (fst x)) h)"
proof -
  obtain h r' where "pick_hello_id ps (fst x) (snd x) = Some (h, r')" "imitates ps (fst x) h"
    using pick_imitates by blast
  then show ?thesis by (auto simp: camo_client_def split: sum.split)
qed

interpretation camo: handshake_client "camo_client ps hs" "camo_established ps hs" for ps hs
proof
  fix x evs c
  assume a: "camo_client ps hs x = Some (evs, Inr c)"
  obtain h where h: "imitates ps (fst x) h" "camo_client ps hs x = Some ([], hs (camo_utls (fst x)) h)"
    using camo_client_cases by blast
  with a show "camo_established ps hs x c" by (auto simp: camo_established_def)
  from a h show "fold after_event evs (True, None) = (True, None)" by simp
qed

lemma takeWhile_to: "c \<notin> set a \<Longrightarrow> takeWhile (\<lambda>x. x \<noteq> c) (a @ c # b) = a"
  by (induction a) auto

lemma first_index_app: "c \<notin> set a \<Longrightarrow> first_index c (a @ c # b) = Some (length a)"
  by (simp add: first_index_def takeWhile_to)

lemma last_index_app: "c \<notin> set b \<Longrightarrow> last_index c (a @ c # b) = Some (length a)"
  using takeWhile_to [of c "rev b" "rev a"] by (simp add: last_index_def)

lemma split_plain:
  assumes "CHR '':'' \<notin> set (host @ port)" "CHR ''['' \<notin> set (host @ port)" "CHR '']'' \<notin> set (host @ port)"
  shows "split_host_port (host @ '':'' @ port) = Some (host, port)"
proof -
  have "hd (host @ CHR '':'' # port) \<noteq> CHR ''[''" using assms(2) by (cases host) auto
  then show ?thesis using assms by (simp add: split_host_port_def last_index_app)
qed

lemma split_bracketed:
  assumes "CHR ''['' \<notin> set (host @ port)" "CHR '']'' \<notin> set (host @ port)" "CHR '':'' \<notin> set port"
  shows "split_host_port (''['' @ host @ '']:'' @ port) = Some (host, port)"
proof -
  let ?hp = "CHR ''['' # host @ CHR '']'' # CHR '':'' # port"
  have "last_index CHR '':'' ((CHR ''['' # host @ [CHR '']'']) @ CHR '':'' # port) = Some (length host + 2)"
    by (subst last_index_app) (use assms in simp_all)
  moreover have "first_index CHR '']'' ((CHR ''['' # host) @ CHR '']'' # CHR '':'' # port) = Some (length host + 1)"
    by (subst first_index_app) (use assms in simp_all)
  ultimately show ?thesis using assms by (simp add: split_host_port_def)
qed

section \<open>Properties\<close>

text \<open>
  The server name: without a configured one, \<open>Dialer\<close> verifies the host of the address it
  dials, for a plain host and for an IPv6 host in brackets; a configured name is kept.
\<close>

theorem camo_name_derived:
  assumes "CHR ''['' \<notin> set (host @ port)" and "CHR '']'' \<notin> set (host @ port)" and "CHR '':'' \<notin> set port"
    and "camo_name cfg = []"
  shows "camo_name (derive_name (''['' @ host @ '']:'' @ port) cfg) = host \<and>
    (CHR '':'' \<notin> set host \<longrightarrow> camo_name (derive_name (host @ '':'' @ port) cfg) = host)"
  using split_bracketed [OF assms(1-3)] split_plain [of host port] assms
  by (simp add: derive_name_def)

text \<open>
  The camouflaged dialer: every call returns; a connection it returns went through a
  handshake with the derived name that imitated the configured browser, Chrome by default, or one
  of the four of the pool with \<open>Roll\<close>, and is open; after an error nothing is left open. No call
  ever arms a deadline, so it waits for the server as long as the server likes.
\<close>

theorem camo_dialer_safe:
  "\<exists>evs res. camo_dialer ps hs d addr cfg r = Some (evs, res) \<and> (\<forall>t. ArmDeadline t \<notin> set evs) \<and>
     (case res of
        Inr c \<Rightarrow> d = None \<and> left_open evs \<and>
          (\<exists>h. imitates ps (derive_name addr cfg) h \<and> hs (camo_utls (derive_name addr cfg)) h = Inr c)
      | Inl _ \<Rightarrow> \<not> left_open evs)"
proof -
  let ?x = "(derive_name addr cfg, r)"
  obtain h where h: "camo_client ps hs ?x = Some ([], hs (camo_utls (fst ?x)) h)"
    using camo_client_cases by blast
  obtain evs res where e: "camo_dialer ps hs d addr cfg r = Some (evs, res)"
    "\<forall>t. ArmDeadline t \<notin> set evs"
    unfolding camo_dialer_def dial_with_def h by (cases d; cases "hs (camo_utls (fst ?x)) h") auto
  with camo.dialer_safe [of d id ps hs ?x evs res] show ?thesis
    by (auto simp: camo_dialer_def camo_established_def split: sum.splits)
qed

text \<open>
  The reality dialer: it returns; what it returns is an open tunnel into which exactly the token was
  written, and when the handshake or that write fails the connection is closed.
\<close>

definition sent_bytes :: "conn_event list \<Rightarrow> bytes" where
  "sent_bytes evs = concat (map (\<lambda>e. case e of Sent bs \<Rightarrow> bs | _ \<Rightarrow> []) evs)"

lemma reality_dialer_total: "\<exists>evs res. reality_dialer ps hs wr d cfg token r = Some (evs, res)"
proof -
  obtain h where h: "camo_client ps hs (cfg, r) = Some ([], hs (camo_utls cfg) h)"
    using camo_client_cases [of ps "(cfg, r)" hs] by auto
  show ?thesis unfolding reality_dialer_def dial_with_def h
    by (auto split: option.split sum.split prod.split)
qed

lemma reality_dialer_ok:
  assumes "reality_dialer ps hs wr d cfg token r = Some (evs, Inr c)"
  shows "d = None \<and> wr c token = None \<and> evs = [Dialed, Sent token] \<and> camo_established ps hs (cfg, r) c"
proof -
  obtain h where h: "camo_client ps hs (cfg, r) = Some ([], hs (camo_utls cfg) h)" "imitates ps cfg h"
    using camo_client_cases [of ps "(cfg, r)" hs] by auto
  show ?thesis
    using assms h(2) unfolding reality_dialer_def dial_with_def h(1) camo_established_def
    by (cases d; cases "hs (camo_utls cfg) h") (auto split: option.splits)
qed

lemma reality_dialer_failed:
  assumes "reality_dialer ps hs wr d cfg token r = Some (evs, Inl err)"
  shows "\<not> left_open evs"
proof -
  obtain h where h: "camo_client ps hs (cfg, r) = Some ([], hs (camo_utls cfg) h)"
    using camo_client_cases [of ps "(cfg, r)" hs] by auto
  show ?thesis
    using assms unfolding reality_dialer_def dial_with_def h
    by (cases d; cases "hs (camo_utls cfg) h") (auto simp: left_open_def split: option.splits)
qed

section \<open>Concrete inputs\<close>

definition presets1 :: presets where
  "presets1 = \<lparr>chrome = \<lparr>id_client = ''Chrome'', id_version = ''133''\<rparr>,
     firefox = \<lparr>id_client = ''Firefox'', id_version = ''120''\<rparr>,
     safari = \<lparr>id_client = ''Safari'', id_version = ''16''\<rparr>,
     edge = \<lparr>id_client = ''Edge'', id_version = ''85''\<rparr>\<rparr>"

definition camo1 :: "unit camo_config" where
  "camo1 = \<lparr>camo_name = [], fingerprint = \<lparr>id_client = [], id_version = []\<rparr>, next_protos = [],
     root_cas = (), insecure = False, roll = False, ech_list = []\<rparr>"

theorem camo_name_derived_witness:
  "camo_name (derive_name ''[::1]:443'' camo1) = ''::1''"
  using camo_name_derived [of "''::1''" "''443''" camo1] by (simp add: camo1_def)

end
