(* ===== verification/X_Client.thy ===== *)
theory X_Client
  imports X_Server Tls_Camo
begin

text \<open>
  The XReality client, \<open>xreality/client.go\<close>: it seals the session id with the key share uTLS
  generated for the hello, runs the handshake and authenticates the server inside the channel. uTLS
  is a record of functions.
\<close>

section \<open>uTLS as the client uses it\<close>

text \<open>
  What \<open>BuildHandshakeState\<close> leaves in \<open>HandshakeState\<close>: the random, the key shares (group and
  data) and the X25519 private key, if any.
\<close>

record built_hello =
  b_random :: bytes
  b_shares :: "(16 word \<times> bytes) list"
  b_ecdhe :: "bytes option"

text \<open>
  \<open>marshal_hello\<close> and \<open>run_handshake\<close> are \<open>MarshalClientHello\<close> and \<open>Handshake\<close> after the
  session id was set.
\<close>

record x_utls =
  build_hello :: "unit utls_config \<Rightarrow> hello_id \<Rightarrow> io_err + built_hello"
  marshal_hello :: "bytes \<Rightarrow> io_err option"
  run_handshake :: "bytes \<Rightarrow> io_err + tls_conn"

record x_client_config =
  server_public_key :: bytes
  short_id :: bytes
  x_name :: string
  x_fingerprint :: hello_id
  x_protos :: "string list"
  client_timeout :: int

datatype client_err = ClientIO io_err | ErrNoX25519 | ClientAuth x_err | ClientChan chan_err

definition has_x25519_share :: "(16 word \<times> bytes) list \<Rightarrow> bytes \<Rightarrow> bool" where
  "has_x25519_share shares pub = list_ex (\<lambda>(group, data). group = 0x1d \<and> data = pub) shares"

definition x_client_utls :: "x_client_config \<Rightarrow> unit utls_config" where
  "x_client_utls cfg = \<lparr>u_name = x_name cfg, u_roots = (), u_insecure = True,
     u_protos = (if length (x_protos cfg) = 0 then default_alpn else x_protos cfg), u_ech = []\<rparr>"

definition x_client_timeout :: "x_client_config \<Rightarrow> int" where
  "x_client_timeout cfg = (if client_timeout cfg \<le> 0 then x_default_timeout else client_timeout cfg)"

text \<open>\<open>dflt\<close> is \<open>DefaultFingerprint\<close>.\<close>

definition x_hello_id :: "hello_id \<Rightarrow> x_client_config \<Rightarrow> hello_id" where
  "x_hello_id dflt cfg = (if id_client (x_fingerprint cfg) = [] then dflt else x_fingerprint cfg)"

section \<open>Client and Dialer\<close>

text \<open>
  \<open>Client\<close> on a dialed connection; \<open>now\<close> is the clock.
\<close>

definition x_client ::
  "x_utls \<Rightarrow> crypto \<Rightarrow> hello_id \<Rightarrow> x_client_config \<Rightarrow> instant \<Rightarrow>
   (conn_event list \<times> (client_err + tls_conn)) option" where
  "x_client U K dflt cfg now =
     (let arm = ArmDeadline (x_client_timeout cfg) in
      case build_hello U (x_client_utls cfg) (x_hello_id dflt cfg) of
        Inl err \<Rightarrow> Some ([arm], Inl (ClientIO err))
      | Inr b \<Rightarrow>
          (case b_ecdhe b of
             None \<Rightarrow> Some ([arm], Inl ErrNoX25519)
           | Some ephemeral \<Rightarrow>
               if \<not> has_x25519_share (b_shares b) (c_pub K ephemeral)
               then Some ([arm], Inl ErrNoX25519)
               else case client_session_id K (server_public_key cfg) ephemeral (b_random b) (short_id cfg) now of
                 Inl err \<Rightarrow> Some ([arm], Inl (ClientAuth err))
               | Inr (sid, key) \<Rightarrow>
                   (case marshal_hello U sid of
                      Some err \<Rightarrow> Some ([arm], Inl (ClientIO err))
                    | None \<Rightarrow>
                        (case run_handshake U sid of
                           Inl err \<Rightarrow> Some ([arm], Inl (ClientIO err))
                         | Inr u \<Rightarrow>
                             (case client_channel_auth K u key of
                                (Some err, w, _) \<Rightarrow> Some ([arm, Sent w, CloseTLS], Inl (ClientChan err))
                              | (None, w, u) \<Rightarrow> Some ([arm, Sent w, ClearDeadline], Inr u))))))"

definition x_dialer ::
  "x_utls \<Rightarrow> crypto \<Rightarrow> hello_id \<Rightarrow> io_err option \<Rightarrow> x_client_config \<Rightarrow> instant \<Rightarrow>
   (conn_event list \<times> (client_err + tls_conn)) option" where
  "x_dialer U K dflt d cfg now = dial_with d ClientIO (x_client U K dflt cfg now)"

section \<open>What the client returns\<close>

definition x_established :: "x_utls \<Rightarrow> crypto \<Rightarrow> x_client_config \<Rightarrow> instant \<Rightarrow> tls_conn \<Rightarrow> bool" where
  "x_established U K cfg now c \<longleftrightarrow>
     (\<exists>h b ephemeral sid key u w. build_hello U (x_client_utls cfg) h = Inr b \<and> b_ecdhe b = Some ephemeral \<and>
        client_session_id K (server_public_key cfg) ephemeral (b_random b) (short_id cfg) now = Inr (sid, key) \<and>
        run_handshake U sid = Inr u \<and> client_channel_auth K u key = (None, w, c))"

lemma x_client_inr:
  assumes "x_client U K dflt cfg now = Some (evs, Inr c)"
  obtains h b ephemeral sid key u w where
    "build_hello U (x_client_utls cfg) h = Inr b" "b_ecdhe b = Some ephemeral"
    "client_session_id K (server_public_key cfg) ephemeral (b_random b) (short_id cfg) now = Inr (sid, key)"
    "run_handshake U sid = Inr u" "client_channel_auth K u key = (None, w, c)"
    "evs = [ArmDeadline (x_client_timeout cfg), Sent w, ClearDeadline]"
  using assms unfolding x_client_def Let_def
  by (auto split: sum.splits option.splits if_splits prod.splits)

interpretation xclient: handshake_client "x_client U K dflt cfg" "x_established U K cfg" for U K dflt cfg
proof
  fix now evs c
  assume "x_client U K dflt cfg now = Some (evs, Inr c)"
  then obtain h b ephemeral sid key u w where r:
    "build_hello U (x_client_utls cfg) h = Inr b" "b_ecdhe b = Some ephemeral"
    "client_session_id K (server_public_key cfg) ephemeral (b_random b) (short_id cfg) now = Inr (sid, key)"
    "run_handshake U sid = Inr u" "client_channel_auth K u key = (None, w, c)"
    "evs = [ArmDeadline (x_client_timeout cfg), Sent w, ClearDeadline]" by (rule x_client_inr)
  from r(1-5) show "x_established U K cfg now c" unfolding x_established_def by blast
  from r(6) show "fold after_event evs (True, None) = (True, None)" by simp
qed

lemma x_dialer_armed:
  assumes "x_dialer U K dflt None cfg now = Some (evs, r)"
  shows "\<exists>post. evs = Dialed # ArmDeadline (x_client_timeout cfg) # post"
  using assms unfolding x_dialer_def dial_with_def x_client_def Let_def
  by (auto split: sum.splits option.splits if_splits prod.splits)

lemma x_client_timeout_pos: "0 < x_client_timeout cfg"
  by (simp add: x_client_timeout_def x_default_timeout_def second_def)

lemma client_verified:
  "hmac_ok K \<Longrightarrow> client_channel_auth K u key = (None, w, c) \<Longrightarrow>
   \<exists>ekm. exporter u = Inr ekm \<and>
     plain u = (plain c)\<lparr>avail := channel_proof K key server_tag ekm @ avail (plain c)\<rparr>"
  unfolding client_channel_iff by (elim exE conjE) (intro exI conjI)

section \<open>Properties\<close>

text \<open>
  C16. The client fails closed: whatever the network and the server do, the dialer arms a positive
  deadline before anything else, and what it returns is an open connection without deadline whose
  server proved, over the keying material of this channel, the key that the client shares with the
  configured public key alone; otherwise nothing is left open.
\<close>

theorem x_client_fails_closed:
  assumes "hmac_ok K" and "x_dialer U K dflt d cfg now = Some (evs, res)"
  shows "(d = None \<longrightarrow> (\<exists>t post. 0 < t \<and> evs = Dialed # ArmDeadline t # post)) \<and>
    (case res of
       Inl _ \<Rightarrow> \<not> left_open evs
     | Inr c \<Rightarrow> d = None \<and> left_open evs \<and> left_deadline evs = None \<and>
         (\<exists>h b ephemeral sid key u ekm. build_hello U (x_client_utls cfg) h = Inr b \<and> b_ecdhe b = Some ephemeral \<and>
            client_session_id K (server_public_key cfg) ephemeral (b_random b) (short_id cfg) now = Inr (sid, key) \<and>
            run_handshake U sid = Inr u \<and> exporter u = Inr ekm \<and>
            plain u = (plain c)\<lparr>avail := channel_proof K key server_tag ekm @ avail (plain c)\<rparr>))"
proof (intro conjI impI)
  assume "d = None"
  with assms(2) x_dialer_armed x_client_timeout_pos
  show "\<exists>t post. 0 < t \<and> evs = Dialed # ArmDeadline t # post" by blast
next
  have s: "case res of Inr c \<Rightarrow> d = None \<and> x_established U K cfg now c \<and> left_open evs \<and> left_deadline evs = None
    | Inl _ \<Rightarrow> \<not> left_open evs"
    using assms(2) unfolding x_dialer_def by (rule xclient.dialer_safe)
  show "case res of
       Inl _ \<Rightarrow> \<not> left_open evs
     | Inr c \<Rightarrow> d = None \<and> left_open evs \<and> left_deadline evs = None \<and>
         (\<exists>h b ephemeral sid key u ekm. build_hello U (x_client_utls cfg) h = Inr b \<and> b_ecdhe b = Some ephemeral \<and>
            client_session_id K (server_public_key cfg) ephemeral (b_random b) (short_id cfg) now = Inr (sid, key) \<and>
            run_handshake U sid = Inr u \<and> exporter u = Inr ekm \<and>
            plain u = (plain c)\<lparr>avail := channel_proof K key server_tag ekm @ avail (plain c)\<rparr>)"
  proof (cases res)
    case (Inr c)
    with s have e: "d = None" "left_open evs" "left_deadline evs = None" "x_established U K cfg now c" by simp_all
    from e(4) obtain h b ephemeral sid key u w where
      r0: "build_hello U (x_client_utls cfg) h = Inr b" and r: "b_ecdhe b = Some ephemeral"
      "client_session_id K (server_public_key cfg) ephemeral (b_random b) (short_id cfg) now = Inr (sid, key)"
      "run_handshake U sid = Inr u" "client_channel_auth K u key = (None, w, c)"
      unfolding x_established_def by blast
    from client_verified [OF assms(1) r(4)] obtain ekm where "exporter u = Inr ekm"
      "plain u = (plain c)\<lparr>avail := channel_proof K key server_tag ekm @ avail (plain c)\<rparr>" by (elim exE conjE)
    with e(1-3) r0 r(1-3) show ?thesis unfolding Inr sum.case by (intro conjI exI)
  qed (use s in simp)
qed

lemma server_writes_proof:
  "exporter conn = Inr ekm \<Longrightarrow> tls_write conn (channel_proof K key server_tag ekm) = None \<Longrightarrow>
   x_tls env pc = Inr conn \<Longrightarrow>
   x_written (x_terminate env K cfg pc key) = channel_proof K key server_tag ekm"
  by (auto simp: x_terminate_def server_channel_auth_def Let_def split: prod.split option.split)

text \<open>A client and a server that hold the two halves of a key pair reach tunnels.\<close>

lemma x_tunnels_meet:
  assumes "crypto_ok K" and "hmac_ok K"
    and "build_hello U (x_client_utls ccfg) (x_hello_id dflt ccfg) = Inr b" and "b_ecdhe b = Some ephemeral"
    and "has_x25519_share (b_shares b) (c_pub K ephemeral)"
    and "server_public_key ccfg = c_pub K (private_key scfg)"
    and "client_session_id K (server_public_key ccfg) ephemeral (b_random b) (short_id ccfg) now = Inr (ch_session h, key)"
    and "ch_random h = b_random b" and "x25519 (see_hello h) = Some (c_pub K ephemeral)"
    and "hello_fits h" and "length (hello_body h) + 4 \<le> max_record"
    and "\<bar>unix_seconds now\<bar> < 2 ^ 62" and "in_window (time_skew scfg) later (Instant (unix_seconds now * 1000000000))"
    and "accept_short_id scfg (padded (short_id ccfg))"
    and "marshal_hello U (ch_session h) = None" and "run_handshake U (ch_session h) = Inr u"
    and "x_tls env \<lparr>avail = hello_record h @ follow, rd_err = err\<rparr> = Inr conn"
    and "exporter u = Inr ekm" and "exporter conn = Inr ekm"
    and "\<And>bs. tls_write u bs = None" and "\<And>bs. tls_write conn bs = None"
    and "x_client U K dflt ccfg now = Some (evs, res)"
    and "x_handle env K scfg later \<lparr>avail = hello_record h @ follow, rd_err = err\<rparr> = Some sh"
    and "avail (plain u) = x_written sh @ down" and "avail (plain conn) = sent_bytes evs @ up"
  shows "res = Inr (u\<lparr>plain := (plain u)\<lparr>avail := down\<rparr>\<rparr>) \<and>
    x_route sh = XTunnel (conn\<lparr>plain := (plain conn)\<lparr>avail := up\<rparr>\<rparr>)"
proof -
  let ?raw = "\<lparr>avail = hello_record h @ follow, rd_err = err\<rparr>"
  let ?S = "channel_proof K key server_tag ekm" and ?C = "channel_proof K key client_tag ekm"
  have "client_session_id K (c_pub K (private_key scfg)) ephemeral (ch_random h) (short_id ccfg) now = Inr (ch_session h, key)"
    using assms(6-8) by simp
  note k = x_key_of_hello [OF assms(1) this assms(10,11,9,12,13,14), of follow err]
  have sh: "sh = x_terminate env K scfg ?raw key"
    using assms(23) k by (simp add: x_handle_eq [OF assms(1)])
  have "x_written sh = ?S" unfolding sh using server_writes_proof assms(17,19,21) by blast
  with assms(24) have "plain u = (plain u)\<lparr>avail := ?S @ down\<rparr>" by (cases "plain u") simp
  then have "client_channel_auth K u key = (None, ?C, u\<lparr>plain := (plain u)\<lparr>avail := down\<rparr>\<rparr>)"
    unfolding client_channel_iff [OF assms(2)] using assms(18,20) by (intro exI [of _ ekm]) simp
  then have c: "res = Inr (u\<lparr>plain := (plain u)\<lparr>avail := down\<rparr>\<rparr>)" "sent_bytes evs = ?C"
    using assms(3-5,7,15,16,22) by (auto simp: x_client_def Let_def sent_bytes_def)
  with assms(25) have "plain conn = (plain conn)\<lparr>avail := ?C @ up\<rparr>" by (cases "plain conn") simp
  then have "server_channel_auth K conn key = (None, ?S, conn\<lparr>plain := (plain conn)\<lparr>avail := up\<rparr>\<rparr>)"
    unfolding server_channel_iff [OF assms(2)] using assms(19,21) by (intro exI [of _ ekm]) simp
  with assms(17) c(1) show ?thesis unfolding sh x_terminate_tunnel by blast
qed

text \<open>
  C2. End to end: a client and a server that hold the two halves of a key pair meet. If the hello
  the client sends carries its random, its session id and its share, the clocks agree within the
  skew, the short id is configured, both ends of the TLS channel export the same keying material and
  the channel delivers to each side what the other wrote followed by application data, then the
  client returns a connection and the server hands out a tunnel, and each delivers exactly the
  application data of the other side.
\<close>

theorem x_end_to_end:
  assumes "crypto_ok K" and "hmac_ok K"
    and "build_hello U (x_client_utls ccfg) (x_hello_id dflt ccfg) = Inr b" and "b_ecdhe b = Some ephemeral"
    and "has_x25519_share (b_shares b) (c_pub K ephemeral)"
    and "server_public_key ccfg = c_pub K (private_key scfg)"
    and "client_session_id K (server_public_key ccfg) ephemeral (b_random b) (short_id ccfg) now = Inr (ch_session h, key)"
    and "ch_random h = b_random b" and "x25519 (see_hello h) = Some (c_pub K ephemeral)"
    and "hello_fits h" and "length (hello_body h) + 4 \<le> max_record"
    and "\<bar>unix_seconds now\<bar> < 2 ^ 62" and "in_window (time_skew scfg) later (Instant (unix_seconds now * 1000000000))"
    and "accept_short_id scfg (padded (short_id ccfg))"
    and "marshal_hello U (ch_session h) = None" and "run_handshake U (ch_session h) = Inr u"
    and "x_tls env \<lparr>avail = hello_record h @ follow, rd_err = err\<rparr> = Inr conn"
    and "exporter u = Inr ekm" and "exporter conn = Inr ekm"
    and "\<And>bs. tls_write u bs = None" and "\<And>bs. tls_write conn bs = None"
    and "x_client U K dflt ccfg now = Some (evs, res)"
    and "x_handle env K scfg later \<lparr>avail = hello_record h @ follow, rd_err = err\<rparr> = Some sh"
    and "avail (plain u) = x_written sh @ down" and "avail (plain conn) = sent_bytes evs @ up"
  shows "res = Inr (u\<lparr>plain := (plain u)\<lparr>avail := down\<rparr>\<rparr>) \<and>
    x_route sh = XTunnel (conn\<lparr>plain := (plain conn)\<lparr>avail := up\<rparr>\<rparr>)"
  by (rule x_tunnels_meet [OF assms])

section \<open>Concrete inputs\<close>

definition client1 :: x_client_config where
  "client1 = \<lparr>server_public_key = c_pub toy64 [3], short_id = [1, 2], x_name = ''site'',
     x_fingerprint = \<lparr>id_client = [], id_version = []\<rparr>, x_protos = [], client_timeout = 0\<rparr>"

definition uconn1 :: "bytes \<Rightarrow> tls_conn" where
  "uconn1 key = \<lparr>plain = \<lparr>avail = channel_proof toy64 key server_tag [1] @ [88], rd_err = EOF\<rparr>,
     exporter = Inr [1], tls_write = (\<lambda>_. None)\<rparr>"

definition built1 :: built_hello where
  "built1 = \<lparr>b_random = ch_random hello_toy, b_shares = [(0x1d, c_pub toy64 [5])], b_ecdhe = Some [5]\<rparr>"

definition utls1 :: "bytes \<Rightarrow> x_utls" where
  "utls1 key = \<lparr>build_hello = (\<lambda>_ _. Inr built1), marshal_hello = (\<lambda>_. None),
     run_handshake = (\<lambda>_. Inr (uconn1 key))\<rparr>"

definition side1 :: tls_conn where
  "side1 = \<lparr>plain = \<lparr>avail = [88], rd_err = EOF\<rparr>, exporter = Inr [1], tls_write = (\<lambda>_. None)\<rparr>"

lemma client1_simps:
  "build_hello (utls1 key) c h = Inr built1" "b_ecdhe built1 = Some [5]"
  "has_x25519_share (b_shares built1) (c_pub toy64 [5])" "server_public_key client1 = c_pub toy64 [3]"
  "b_random built1 = ch_random hello_toy" "short_id client1 = [1, 2]" "marshal_hello (utls1 key) sid = None"
  "run_handshake (utls1 key) sid = Inr (uconn1 key)" "exporter (uconn1 key) = Inr [1]"
  "tls_write (uconn1 key) bs = None"
  by (simp_all add: utls1_def built1_def client1_def uconn1_def has_x25519_share_def)

lemma client1_run:
  assumes "client_session_id toy64 (c_pub toy64 [3]) [5] (ch_random hello_toy) [1, 2]
      (Instant 1000000000999) = Inr (ch_session hello_toy, key)"
  shows "x_client (utls1 key) toy64 h client1 (Instant 1000000000999) =
    Some ([ArmDeadline (x_client_timeout client1), Sent (channel_proof toy64 key client_tag [1]), ClearDeadline],
      Inr side1)"
proof -
  have "client_channel_auth toy64 (uconn1 key) key = (None, channel_proof toy64 key client_tag [1], side1)"
    unfolding client_channel_iff [OF toy64_ok(2)] by (simp add: uconn1_def side1_def)
  then show ?thesis using assms by (simp add: x_client_def client1_simps del: toy64_pub toy64_session)
qed

theorem x_client_fails_closed_witness:
  "\<exists>evs. left_open evs \<and> left_deadline evs = None \<and>
     (\<exists>t post. 0 < t \<and> evs = Dialed # ArmDeadline t # post)"
proof -
  obtain key where k: "client_session_id toy64 (c_pub toy64 [3]) [5] (ch_random hello_toy) [1, 2]
      (Instant 1000000000999) = Inr (ch_session hello_toy, key)" by (rule server1_key)
  let ?evs = "[Dialed, ArmDeadline (x_client_timeout client1), Sent (channel_proof toy64 key client_tag [1]), ClearDeadline]"
  have "x_dialer (utls1 key) toy64 (chrome presets1) None client1 (Instant 1000000000999) = Some (?evs, Inr side1)"
    unfolding x_dialer_def client1_run [OF k] by (simp add: dial_with_def)
  note f = x_client_fails_closed [OF toy64_ok(2) this]
  then have "\<exists>t post. 0 < t \<and> ?evs = Dialed # ArmDeadline t # post" by (elim conjE) (rule mp, assumption, rule refl)
  moreover from f have "left_open ?evs" unfolding sum.case by (elim conjE)
  moreover from f have "left_deadline ?evs = None" unfolding sum.case by (elim conjE)
  ultimately show ?thesis by (intro exI [of _ ?evs] conjI)
qed

theorem x_end_to_end_witness:
  "\<exists>key h. x_client (utls1 key) toy64 (chrome presets1) client1 (Instant 1000000000999) =
       Some ([ArmDeadline (x_client_timeout client1), Sent (channel_proof toy64 key client_tag [1]), ClearDeadline],
         Inr side1) \<and>
     x_handle (xenv1 key) toy64 server1 later1 raw1 = Some h \<and> x_route h = XTunnel tunnel1"
proof -
  obtain key where k: "client_session_id toy64 (c_pub toy64 [3]) [5] (ch_random hello_toy) [1, 2]
      (Instant 1000000000999) = Inr (ch_session hello_toy, key)"
    and x: "x_key toy64 server1 later1 raw1 = Some key" by (rule server1_key)
  let ?raw = "\<lparr>avail = hello_record hello_toy @ [], rd_err = EOF\<rparr>"
  have raw: "?raw = raw1" by (simp add: raw1_def)
  let ?h = "x_terminate (xenv1 key) toy64 server1 raw1 key"
  have h: "x_handle (xenv1 key) toy64 server1 later1 ?raw = Some ?h"
    unfolding raw using x by (simp add: x_handle_eq [OF toy64_ok(1)])
  have w: "avail (plain (uconn1 key)) = x_written ?h @ [88]"
    using server_writes_proof [OF conn1_proved(2,3,1)] by (simp add: uconn1_def)
  have s: "private_key server1 = [3]" "time_skew server1 = 60000000000" by (simp_all add: server1_def)
  let ?evs = "[ArmDeadline (x_client_timeout client1), Sent (channel_proof toy64 key client_tag [1]), ClearDeadline]"
  have v: "avail (plain (conn1 key)) = sent_bytes ?evs @ [77]" by (simp add: conn1_def sent_bytes_def)
  have win: "in_window (time_skew server1) later1 (Instant (unix_seconds (Instant 1000000000999) * 1000000000))"
    unfolding s later1_def by (rule toy_window(1))
  have share: "x25519 (see_hello hello_toy) = Some (c_pub toy64 [5])" by (simp add: hello_toy_share)
  have pub: "server_public_key client1 = c_pub toy64 (private_key server1)" by (simp add: client1_def server1_def)
  have sid: "client_session_id toy64 (server_public_key client1) [5] (b_random built1) (short_id client1)
      (Instant 1000000000999) = Inr (ch_session hello_toy, key)"
    unfolding client1_simps by (rule k)
  have acc: "accept_short_id server1 (padded (short_id client1))"
    unfolding client1_simps by (rule server1_accepts)
  have tls: "x_tls (xenv1 key) ?raw = Inr (conn1 key)" unfolding raw by (rule conn1_proved(1))
  from x_end_to_end [OF toy64_ok client1_simps(1,2,3) pub sid client1_simps(5) [symmetric] share hello_toy_fits
      hello_toy_record toy_window(3) win acc client1_simps(7,8) tls client1_simps(9) conn1_proved(2)
      client1_simps(10) conn1_proved(3) client1_run [OF k] h w v]
  have "x_route ?h = XTunnel ((conn1 key)\<lparr>plain := (plain (conn1 key))\<lparr>avail := [77]\<rparr>\<rparr>)" by (elim conjE)
  then have "x_route ?h = XTunnel tunnel1" by (simp add: conn1_def tunnel1_def)
  with client1_run [OF k] h show ?thesis unfolding raw by (intro exI [of _ key] exI [of _ ?h] conjI)
qed

end
