(* ===== verification/X_Stack.thy ===== *)
theory X_Stack
  imports X_Client Shaped_Conn
begin

text \<open>
  The layers as the repository composes them: \<open>obfs.Dialer\<close> around the XReality dialer, \<open>obfs.Listener\<close>
  around the XReality listener, both ways at once.
\<close>

section \<open>Property\<close>


section \<open>A concrete stack\<close>

definition conn_over :: "bytes \<Rightarrow> bytes \<Rightarrow> bytes \<Rightarrow> tls_conn" where
  "conn_over tag key bs = \<lparr>plain = \<lparr>avail = channel_proof toy64 key tag [1] @ bs, rd_err = EOF\<rparr>,
     exporter = Inr [1], tls_write = (\<lambda>_. None)\<rparr>"

definition utls_over :: "bytes \<Rightarrow> bytes \<Rightarrow> x_utls" where
  "utls_over key bs = \<lparr>build_hello = (\<lambda>_ _. Inr built1), marshal_hello = (\<lambda>_. None),
     run_handshake = (\<lambda>_. Inr (conn_over server_tag key bs))\<rparr>"

definition env_over :: "bytes \<Rightarrow> bytes \<Rightarrow> x_env" where
  "env_over key bs = \<lparr>x_tls = (\<lambda>_. Inr (conn_over client_tag key bs)), x_dial = (\<lambda>_. None)\<rparr>"

lemma over_simps:
  "build_hello (utls_over key bs) cl h = Inr built1" "marshal_hello (utls_over key bs) sid = None"
  "run_handshake (utls_over key bs) sid = Inr (conn_over server_tag key bs)"
  "x_tls (env_over key bs) i = Inr (conn_over client_tag key bs)"
  "exporter (conn_over tag key bs) = Inr [1]" "tls_write (conn_over tag key bs) m = None"
  "avail (plain (conn_over tag key bs)) = channel_proof toy64 key tag [1] @ bs"
  by (simp_all add: utls_over_def env_over_def conn_over_def)

definition events_over :: "bytes \<Rightarrow> conn_event list" where
  "events_over key = [ArmDeadline (x_client_timeout client1), Sent (channel_proof toy64 key client_tag [1]), ClearDeadline]"

lemma client_over:
  assumes "client_session_id toy64 (c_pub toy64 [3]) [5] (ch_random hello_toy) [1, 2]
      (Instant 1000000000999) = Inr (ch_session hello_toy, key)"
  shows "x_client (utls_over key bs) toy64 h client1 (Instant 1000000000999) =
    Some (events_over key, Inr ((conn_over server_tag key bs)\<lparr>plain := \<lparr>avail = bs, rd_err = EOF\<rparr>\<rparr>))"
proof -
  have "client_channel_auth toy64 (conn_over server_tag key bs) key = (None, channel_proof toy64 key client_tag [1],
      (conn_over server_tag key bs)\<lparr>plain := \<lparr>avail = bs, rd_err = EOF\<rparr>\<rparr>)"
    unfolding client_channel_iff [OF toy64_ok(2)] by (simp add: conn_over_def)
  then show ?thesis using assms
    by (simp add: x_client_def client1_simps(2-6) over_simps events_over_def del: toy64_pub toy64_session)
qed


end
