(* ===== verification/X_Ray.thy ===== *)
theory X_Ray
  imports X_Channel Tls_Camo
begin

text \<open>
  The client and server of the Xray-compatible REALITY, \<open>xrayreality/client.go\<close> and
  \<open>xrayreality/server.go\<close>. The client builds the session id, seals it over the ClientHello
  and verifies the forged certificate of the server; uTLS, X.509 and the server side of
  \<open>xtls/reality\<close> are parameters.
\<close>

section \<open>Configuration and the library underneath\<close>

record ray_config =
  ray_public_key :: bytes
  ray_short_id :: bytes
  ray_name :: string
  ray_fingerprint :: hello_id
  ray_version :: bytes
  ray_timeout :: int

datatype ray_err =
  RayIO io_err | RayCrypto | ErrNoTLS13 | ErrShortHello | ErrNotVerified | ErrNoServerName

definition session_id_offset :: nat where "session_id_offset = 39"

text \<open>
  What \<open>BuildHandshakeState\<close> leaves: the bytes of the hello, its random, and the key share keys
  (the X25519 key and the one of the post-quantum hybrid), if the hello offers TLS 1.3.
\<close>

record ray_hello =
  raw_hello :: bytes
  ray_random :: bytes
  share_keys :: "(bytes option \<times> bytes option) option"

text \<open>A parsed certificate: its ed25519 key, if it has one, and its signature.\<close>

record cert =
  cert_key :: "bytes option"
  cert_sig :: bytes

text \<open>
  \<open>ray_handshake raw\<close> is \<open>Handshake\<close> with the hello \<open>raw\<close>: an error before the verification
  callback, or the certificates the callback is called with (\<open>None\<close>: it is not called) and what
  follows when it returns no error. An error of the callback is the error of the handshake.
\<close>

record 'c ray_utls =
  ray_build :: "unit utls_config \<Rightarrow> hello_id \<Rightarrow> io_err + ray_hello"
  ray_handshake :: "bytes \<Rightarrow> io_err + (bytes list option \<times> (io_err + 'c))"
  parse_cert :: "bytes \<Rightarrow> io_err + cert"

section \<open>The session id\<close>

text \<open>\<open>copy(raw[off:off+32], sid)\<close> for a \<open>sid\<close> of 32 bytes.\<close>

definition put_session :: "bytes \<Rightarrow> bytes \<Rightarrow> bytes" where
  "put_session raw sid = take session_id_offset raw @ sid @ drop (session_id_offset + 32) raw"

definition default_version :: bytes where "default_version = [1, 8, 22]"

definition sent_version :: "ray_config \<Rightarrow> bytes" where
  "sent_version cfg = (if ray_version cfg = [0, 0, 0] then default_version else ray_version cfg)"

text \<open>
  The 32 bytes before sealing: version, a zero, the time in 32 bits, and what \<open>copy(sid[8:], ..)\<close>
  takes of the short id, up to the end of the slice.
\<close>

definition plain_session :: "ray_config \<Rightarrow> instant \<Rightarrow> bytes" where
  "plain_session cfg now =
     take 32 (sent_version cfg @ [0] @ put_be 4 (word_of_int (unix_seconds now)) @
       take 24 (ray_short_id cfg) @ replicate 24 0)"

definition ray_key :: "crypto \<Rightarrow> bytes \<Rightarrow> bytes \<Rightarrow> bytes \<Rightarrow> (ray_err + bytes) option" where
  "ray_key K server_pub ecdhe random =
     (case c_ecdh K ecdhe server_pub of
        None \<Rightarrow> Some (Inl RayCrypto)
      | Some shared \<Rightarrow> do {
          salt \<leftarrow> go_slice random 0 20;
          Some (Inr (c_hkdf K shared salt ''REALITY'' (length shared))) })"

text \<open>\<open>aead.Seal(sid[:0], ..)\<close> overwrites \<open>sid\<close>; a nonce that is not 12 bytes long is a panic.\<close>

definition seal_session :: "crypto \<Rightarrow> bytes \<Rightarrow> bytes \<Rightarrow> bytes \<Rightarrow> bytes \<Rightarrow> bytes option" where
  "seal_session K key random sid raw = do {
     nonce \<leftarrow> slice_to_end random 20;
     pt \<leftarrow> go_slice sid 0 16;
     (if length nonce \<noteq> 12 then None else Some (c_seal K key nonce pt raw)) }"

section \<open>Verification, Client, Dialer\<close>

text \<open>\<open>authVerifier.verify\<close>: the error, if any; without one \<open>verified\<close> is set.\<close>

definition ray_verify :: "(bytes \<Rightarrow> io_err + cert) \<Rightarrow> crypto \<Rightarrow> bytes \<Rightarrow> bytes list \<Rightarrow> ray_err option" where
  "ray_verify parse K key certs =
     (if length certs = 0 then Some ErrNotVerified
      else case parse (hd certs) of
        Inl err \<Rightarrow> Some (RayIO err)
      | Inr c \<Rightarrow>
          (case cert_key c of
             None \<Rightarrow> Some ErrNotVerified
           | Some pub \<Rightarrow> if c_hmac K key pub = cert_sig c then None else Some ErrNotVerified))"

definition ray_utls_config :: "ray_config \<Rightarrow> unit utls_config" where
  "ray_utls_config cfg = \<lparr>u_name = ray_name cfg, u_roots = (), u_insecure = True, u_protos = [], u_ech = []\<rparr>"

definition ray_arm :: "ray_config \<Rightarrow> conn_event" where
  "ray_arm cfg = ArmDeadline (if ray_timeout cfg \<le> 0 then 15 * second else ray_timeout cfg)"

definition ray_finish ::
  "'c ray_utls \<Rightarrow> crypto \<Rightarrow> conn_event \<Rightarrow> bytes \<Rightarrow> bytes \<Rightarrow> conn_event list \<times> (ray_err + 'c)" where
  "ray_finish U K arm key raw =
     (case ray_handshake U raw of
        Inl err \<Rightarrow> ([arm], Inl (RayIO err))
      | Inr (certs, after) \<Rightarrow>
          (case (case certs of None \<Rightarrow> None | Some cs \<Rightarrow> ray_verify (parse_cert U) K key cs) of
             Some err \<Rightarrow> ([arm], Inl err)
           | None \<Rightarrow>
               (case after of
                  Inl err \<Rightarrow> ([arm], Inl (RayIO err))
                | Inr u \<Rightarrow>
                    if certs = None then ([arm, CloseTLS], Inl ErrNotVerified)
                    else ([arm, ClearDeadline], Inr u))))"

text \<open>From the key exchange on: \<open>raw\<close> has its session id zeroed, \<open>sid\<close> is not sealed yet.\<close>

definition ray_run ::
  "'c ray_utls \<Rightarrow> crypto \<Rightarrow> ray_config \<Rightarrow> bytes \<Rightarrow> bytes \<Rightarrow> bytes \<Rightarrow> bytes \<Rightarrow>
   (conn_event list \<times> (ray_err + 'c)) option" where
  "ray_run U K cfg e random raw sid = do {
     k \<leftarrow> ray_key K (ray_public_key cfg) e random;
     (case k of
        Inl err \<Rightarrow> Some ([ray_arm cfg], Inl err)
      | Inr key \<Rightarrow>
          (case aead_for key of
             Inl _ \<Rightarrow> Some ([ray_arm cfg], Inl RayCrypto)
           | Inr key \<Rightarrow> do {
               sid \<leftarrow> seal_session K key random sid raw;
               Some (ray_finish U K (ray_arm cfg) key (put_session raw sid)) })) }"

definition ray_client ::
  "'c ray_utls \<Rightarrow> crypto \<Rightarrow> hello_id \<Rightarrow> ray_config \<Rightarrow> instant \<Rightarrow> (conn_event list \<times> (ray_err + 'c)) option" where
  "ray_client U K dflt cfg now =
     (if ray_name cfg = [] then Some ([], Inl ErrNoServerName)
      else if length (ray_public_key cfg) \<noteq> 32 then Some ([], Inl RayCrypto)
      else case ray_build U (ray_utls_config cfg)
          (if id_client (ray_fingerprint cfg) = [] then dflt else ray_fingerprint cfg) of
        Inl err \<Rightarrow> Some ([ray_arm cfg], Inl (RayIO err))
      | Inr b \<Rightarrow>
          if length (raw_hello b) < session_id_offset + 32 then Some ([ray_arm cfg], Inl ErrShortHello)
          else let raw = put_session (raw_hello b) (replicate 32 0); sid = plain_session cfg now in
            (case share_keys b of
               None \<Rightarrow> Some ([ray_arm cfg], Inl ErrNoTLS13)
             | Some (ecdhe, mlkem) \<Rightarrow>
                 (case (case ecdhe of Some e \<Rightarrow> Some e | None \<Rightarrow> mlkem) of
                    None \<Rightarrow> Some ([ray_arm cfg], Inl ErrNoTLS13)
                  | Some e \<Rightarrow> ray_run U K cfg e (ray_random b) raw sid)))"

definition ray_dialer ::
  "'c ray_utls \<Rightarrow> crypto \<Rightarrow> hello_id \<Rightarrow> io_err option \<Rightarrow> ray_config \<Rightarrow> instant \<Rightarrow>
   (conn_event list \<times> (ray_err + 'c)) option" where
  "ray_dialer U K dflt d cfg now = dial_with d RayIO (ray_client U K dflt cfg now)"

section \<open>The server's configuration\<close>

record ray_server_config =
  rs_private_key :: bytes
  rs_short_ids :: "bytes list"
  rs_names :: "string list"
  rs_dest :: string
  rs_max_time_diff :: int
  rs_min_ver :: bytes
  rs_max_ver :: bytes
  rs_show :: bool

text \<open>\<open>reality.Config\<close> as \<open>Listener\<close> fills it; the maps hold only \<open>true\<close>.\<close>

record lib_config =
  lib_show :: bool
  lib_type :: string
  lib_no_tickets :: bool
  lib_dest :: string
  lib_names :: "string \<Rightarrow> bool option"
  lib_private_key :: bytes
  lib_short_ids :: "bytes \<Rightarrow> bool option"
  lib_max_time_diff :: int
  lib_min_ver :: bytes
  lib_max_ver :: bytes

definition pad_id :: "bytes \<Rightarrow> bytes" where
  "pad_id s = take 8 s @ replicate (8 - length s) 0"

definition ray_listener :: "ray_server_config \<Rightarrow> lib_config" where
  "ray_listener cfg =
     \<lparr>lib_show = rs_show cfg, lib_type = ''tcp'', lib_no_tickets = True, lib_dest = rs_dest cfg,
      lib_names = fold (\<lambda>n m. m(n \<mapsto> True)) (rs_names cfg) Map.empty,
      lib_private_key = rs_private_key cfg,
      lib_short_ids = fold (\<lambda>s m. m(pad_id s \<mapsto> True)) (rs_short_ids cfg) Map.empty,
      lib_max_time_diff = rs_max_time_diff cfg,
      lib_min_ver = rs_min_ver cfg, lib_max_ver = rs_max_ver cfg\<rparr>"

section \<open>The sealed hello\<close>

lemma put_session_region:
  assumes "session_id_offset + 32 \<le> length raw" "length sid = 32"
  shows "length (put_session raw sid) = length raw" "take 32 (drop session_id_offset (put_session raw sid)) = sid"
    "put_session (put_session raw sid) z = put_session raw z"
  using assms by (simp_all add: put_session_def)

lemma plain_session_parts:
  assumes "length (ray_version cfg) = 3"
  shows "length (plain_session cfg now) = 32"
    "take 16 (plain_session cfg now) =
      sent_version cfg @ [0] @ put_be 4 (word_of_int (unix_seconds now)) @ pad_id (ray_short_id cfg)"
proof -
  have v: "length (sent_version cfg) = 3" using assms by (simp add: sent_version_def default_version_def)
  then show "length (plain_session cfg now) = 32" by (simp add: plain_session_def)
  have "take 8 (take 24 s @ replicate 24 0) = pad_id s" for s :: bytes
    by (auto simp: pad_id_def min_def take_replicate)
  moreover have "take 16 (plain_session cfg now) = sent_version cfg @ [0] @
      put_be 4 (word_of_int (unix_seconds now)) @ take 8 (take 24 (ray_short_id cfg) @ replicate 24 0)"
    using v by (auto simp: plain_session_def min_def)
  ultimately show "take 16 (plain_session cfg now) =
      sent_version cfg @ [0] @ put_be 4 (word_of_int (unix_seconds now)) @ pad_id (ray_short_id cfg)" by simp
qed

lemma fold_true: "fold (\<lambda>s m. m(f s \<mapsto> True)) xs m k = Some True \<longleftrightarrow> (\<exists>x \<in> set xs. f x = k) \<or> m k = Some True"
  by (induction xs arbitrary: m) auto

lemma ray_listener_ids: "lib_short_ids (ray_listener cfg) k = Some True \<longleftrightarrow> (\<exists>s \<in> set (rs_short_ids cfg). pad_id s = k)"
  by (simp add: ray_listener_def fold_true)

text \<open>Short ids are cut to eight bytes without an error.\<close>

lemma ray_long_short_id:
  assumes "length (ray_version cfg) = 3"
  shows "seal_session K key rnd (plain_session (cfg\<lparr>ray_short_id := take 8 s\<rparr>) now) raw =
    seal_session K key rnd (plain_session (cfg\<lparr>ray_short_id := s\<rparr>) now) raw"
proof -
  let ?a = "plain_session (cfg\<lparr>ray_short_id := take 8 s\<rparr>) now" and ?b = "plain_session (cfg\<lparr>ray_short_id := s\<rparr>) now"
  have "pad_id (take 8 s) = pad_id s" by (simp add: pad_id_def min_def)
  then have "take 16 ?a = take 16 ?b" "length ?a = 32" "length ?b = 32"
    using plain_session_parts [of "cfg\<lparr>ray_short_id := take 8 s\<rparr>" now]
      plain_session_parts [of "cfg\<lparr>ray_short_id := s\<rparr>" now] assms
    by (simp_all add: sent_version_def)
  then show ?thesis by (simp add: seal_session_def go_slice_def)
qed

section \<open>What the client returns\<close>

definition ray_established :: "'c ray_utls \<Rightarrow> crypto \<Rightarrow> ray_config \<Rightarrow> instant \<Rightarrow> 'c \<Rightarrow> bool" where
  "ray_established U K cfg now c \<longleftrightarrow>
     (\<exists>h b e k1 k2 key sid crt more_certs pc pub. ray_build U (ray_utls_config cfg) h = Inr b \<and>
        share_keys b = Some (k1, k2) \<and> (k1 = Some e \<or> k1 = None \<and> k2 = Some e) \<and>
        ray_key K (ray_public_key cfg) e (ray_random b) = Some (Inr key) \<and>
        seal_session K key (ray_random b) (plain_session cfg now) (put_session (raw_hello b) (replicate 32 0)) = Some sid \<and>
        ray_handshake U (put_session (put_session (raw_hello b) (replicate 32 0)) sid) =
          Inr (Some (crt # more_certs), Inr c) \<and>
        parse_cert U crt = Inr pc \<and> cert_key pc = Some pub \<and> cert_sig pc = c_hmac K key pub)"

lemma ray_verify_ok:
  "ray_verify parse K key certs = None \<longleftrightarrow>
     (\<exists>crt more_certs pc pub. certs = crt # more_certs \<and> parse crt = Inr pc \<and> cert_key pc = Some pub \<and>
        cert_sig pc = c_hmac K key pub)"
  by (cases certs) (auto simp: ray_verify_def split: sum.splits option.splits if_splits)

lemma ray_finish_inr:
  "ray_finish U K arm key raw = (evs, Inr c) \<longleftrightarrow>
     evs = [arm, ClearDeadline] \<and>
     (\<exists>cs. ray_handshake U raw = Inr (Some cs, Inr c) \<and> ray_verify (parse_cert U) K key cs = None)"
  by (auto simp: ray_finish_def split: sum.splits option.splits prod.splits if_splits)

lemma ray_run_inr:
  assumes "ray_run U K cfg e random raw sid = Some (evs, Inr c)"
  obtains key sealed where "ray_key K (ray_public_key cfg) e random = Some (Inr key)"
    "seal_session K key random sid raw = Some sealed"
    "ray_finish U K (ray_arm cfg) key (put_session raw sealed) = (evs, Inr c)"
proof -
  from assms obtain k where k: "ray_key K (ray_public_key cfg) e random = Some k"
    by (auto simp: ray_run_def bind_eq_Some_conv)
  obtain key where "k = Inr key" using assms k by (cases k) (auto simp: ray_run_def)
  with assms k that show ?thesis
    by (auto simp: ray_run_def aead_for_def bind_eq_Some_conv split: if_splits)
qed

lemma ray_client_inr:
  assumes "ray_client U K dflt cfg now = Some (evs, Inr c)"
  shows "ray_established U K cfg now c \<and> evs = [ray_arm cfg, ClearDeadline]"
proof -
  let ?zero = "\<lambda>b. put_session (raw_hello b) (replicate 32 0)"
  from assms obtain h b k1 k2 e where q: "ray_build U (ray_utls_config cfg) h = Inr b"
    "share_keys b = Some (k1, k2)" "(case k1 of Some e \<Rightarrow> Some e | None \<Rightarrow> k2) = Some e"
    "ray_run U K cfg e (ray_random b) (?zero b) (plain_session cfg now) = Some (evs, Inr c)"
    by (auto simp: ray_client_def Let_def split: if_splits sum.splits option.splits prod.splits)
  obtain key sid where f: "ray_key K (ray_public_key cfg) e (ray_random b) = Some (Inr key)"
    "seal_session K key (ray_random b) (plain_session cfg now) (?zero b) = Some sid"
    "ray_finish U K (ray_arm cfg) key (put_session (?zero b) sid) = (evs, Inr c)"
    by (rule ray_run_inr [OF q(4)])
  note r = q(1-3) f
  from r(6) obtain cs where "evs = [ray_arm cfg, ClearDeadline]"
    "ray_handshake U (put_session (put_session (raw_hello b) (replicate 32 0)) sid) = Inr (Some cs, Inr c)"
    "ray_verify (parse_cert U) K key cs = None" unfolding ray_finish_inr by blast
  moreover from r(3) have "k1 = Some e \<or> k1 = None \<and> k2 = Some e" by (cases k1) simp_all
  ultimately show ?thesis using r(1,2,4,5) unfolding ray_established_def ray_verify_ok by blast
qed

interpretation xray: handshake_client "ray_client U K dflt cfg" "ray_established U K cfg" for U K dflt cfg
  using ray_client_inr by unfold_locales (fastforce simp: ray_arm_def)+

section \<open>Properties\<close>

text \<open>
  C17. The sealed hello: the bytes the client sends differ from the hello uTLS built in the session
  id alone, and whoever holds the key opens that session id, with the hello whose session id is
  zeroed as additional data, to the version, the time in 32 bits and the short id cut or padded to
  eight bytes; that id is in the map the listener builds exactly if one of the configured short ids
  cuts or pads to it.
\<close>

theorem ray_sealed_hello:
  assumes "crypto_ok K" and "length (ray_version cfg) = 3" and "session_id_offset + 32 \<le> length raw"
    and "seal_session K key rnd (plain_session cfg now) (put_session raw (replicate 32 0)) = Some sid"
    and "sent = put_session (put_session raw (replicate 32 0)) sid"
  shows "length sent = length raw \<and> take session_id_offset sent = take session_id_offset raw \<and>
    drop (session_id_offset + 32) sent = drop (session_id_offset + 32) raw \<and>
    c_open K key (drop 20 rnd) (take 32 (drop session_id_offset sent)) (put_session sent (replicate 32 0)) =
      Some (sent_version cfg @ [0] @ put_be 4 (word_of_int (unix_seconds now)) @ pad_id (ray_short_id cfg)) \<and>
    (lib_short_ids (ray_listener server) (pad_id (ray_short_id cfg)) = Some True \<longleftrightarrow>
       (\<exists>s \<in> set (rs_short_ids server). pad_id s = pad_id (ray_short_id cfg)))"
proof -
  let ?z = "replicate 32 (0 :: byte)"
  note p = plain_session_parts [OF assms(2), of now]
  have sid: "sid = c_seal K key (drop 20 rnd) (take 16 (plain_session cfg now)) (put_session raw ?z)"
    using assms(4) by (auto simp: seal_session_def bind_eq_Some_conv slice_to_end_def go_slice_def split: if_splits)
  then have l: "length sid = 32" using crypto_okD(4) [OF assms(1)] p(1) by simp
  have z: "length (put_session raw ?z) = length raw" "put_session (put_session raw ?z) sid = put_session raw sid"
    using put_session_region [OF assms(3), of ?z] by simp_all
  have s: "sent = put_session raw sid" using assms(5) z(2) by simp
  note r = put_session_region [OF assms(3) l]
  have "c_open K key (drop 20 rnd) sid (put_session raw ?z) = Some (take 16 (plain_session cfg now))"
    using crypto_okD(5) [OF assms(1)] sid by blast
  then have o: "c_open K key (drop 20 rnd) (take 32 (drop session_id_offset sent)) (put_session sent ?z) =
      Some (sent_version cfg @ [0] @ put_be 4 (word_of_int (unix_seconds now)) @ pad_id (ray_short_id cfg))"
    unfolding s r p(2) .
  have "take session_id_offset sent = take session_id_offset raw"
    "drop (session_id_offset + 32) sent = drop (session_id_offset + 32) raw"
    using assms(3) l by (simp_all add: s put_session_def)
  with o r(1) show ?thesis unfolding s ray_listener_ids by blast
qed

text \<open>
  C18. The client fails closed: what the dialer returns is an open connection without deadline
  over which the server presented a certificate whose signature is the HMAC of its ed25519 key under
  the key the client derived from the configured public key, in answer to the hello sealed with that
  key; after any error nothing is left open.
\<close>

theorem ray_client_fails_closed:
  assumes "ray_dialer U K dflt d cfg now = Some (evs, res)"
  shows "case res of
      Inl _ \<Rightarrow> \<not> left_open evs
    | Inr c \<Rightarrow> d = None \<and> left_open evs \<and> left_deadline evs = None \<and> ray_established U K cfg now c"
  using xray.dialer_safe [OF assms [unfolded ray_dialer_def]] by (auto split: sum.splits)

section \<open>Concrete inputs\<close>

definition ray1 :: ray_config where
  "ray1 = \<lparr>ray_public_key = c_pub toy [3], ray_short_id = [1, 2], ray_name = ''site'',
     ray_fingerprint = \<lparr>id_client = [], id_version = []\<rparr>, ray_version = [0, 0, 0], ray_timeout = 0\<rparr>"

definition ray_server1 :: ray_server_config where
  "ray_server1 = \<lparr>rs_private_key = [3], rs_short_ids = [[1, 2]], rs_names = [''site''], rs_dest = ''site:443'',
     rs_max_time_diff = 0, rs_min_ver = [], rs_max_ver = [], rs_show = False\<rparr>"

definition ray_utls1 :: "bytes \<Rightarrow> unit ray_utls" where
  "ray_utls1 key = \<lparr>ray_build = (\<lambda>_ _. Inr \<lparr>raw_hello = replicate 80 4, ray_random = replicate 32 6,
       share_keys = Some (None, Some [5])\<rparr>),
     ray_handshake = (\<lambda>_. Inr (Some [[9]], Inr ())),
     parse_cert = (\<lambda>crt. Inr \<lparr>cert_key = Some crt, cert_sig = c_hmac toy key crt\<rparr>)\<rparr>"

lemma ray_key1:
  obtains key where "ray_key toy (c_pub toy [3]) [5] (replicate 32 6) = Some (Inr key)" "length key = 32"
proof -
  have "c_ecdh toy [5] (c_pub toy [3]) = Some (map2 (+) (pad32 [5]) (pad32 [3]))" by (simp add: toy_def)
  then have "ray_key toy (c_pub toy [3]) [5] (replicate 32 6) =
      Some (Inr (c_hkdf toy (map2 (+) (pad32 [5]) (pad32 [3])) (replicate 20 6) ''REALITY'' 32))"
    by (simp add: ray_key_def go_slice_def pad32_def)
  then show ?thesis using that crypto_okD(3) [OF toy_ok] by blast
qed

lemma ray_seal1:
  "seal_session toy key (replicate 32 6) (plain_session ray1 now) raw =
     Some (c_seal toy key (replicate 12 6) (take 16 (plain_session ray1 now)) raw)"
  using plain_session_parts(1) [of ray1 now]
  by (simp add: seal_session_def slice_to_end_def go_slice_def ray1_def)

theorem ray_sealed_hello_witness:
  "\<exists>key sent. c_open toy key (replicate 12 6) (take 32 (drop 39 sent)) (put_session sent (replicate 32 0)) =
     Some ([1, 8, 22] @ [0] @ put_be 4 (word_of_int 7) @ pad_id [1, 2])"
proof -
  obtain key where "ray_key toy (c_pub toy [3]) [5] (replicate 32 6) = Some (Inr key)" by (rule ray_key1)
  let ?now = "Instant 7000000000"
  have "length (ray_version ray1) = 3" "session_id_offset + 32 \<le> length (replicate 80 (4 :: byte))"
    by (simp_all add: ray1_def session_id_offset_def)
  from ray_sealed_hello [OF toy_ok this ray_seal1 refl, of key ?now ray_server1]
  have "c_open toy key (drop 20 (replicate 32 6)) (take 32 (drop session_id_offset
      (put_session (put_session (replicate 80 4) (replicate 32 0))
        (c_seal toy key (replicate 12 6) (take 16 (plain_session ray1 ?now)) (put_session (replicate 80 4) (replicate 32 0))))))
      (put_session (put_session (put_session (replicate 80 4) (replicate 32 0))
        (c_seal toy key (replicate 12 6) (take 16 (plain_session ray1 ?now)) (put_session (replicate 80 4) (replicate 32 0))))
        (replicate 32 0)) =
      Some (sent_version ray1 @ [0] @ put_be 4 (word_of_int (unix_seconds ?now)) @ pad_id (ray_short_id ray1))"
    by (elim conjE)
  moreover have "sent_version ray1 = [1, 8, 22]" "unix_seconds ?now = 7" "ray_short_id ray1 = [1, 2]"
    "drop 20 (replicate 32 6) = replicate 12 (6 :: byte)"
    by (simp_all add: sent_version_def ray1_def default_version_def unix_seconds_def)
  ultimately show ?thesis unfolding session_id_offset_def by (intro exI) simp_all
qed

theorem ray_client_fails_closed_witness:
  "\<exists>key. ray_established (ray_utls1 key) toy ray1 (Instant 7000000000) ()"
proof -
  obtain key where k: "ray_key toy (c_pub toy [3]) [5] (replicate 32 6) = Some (Inr key)" "length key = 32"
    by (rule ray_key1)
  have v: "ray_verify (parse_cert (ray_utls1 key)) toy key [[9]] = None"
    by (simp add: ray_verify_def ray_utls1_def)
  have f: "ray_finish (ray_utls1 key) toy arm key raw = ([arm, ClearDeadline], Inr ())" for arm raw
    unfolding ray_finish_inr using v by (simp add: ray_utls1_def)
  have pk: "ray_public_key ray1 = c_pub toy [3]" "ray_name ray1 \<noteq> []" "id_client (ray_fingerprint ray1) = []"
    "length (c_pub toy [3]) = 32"
    by (simp_all add: ray1_def toy_def pad32_def)
  have b: "ray_build (ray_utls1 key) c h = Inr \<lparr>raw_hello = replicate 80 4, ray_random = replicate 32 6,
      share_keys = Some (None, Some [5])\<rparr>" for c h
    by (simp only: ray_utls1_def ray_utls.simps)
  have "ray_run (ray_utls1 key) toy ray1 [5] (replicate 32 6) raw (plain_session ray1 now) =
      Some ([ray_arm ray1, ClearDeadline], Inr ())" for raw now
    unfolding ray_run_def pk(1) k(1) using k(2) by (simp add: ray_seal1 f aead_for_def)
  then have "ray_client (ray_utls1 key) toy h ray1 now = Some ([ray_arm ray1, ClearDeadline], Inr ())" for h now
    unfolding ray_client_def b pk(1) using pk(2-4) by (simp add: session_id_offset_def)
  then have "ray_dialer (ray_utls1 key) toy (chrome presets1) None ray1 (Instant 7000000000) =
      Some ([Dialed, ray_arm ray1, ClearDeadline], Inr ())"
    by (simp add: ray_dialer_def dial_with_def)
  from ray_client_fails_closed [OF this] show ?thesis by auto
qed

end
