(* ===== verification/Reality_Sni.thy ===== *)
theory Reality_Sni
  imports Peek
begin

text \<open>
  The SNI side of \<open>reality/reality.go\<close>: \<open>peekClientHelloSNI\<close>, \<open>sniFromClientHello\<close>,
  \<open>sniFromExtension\<close> and \<open>serverNameAllowed\<close>. As in \<open>Client_Hello\<close>, index and slice
  expressions are partial and \<open>None\<close> is a panic.
\<close>

section \<open>The server_name extension\<close>

text \<open>The loop over the names: the first host name, or the empty string.\<close>

function sni_names :: "bytes \<Rightarrow> (hello_err + bytes) option" where
  "sni_names e =
     (if length e \<ge> 3 then do {
        name_type \<leftarrow> idx e 0;
        nl \<leftarrow> u16_at e 1;
        e \<leftarrow> slice_to_end e 3;
        (if length e < nl then Some (Inl ErrBadHello)
         else if name_type = 0 then map_option Inr (go_slice e 0 nl)
         else do { e \<leftarrow> slice_to_end e nl; sni_names e }) }
      else Some (Inr []))"
  by pat_completeness auto
termination sni_names
  by (relation "measure length") (auto dest!: slice_to_end_length)

declare sni_names.simps [simp del]

definition sni_from_extension :: "bytes \<Rightarrow> (hello_err + bytes) option" where
  "sni_from_extension ext =
     (if length ext < 2 then Some (Inl ErrBadHello)
      else do {
        list_len \<leftarrow> u16_at ext 0;
        e \<leftarrow> slice_to_end ext 2;
        (if length e < list_len then Some (Inl ErrBadHello)
         else do { e \<leftarrow> go_slice e 0 list_len; sni_names e }) })"

section \<open>The ClientHello\<close>

text \<open>
  \<open>for _, field := range []int{1, 2, 1}\<close>: a length of one or two bytes and the field it
  announces are skipped.
\<close>

fun skip_fields :: "nat list \<Rightarrow> bytes \<Rightarrow> (hello_err + bytes) option" where
  "skip_fields [] p = Some (Inr p)"
| "skip_fields (field # more_fields) p =
     (if length p < field then Some (Inl ErrBadHello)
      else do {
        n \<leftarrow> (if field = 1 then map_option unat (idx p 0) else u16_at p 0);
        p \<leftarrow> slice_to_end p field;
        (if length p < n then Some (Inl ErrBadHello)
         else do { p \<leftarrow> slice_to_end p n; skip_fields more_fields p }) })"

function sni_exts :: "bytes \<Rightarrow> (hello_err + bytes) option" where
  "sni_exts p =
     (if length p \<ge> 4 then do {
        ext_type \<leftarrow> u16_at p 0;
        l \<leftarrow> u16_at p 2;
        p \<leftarrow> slice_to_end p 4;
        (if length p < l then Some (Inl ErrBadHello)
         else do {
           ext \<leftarrow> go_slice p 0 l;
           p \<leftarrow> slice_to_end p l;
           (if ext_type = 0 then sni_from_extension ext else sni_exts p) }) }
      else Some (Inr []))"
  by pat_completeness auto
termination sni_exts
  by (relation "measure length") (auto dest!: slice_to_end_length)

declare sni_exts.simps [simp del]

definition sni_from_client_hello :: "bytes \<Rightarrow> (hello_err + bytes) option" where
  "sni_from_client_hello b =
     (if length b < 4 then Some (Inl ErrBadHello)
      else do {
        t \<leftarrow> idx b 0;
        (if t \<noteq> 1 then Some (Inl ErrBadHello)
         else do {
           p \<leftarrow> slice_to_end b 4;
           (if length p < 34 then Some (Inl ErrBadHello)
            else do {
              p \<leftarrow> slice_to_end p 34;
              r \<leftarrow> skip_fields [1, 2, 1] p;
              (case r of
                 Inl err \<Rightarrow> Some (Inl err)
               | Inr p \<Rightarrow>
                   if length p < 2 then Some (Inr [])
                   else do {
                     ext_len \<leftarrow> u16_at p 0;
                     p \<leftarrow> slice_to_end p 2;
                     (if length p < ext_len then Some (Inl ErrBadHello)
                      else do { p \<leftarrow> go_slice p 0 ext_len; sni_exts p }) }) }) }) })"

text \<open>
  \<open>peekClientHelloSNI\<close>: the name or the error, the bytes consumed, the connection after.
\<close>

definition peek_client_hello_sni ::
  "instream \<Rightarrow> ((peek_err + bytes) \<times> bytes \<times> instream) option" where
  "peek_client_hello_sni r =
     (case tee_full 5 (r, []) of (hdr, e, st) \<Rightarrow>
        (case e of
           Some err \<Rightarrow> Some (Inl (PeekIO err), snd st, fst st)
         | None \<Rightarrow> do {
             h0 \<leftarrow> idx hdr 0;
             (if h0 \<noteq> 0x16 then Some (Inl (PeekHello ErrNotTLS), snd st, fst st)
              else do {
                rec_len \<leftarrow> u16_at hdr 3;
                (if rec_len < 4 \<or> rec_len > max_record
                 then Some (Inl (PeekHello ErrBadHello), snd st, fst st)
                 else
                   (case tee_full rec_len st of (body, e, st) \<Rightarrow>
                      (case e of
                         Some err \<Rightarrow> Some (Inl (PeekIO err), snd st, fst st)
                       | None \<Rightarrow> do {
                           s \<leftarrow> sni_from_client_hello body;
                           Some (case s of Inl err \<Rightarrow> Inl (PeekHello err) | Inr n \<Rightarrow> Inr n,
                                 snd st, fst st) }))) }) }))"

section \<open>No panic\<close>

lemma sni_names_step:
  "3 \<le> length e \<Longrightarrow> sni_names e =
     (let nl = be16 (e ! 1) (e ! 2); e' = drop 3 e in
      if length e' < nl then Some (Inl ErrBadHello)
      else if e ! 0 = 0 then Some (Inr (take nl e')) else sni_names (drop nl e'))"
  by (subst sni_names.simps) (simp add: go_simps Let_def)

lemma sni_names_short: "length e < 3 \<Longrightarrow> sni_names e = Some (Inr [])"
  by (subst sni_names.simps) simp

lemma sni_names_total: "\<exists>r. sni_names e = Some r"
proof (induction "length e" arbitrary: e rule: less_induct)
  case less
  then show ?case
    by (cases "3 \<le> length e") (auto simp: sni_names_step sni_names_short Let_def)
qed

lemma sni_from_extension_total: "\<exists>r. sni_from_extension e = Some r"
  using sni_names_total by (auto simp: sni_from_extension_def go_simps)

lemma sni_exts_step:
  "4 \<le> length p \<Longrightarrow> sni_exts p =
     (let l = be16 (p ! 2) (p ! 3); p' = drop 4 p in
      if length p' < l then Some (Inl ErrBadHello)
      else if be16 (p ! 0) (p ! 1) = 0 then sni_from_extension (take l p') else sni_exts (drop l p'))"
  by (subst sni_exts.simps) (simp add: go_simps Let_def)

lemma sni_exts_short: "length p < 4 \<Longrightarrow> sni_exts p = Some (Inr [])"
  by (subst sni_exts.simps) simp

lemma sni_exts_total: "\<exists>r. sni_exts p = Some r"
proof (induction "length p" arbitrary: p rule: less_induct)
  case less
  then show ?case
    using sni_from_extension_total [of "take (be16 (p ! 2) (p ! 3)) (drop 4 p)"]
    by (cases "4 \<le> length p") (auto simp: sni_exts_step sni_exts_short Let_def)
qed

lemma skip_fields_total:
  "list_all (\<lambda>f. f = 1 \<or> f = 2) fs \<Longrightarrow> \<exists>r. skip_fields fs p = Some r"
  by (induction fs p rule: skip_fields.induct) (auto simp: go_simps Suc_le_eq)

lemma sni_from_client_hello_total: "\<exists>r. sni_from_client_hello b = Some r"
proof -
  have "\<exists>r. skip_fields [1, 2, 1] p = Some r" for p by (rule skip_fields_total) simp
  then show ?thesis
    using sni_exts_total
    by (fastforce simp: sni_from_client_hello_def go_simps idx_def split: sum.split)
qed

lemma peek_sni_peeked:
  "\<exists>res buf r'. peek_client_hello_sni r = Some (res, buf, r') \<and> peeked r buf r' \<and>
     (\<forall>n. res = Inr n \<longrightarrow> one_record buf \<and> sni_from_client_hello (drop 5 buf) = Some (Inr n))"
proof -
  obtain hdr e st where t: "tee_full 5 (r, []) = (hdr, e, st)" by (metis prod_cases3)
  note h = tee_full_stream [OF t]
  show ?thesis
  proof (cases e)
    case (Some err)
    with t h show ?thesis by (auto simp: peek_client_hello_sni_def peeked_def replayed_stream_def)
  next
    case None
    with h have l: "length hdr = 5" "snd st = hdr" by simp_all
    then have i: "idx hdr 0 = Some (hdr ! 0)" "u16_at hdr 3 = Some (be16 (hdr ! 3) (hdr ! 4))"
      by (simp_all add: go_simps)
    obtain bs e2 st2 where t2: "tee_full (be16 (hdr ! 3) (hdr ! 4)) st = (bs, e2, st2)" by (metis prod_cases3)
    note h2 = tee_full_stream [OF t2]
    have "hdr ! i = (hdr @ bs) ! i" if "i < 5" for i using that l by (simp add: nth_append)
    then have n: "hdr ! 0 = (hdr @ bs) ! 0" "hdr ! 3 = (hdr @ bs) ! 3" "hdr ! 4 = (hdr @ bs) ! 4"
      by simp_all
    obtain s where s: "sni_from_client_hello bs = Some s" using sni_from_client_hello_total by blast
    show ?thesis
      using t None i t2 h h2 l n s
      by (cases e2; cases s)
        (auto simp: peek_client_hello_sni_def peeked_def one_record_def replayed_stream_def)
  qed
qed

section \<open>Well-formed hellos\<close>

lemma sni_names_enc:
  assumes "length (snd n) < 65536"
  shows "sni_names (enc_name n @ rest) = (if fst n = 0 then Some (Inr (snd n)) else sni_names rest)"
proof -
  obtain t nm where n: "n = (t, nm)" by force
  have e: "enc_name n @ rest = [t, ucast (drop_bit 8 (to_uint16 (length nm))), ucast (to_uint16 (length nm))] @ nm @ rest"
    by (simp add: n enc_name_def enc16_def put_uint16_def)
  then show ?thesis
    using assms by (subst sni_names_step) (simp_all add: n Let_def)
qed

lemma sni_names_list:
  "list_all (\<lambda>n. length (snd n) < 65536) ns \<Longrightarrow> sni_names (concat (map enc_name ns)) = Some (Inr (host_of ns))"
  by (induction ns) (simp_all add: sni_names_short sni_names_enc host_of_def)

lemma sni_from_extension_enc:
  assumes "ext_fits (ServerName ns)"
  shows "sni_from_extension (ext_body (ServerName ns)) = Some (Inr (host_of ns))"
proof -
  let ?l = "concat (map enc_name ns)"
  have "length ?l < 65536" using assms by simp
  then show ?thesis
    using sni_names_list [OF names_fit [OF assms]] by (simp add: sni_from_extension_def go_simps)
qed

fun is_server_name :: "extension \<Rightarrow> bool" where
  "is_server_name (ServerName ns) = True"
| "is_server_name _ = False"

text \<open>The host name of the first server_name extension.\<close>

fun first_host :: "extension list \<Rightarrow> bytes" where
  "first_host [] = []"
| "first_host (ServerName ns # es) = host_of ns"
| "first_host (x # es) = first_host es"

lemma sni_exts_enc:
  assumes "ext_fits x"
  shows "sni_exts (enc_ext x @ rest) =
    (if is_server_name x then sni_from_extension (ext_body x) else sni_exts rest)"
proof -
  have e: "enc_ext x @ rest = [ucast (drop_bit 8 (to_uint16 (ext_type x))), ucast (to_uint16 (ext_type x)),
      ucast (drop_bit 8 (to_uint16 (length (ext_body x)))), ucast (to_uint16 (length (ext_body x)))] @
      ext_body x @ rest"
    by (simp add: enc_ext_def enc16_def put_uint16_def)
  have "ext_type x = 0 \<longleftrightarrow> is_server_name x" using assms by (cases x) auto
  with e show ?thesis
    using ext_fits_bounds [OF assms] by (subst sni_exts_step) (simp_all add: Let_def)
qed

lemma sni_exts_list:
  "list_all ext_fits es \<Longrightarrow> sni_exts (concat (map enc_ext es)) = Some (Inr (first_host es))"
  by (induction es rule: first_host.induct)
    (simp_all add: sni_exts_short sni_exts_enc sni_from_extension_enc del: ext_body.simps ext_fits.simps)

lemma skip_enc:
  assumes "length a < 256" "length b < 65536" "length c < 256"
  shows "skip_fields [1, 2, 1] (enc8 a @ enc16 b @ enc8 c @ rest) = Some (Inr rest)"
  using assms by (simp add: go_simps enc8_def enc16_def idx_def unat_of_nat)

lemma sni_from_client_hello_enc:
  assumes "hello_fits h"
  shows "sni_from_client_hello (handshake h) =
    Some (Inr (first_host (case ch_extensions h of None \<Rightarrow> [] | Some es \<Rightarrow> es)))"
proof -
  let ?ext = "case ch_extensions h of None \<Rightarrow> [] | Some es \<Rightarrow> enc16 (concat (map enc_ext es))"
  have d: "drop 34 (hello_body h) = enc8 (ch_session h) @ enc16 (ch_ciphers h) @ enc8 (ch_compression h) @ ?ext"
    and l: "length (hello_body h) \<ge> 34"
    using assms by (simp_all add: hello_body_def hello_fits_def)
  have b: "length (ch_session h) < 256" "length (ch_ciphers h) < 65536" "length (ch_compression h) < 256"
    "length ?ext < 65536"
    using assms by (simp_all add: hello_body_def hello_fits_def)
  have p: "slice_to_end (handshake h) 4 = Some (hello_body h)" "idx (handshake h) 0 = Some 1"
    by (simp_all add: handshake_def go_simps enc16_def idx_def)
  have "sni_from_client_hello (handshake h) =
      (if length ?ext < 2 then Some (Inr [])
       else do {
         ext_len \<leftarrow> u16_at ?ext 0;
         q \<leftarrow> slice_to_end ?ext 2;
         (if length q < ext_len then Some (Inl ErrBadHello)
          else do { q \<leftarrow> go_slice q 0 ext_len; sni_exts q }) })"
    using p l d skip_enc [OF b(1,2,3), of ?ext]
    by (simp add: sni_from_client_hello_def go_simps handshake_def del: skip_fields.simps)
  also have "\<dots> = Some (Inr (first_host (case ch_extensions h of None \<Rightarrow> [] | Some es \<Rightarrow> es)))"
  proof (cases "ch_extensions h")
    case (Some es)
    with assms have "list_all ext_fits es" by (simp add: hello_fits_def)
    with Some b(4) sni_exts_list [of es] show ?thesis by (simp add: go_simps)
  qed simp
  finally show ?thesis .
qed

lemma server_name_fold:
  "length (filter is_server_name es) \<le> 1 \<Longrightarrow>
   server_name (fold see_ext es i) = (if filter is_server_name es = [] then server_name i else first_host es)"
proof (induction es arbitrary: i)
  case (Cons x es)
  then show ?case by (cases x) auto
qed simp

lemma first_host_none: "filter is_server_name es = [] \<Longrightarrow> first_host es = []"
  by (induction es rule: first_host.induct) auto

lemma peek_hello_record:
  assumes "hello_fits h" "length (hello_body h) + 4 \<le> max_record"
  shows "peek_client_hello_sni \<lparr>avail = hello_record h @ rest, rd_err = err\<rparr> =
    Some (Inr (first_host (case ch_extensions h of None \<Rightarrow> [] | Some es \<Rightarrow> es)), hello_record h,
      \<lparr>avail = rest, rd_err = err\<rparr>)"
proof -
  obtain hdr where t: "tee_full 5 (\<lparr>avail = hello_record h @ rest, rd_err = err\<rparr>, []) =
      (hdr, None, (\<lparr>avail = handshake h @ rest, rd_err = err\<rparr>, hdr))"
    "tee_full (length (handshake h)) (\<lparr>avail = handshake h @ rest, rd_err = err\<rparr>, hdr) =
      (handshake h, None, (\<lparr>avail = rest, rd_err = err\<rparr>, hello_record h))"
    and u: "idx hdr 0 = Some 0x16" "u16_at hdr 3 = Some (length (handshake h))"
    and n: "4 \<le> length (handshake h)" "length (handshake h) \<le> max_record"
    by (rule tee_hello [OF assms])
  show ?thesis
    unfolding peek_client_hello_sni_def t(1) prod.case option.case u bind.bind_lunit
    using n by (simp add: t(2) sni_from_client_hello_enc [OF assms(1)])
qed

text \<open>
  C22. The two packages agree on the host name: on every well-formed ClientHello with at most
  one server_name extension that fits a record, \<open>peekClientHelloSNI\<close> returns the server name
  \<open>ParseClientHello\<close> reads, having consumed exactly the record.
\<close>

theorem sni_parsers_agree:
  assumes "hello_fits h" and "length (hello_body h) + 4 \<le> max_record"
    and "length (filter is_server_name (case ch_extensions h of None \<Rightarrow> [] | Some es \<Rightarrow> es)) \<le> 1"
  shows "\<exists>i. parse_client_hello (hello_record h @ rest) = Some (i, None) \<and>
    peek_client_hello_sni \<lparr>avail = hello_record h @ rest, rd_err = err\<rparr> =
      Some (Inr (server_name i), hello_record h, \<lparr>avail = rest, rd_err = err\<rparr>)"
proof -
  have "server_name (see_hello h) = first_host (case ch_extensions h of None \<Rightarrow> [] | Some es \<Rightarrow> es)"
    using assms(3) first_host_none by (auto simp: see_hello_def server_name_fold)
  with hello_parsed [OF assms(1)] peek_hello_record [OF assms(1,2)] show ?thesis by simp
qed

theorem sni_parsers_agree_witness:
  "peek_client_hello_sni \<lparr>avail = hello_record hello7 @ [1, 2], rd_err = EOF\<rparr> =
     Some (Inr [97, 46, 98], hello_record hello7, \<lparr>avail = [1, 2], rd_err = EOF\<rparr>)"
proof -
  have f: "hello_fits hello7" "length (hello_body hello7) + 4 \<le> max_record"
    by (simp_all add: hello_fits_def hello7_def hello_body_def enc_ext_def enc_name_def enc_share_def max_record_def)
  have "server_name (see_hello hello7) = [97, 46, 98]"
    by (simp add: see_hello_def hello7_def host_of_def share_of_def)
  with sni_parsers_agree [OF f, of "[1, 2]" EOF] hello_parsed [OF f(1), of "[1, 2]"] show ?thesis
    by (simp add: hello7_def)
qed

section \<open>Which names are ours\<close>

text \<open>
  \<open>strings.EqualFold\<close>: while both strings are ASCII, bytes are compared up to case; from the
  first byte outside ASCII on, Unicode case folding decides, which is the parameter \<open>uni\<close>.
\<close>

definition to_lower :: "byte \<Rightarrow> byte" where
  "to_lower b = (if 65 \<le> b \<and> b \<le> 90 then b + 32 else b)"

fun equal_fold :: "(bytes \<Rightarrow> bytes \<Rightarrow> bool) \<Rightarrow> bytes \<Rightarrow> bytes \<Rightarrow> bool" where
  "equal_fold uni (a # s) (b # t) =
     (if 128 \<le> (a OR b) then uni (a # s) (b # t)
      else to_lower a = to_lower b \<and> equal_fold uni s t)"
| "equal_fold uni [] [] = True"
| "equal_fold uni _ _ = False"

definition trim_dot :: "bytes \<Rightarrow> bytes" where
  "trim_dot s = (if s \<noteq> [] \<and> last s = 46 then butlast s else s)"

definition server_name_allowed :: "(bytes \<Rightarrow> bytes \<Rightarrow> bool) \<Rightarrow> bytes list \<Rightarrow> bytes \<Rightarrow> bool" where
  "server_name_allowed uni names sni =
     (if sni = [] then False
      else let sni = trim_dot sni in list_ex (\<lambda>n. equal_fold uni sni (trim_dot n)) names)"

lemma equal_fold_ascii:
  "list_all (\<lambda>b. b < 128) s \<Longrightarrow> list_all (\<lambda>b. b < 128) t \<Longrightarrow>
   equal_fold uni s t \<longleftrightarrow> map to_lower s = map to_lower t"
proof (induction uni s t rule: equal_fold.induct)
  case (1 uni a s b t)
  have "uint (a OR b) < 2 ^ 7"
    using 1 OR_upper [of "uint a" 7 "uint b"] by (simp add: unsigned_or_eq word_less_def)
  then have "(a OR b) < 128" by (simp add: word_less_def)
  with 1 show ?case by (auto simp: not_le)
qed simp_all

end
