(* ===== verification/Reality.thy ===== *)
theory Reality
  imports Reality_Sni Acceptor Splice
begin

text \<open>
  The probe-defending listener and its client, \<open>reality/reality.go\<close>. \<open>reality_handle\<close> is
  \<open>handle\<close> with \<open>reverseProxy\<close> and \<open>passthrough\<close>; the TLS server and the network's \<open>Dial\<close>
  are fields of a record of functions.
\<close>

section \<open>What the handler calls\<close>

text \<open>
  \<open>e_tls raw\<close> is \<open>tls.Server(raw, cfg.TLSConfig).Handshake()\<close>: an error, or the plaintext the
  connection will deliver. \<open>e_dial addr\<close> is \<open>net.Dial\<close>, \<open>e_write addr bs\<close> the first write to the
  connection it gives. \<open>e_fold\<close> is Unicode case folding; \<open>e_on_error\<close> says whether \<open>OnError\<close> is
  set.
\<close>

record net_env =
  e_tls :: "instream \<Rightarrow> io_err + instream"
  e_dial :: "string \<Rightarrow> io_err option"
  e_write :: "string \<Rightarrow> bytes \<Rightarrow> io_err option"
  e_fold :: "bytes \<Rightarrow> bytes \<Rightarrow> bool"
  e_on_error :: bool

definition logf :: "net_env \<Rightarrow> io_err \<Rightarrow> io_err list" where
  "logf env err = (if e_on_error env then [err] else [])"

definition default_handshake_timeout :: int where
  "default_handshake_timeout = 15 * second"

record reality_config =
  token :: bytes
  fallback :: string
  server_names :: "bytes list"
  passthrough_addr :: string
  handshake_timeout :: int

text \<open>\<open>Listener\<close> replaces a missing timeout.\<close>

definition reality_listener :: "reality_config \<Rightarrow> reality_config" where
  "reality_listener cfg =
     (if handshake_timeout cfg \<le> 0 then cfg\<lparr>handshake_timeout := default_handshake_timeout\<rparr> else cfg)"

text \<open>
  What becomes of a connection: a tunnel for \<open>Accept\<close>, a splice with the site at an address
  (the bytes replayed to it and what the client will still send), or closed. With it the deadline
  still armed on the raw connection and the errors given to \<open>OnError\<close>.
\<close>

datatype 't route = Tunnel 't | Spliced string bytes instream | Shut

record 't handled =
  route :: "'t route"
  deadline :: "int option"
  logged :: "io_err list"

section \<open>The handler\<close>

text \<open>\<open>passthrough\<close>: the client is the \<open>prefixConn\<close>, so the stream starts with what was peeked.\<close>

definition pass_through :: "net_env \<Rightarrow> string \<Rightarrow> instream \<Rightarrow> int option \<Rightarrow> 't handled" where
  "pass_through env addr client dl =
     (if addr = [] then \<lparr>route = Shut, deadline = dl, logged = []\<rparr>
      else case e_dial env addr of
        Some err \<Rightarrow> \<lparr>route = Shut, deadline = None, logged = logf env err\<rparr>
      | None \<Rightarrow> \<lparr>route = Spliced addr [] client, deadline = None, logged = []\<rparr>)"

definition reverse_proxy :: "net_env \<Rightarrow> string \<Rightarrow> instream \<Rightarrow> bytes \<Rightarrow> int option \<Rightarrow> 't handled" where
  "reverse_proxy env addr client consumed dl =
     (if addr = [] then \<lparr>route = Shut, deadline = dl, logged = []\<rparr>
      else case e_dial env addr of
        Some err \<Rightarrow> \<lparr>route = Shut, deadline = dl, logged = logf env err\<rparr>
      | None \<Rightarrow>
          (case (if length consumed > 0 then e_write env addr consumed else None) of
             Some err \<Rightarrow> \<lparr>route = Shut, deadline = dl, logged = logf env err\<rparr>
           | None \<Rightarrow> \<lparr>route = Spliced addr consumed client, deadline = dl, logged = []\<rparr>))"

text \<open>The stream behind a \<open>prefixConn\<close>.\<close>

definition behind_prefix :: "bytes \<Rightarrow> instream \<Rightarrow> instream" where
  "behind_prefix buf r = r\<lparr>avail := buf @ avail r\<rparr>"

definition tls_stage :: "net_env \<Rightarrow> reality_config \<Rightarrow> instream \<Rightarrow> instream handled" where
  "tls_stage env cfg raw =
     (case e_tls env raw of
        Inl _ \<Rightarrow> \<lparr>route = Shut, deadline = Some (handshake_timeout cfg), logged = []\<rparr>
      | Inr conn \<Rightarrow>
          (case read_full (length (token cfg)) conn of (tok, rerr, conn) \<Rightarrow>
             if length (token cfg) > 0 \<and> rerr = None \<and> tok = token cfg
             then \<lparr>route = Tunnel conn, deadline = None, logged = []\<rparr>
             else reverse_proxy env (fallback cfg) conn tok None))"

definition reality_handle :: "net_env \<Rightarrow> reality_config \<Rightarrow> instream \<Rightarrow> instream handled option" where
  "reality_handle env cfg raw =
     (if length (server_names cfg) > 0 then do {
        (sni, buf, rest) \<leftarrow> peek_client_hello_sni raw;
        let raw = behind_prefix buf rest in
        (case sni of
           Inr name \<Rightarrow>
             if \<not> server_name_allowed (e_fold env) (server_names cfg) name
             then Some (pass_through env (passthrough_addr cfg) raw (Some (handshake_timeout cfg)))
             else Some (tls_stage env cfg raw)
         | Inl _ \<Rightarrow> Some (tls_stage env cfg raw)) }
      else Some (tls_stage env cfg raw))"

text \<open>The tunnel the accept loop offers, and the connection it came from.\<close>

definition reality_tunnel :: "net_env \<Rightarrow> reality_config \<Rightarrow> 'i \<times> instream \<Rightarrow> instream option" where
  "reality_tunnel env cfg c =
     (case reality_handle env cfg (snd c) of
        Some h \<Rightarrow> (case route h of Tunnel t \<Rightarrow> Some t | _ \<Rightarrow> None)
      | None \<Rightarrow> None)"

section \<open>What the handler decides\<close>

text \<open>The connections whose host name is not ours.\<close>

definition screened :: "net_env \<Rightarrow> reality_config \<Rightarrow> instream \<Rightarrow> bool" where
  "screened env cfg raw \<longleftrightarrow> server_names cfg \<noteq> [] \<and>
     (case peek_client_hello_sni raw of
        Some (Inr name, _, _) \<Rightarrow> \<not> server_name_allowed (e_fold env) (server_names cfg) name
      | _ \<Rightarrow> False)"

lemma behind_peeked: "peeked r buf r' \<Longrightarrow> behind_prefix buf r' = r"
  by (simp add: peeked_def behind_prefix_def)

lemma reality_handle_eq:
  "reality_handle env cfg raw = Some
     (if screened env cfg raw then pass_through env (passthrough_addr cfg) raw (Some (handshake_timeout cfg))
      else tls_stage env cfg raw)"
proof -
  obtain res buf r' where p: "peek_client_hello_sni raw = Some (res, buf, r')" "peeked raw buf r'"
    using peek_sni_peeked by blast
  show ?thesis
    using p(1) behind_peeked [OF p(2)]
    by (cases res) (simp_all add: reality_handle_def screened_def Let_def)
qed

lemma tls_stage_tunnel:
  "route (tls_stage env cfg raw) = Tunnel t \<longleftrightarrow>
     token cfg \<noteq> [] \<and> e_tls env raw = Inr (t\<lparr>avail := token cfg @ avail t\<rparr>)"
proof (cases "e_tls env raw")
  case (Inr conn)
  have "conn = t\<lparr>avail := token cfg @ avail t\<rparr> \<longleftrightarrow>
      length (token cfg) \<le> length (avail conn) \<and> take (length (token cfg)) (avail conn) = token cfg \<and>
      conn\<lparr>avail := drop (length (token cfg)) (avail conn)\<rparr> = t"
    by (cases conn; cases t) (auto, metis append_take_drop_id)
  with Inr show ?thesis
    by (auto simp: tls_stage_def read_full_def reverse_proxy_def split: option.splits if_splits)
qed (simp add: tls_stage_def)

lemma reality_tunnel_iff:
  "reality_tunnel env cfg (i, raw) = Some t \<longleftrightarrow> \<not> screened env cfg raw \<and> token cfg \<noteq> [] \<and>
     e_tls env raw = Inr (t\<lparr>avail := token cfg @ avail t\<rparr>)"
proof (cases "screened env cfg raw")
  case True
  then show ?thesis
    by (auto simp: reality_tunnel_def reality_handle_eq pass_through_def split: option.splits if_splits)
next
  case False
  then have "reality_tunnel env cfg (i, raw) = Some t \<longleftrightarrow> route (tls_stage env cfg raw) = Tunnel t"
    by (auto simp: reality_tunnel_def reality_handle_eq split: route.splits)
  with False show ?thesis by (simp add: tls_stage_tunnel)
qed

lemma pass_through_spliced:
  "route (pass_through env addr client dl) = Spliced a bs rest \<longleftrightarrow>
     addr \<noteq> [] \<and> e_dial env addr = None \<and> a = addr \<and> bs = [] \<and> rest = client"
  by (auto simp: pass_through_def split: option.splits)

lemma tls_stage_spliced:
  assumes "route (tls_stage env cfg raw) = Spliced a bs rest"
  obtains conn where "e_tls env raw = Inr conn" "a = fallback cfg" "bs @ avail rest = avail conn"
    "rd_err rest = rd_err conn" "\<not> (token cfg \<noteq> [] \<and> prefix (token cfg) (avail conn))" "deadline (tls_stage env cfg raw) = None"
proof (cases "e_tls env raw")
  case (Inr conn)
  obtain tok rerr c where r: "read_full (length (token cfg)) conn = (tok, rerr, c)" by (metis prod_cases3)
  have "\<not> (token cfg \<noteq> [] \<and> rerr = None \<and> tok = token cfg)"
    using assms Inr r by (auto simp: tls_stage_def)
  moreover have "rerr = None \<and> tok = token cfg" if "prefix (token cfg) (avail conn)"
    using r that by (auto simp: read_full_def prefix_def)
  ultimately have h: "\<not> (token cfg \<noteq> [] \<and> prefix (token cfg) (avail conn))"
    "tls_stage env cfg raw = reverse_proxy env (fallback cfg) c tok None"
    using Inr r by (auto simp: tls_stage_def split: if_splits)
  then have "a = fallback cfg \<and> bs = tok \<and> rest = c \<and> deadline (tls_stage env cfg raw) = None"
    using assms by (auto simp: reverse_proxy_def split: option.splits if_splits)
  with h(1) read_full_stream [OF r] Inr show ?thesis by (intro that [of conn]) auto
qed (use assms in \<open>simp add: tls_stage_def\<close>)

lemma tls_stage_probe:
  assumes "e_tls env raw = Inr conn" "\<not> (token cfg \<noteq> [] \<and> prefix (token cfg) (avail conn))"
    "fallback cfg \<noteq> []" "e_dial env (fallback cfg) = None" "\<And>bs. e_write env (fallback cfg) bs = None"
  shows "\<exists>consumed rest. route (tls_stage env cfg raw) = Spliced (fallback cfg) consumed rest"
proof -
  obtain tok rerr c where r: "read_full (length (token cfg)) conn = (tok, rerr, c)" by (metis prod_cases3)
  have "\<not> (length (token cfg) > 0 \<and> rerr = None \<and> tok = token cfg)"
    using assms(2) read_full_stream [OF r] prefixI [of "avail conn" tok "avail c"] by auto
  then have "tls_stage env cfg raw = reverse_proxy env (fallback cfg) c tok None"
    using assms(1) r by (auto simp: tls_stage_def)
  with assms(3-5) show ?thesis by (simp add: reverse_proxy_def)
qed

lemma live_deadline: "route h \<noteq> Shut \<Longrightarrow> reality_handle env cfg raw = Some h \<Longrightarrow> deadline h = None"
  by (auto simp: reality_handle_eq pass_through_def tls_stage_def reverse_proxy_def
      split: if_splits option.splits sum.splits prod.splits)

section \<open>The listener\<close>

definition reality_authentic :: "net_env \<Rightarrow> reality_config \<Rightarrow> 'i \<times> instream \<Rightarrow> instream \<Rightarrow> bool" where
  "reality_authentic env cfg c t \<longleftrightarrow> \<not> screened env cfg (snd c) \<and> token cfg \<noteq> [] \<and>
     e_tls env (snd c) = Inr (t\<lparr>avail := token cfg @ avail t\<rparr>)"

interpretation reality: authenticator "reality_tunnel env cfg" "reality_authentic env cfg" for env cfg
  by unfold_locales (auto simp: reality_authentic_def reality_tunnel_iff)

section \<open>Properties\<close>

text \<open>
  C15. Who gets a tunnel: a connection becomes one exactly if its host name is not screened out,
  the TLS handshake succeeds on the bytes the client sent (the peek being invisible), and the
  plaintext starts with the non-empty token; the tunnel delivers the rest of the plaintext.
\<close>

theorem reality_accepts_iff:
  "(\<exists>h. reality_handle env cfg raw = Some h \<and> route h = Tunnel t) \<longleftrightarrow>
     \<not> screened env cfg raw \<and> token cfg \<noteq> [] \<and> e_tls env raw = Inr (t\<lparr>avail := token cfg @ avail t\<rparr>)"
proof -
  have "(\<exists>h. reality_handle env cfg raw = Some h \<and> route h = Tunnel t) \<longleftrightarrow>
      reality_tunnel env cfg ((), raw) = Some t"
    by (auto simp: reality_tunnel_def split: option.splits route.splits)
  then show ?thesis by (simp only: reality_tunnel_iff)
qed

text \<open>
  C9. What a probe sees: a connection that is spliced has no deadline left, and in every state of
  the splice the site has got nothing but a prefix of what the client sent (the raw bytes at the
  passthrough address, which sees only foreign host names; the plaintext, which does not start with
  the token, at the fallback), all of it while that direction runs, and the client nothing but a
  prefix of the site's answer.
\<close>

theorem reality_probe_sees_site:
  assumes "reality_handle env cfg raw = Some h" and "route h = Spliced addr consumed rest"
    and "splice_step\<^sup>*\<^sup>* (splice_init consumed rest site) s"
  shows "deadline h = None \<and> prefix (to_client s) (avail site) \<and>
    (\<exists>sent. prefix (to_site s) sent \<and> (upward s = Copying \<longrightarrow> to_site s @ avail (from_client s) = sent) \<and>
       (addr = passthrough_addr cfg \<and> screened env cfg raw \<and> sent = avail raw \<or>
        addr = fallback cfg \<and> \<not> screened env cfg raw \<and>
          (\<exists>conn. e_tls env raw = Inr conn \<and> sent = avail conn \<and>
             \<not> (token cfg \<noteq> [] \<and> prefix (token cfg) sent))))"
proof -
  have sp: "way (upward s) (to_site s) (from_client s) (consumed @ avail rest)" "prefix (to_client s) (avail site)"
    using splice_reach [OF assms(3)] by (auto simp: splice_inv_def way_def)
  have dl: "deadline h = None" using live_deadline [OF _ assms(1)] assms(2) by simp
  show ?thesis
  proof (cases "screened env cfg raw")
    case True
    then have "addr = passthrough_addr cfg" "consumed = []" "rest = raw"
      using assms(1,2) by (auto simp: reality_handle_eq pass_through_spliced)
    with sp dl True show ?thesis by (auto simp: way_def)
  next
    case False
    then have "route (tls_stage env cfg raw) = Spliced addr consumed rest"
      using assms(1,2) by (auto simp: reality_handle_eq)
    then obtain conn where "e_tls env raw = Inr conn" "addr = fallback cfg" "consumed @ avail rest = avail conn"
      "\<not> (token cfg \<noteq> [] \<and> prefix (token cfg) (avail conn))" by (rule tls_stage_spliced)
    with sp dl False show ?thesis by (auto simp: way_def)
  qed
qed

text \<open>
  Every probe is served: the handler always reaches a decision, and where the site of its
  branch is configured and reachable, a connection whose host name is foreign is spliced to the
  passthrough site from its first byte, and one that completes TLS without the token to the fallback.
\<close>

theorem reality_serves_probes:
  "\<exists>h. reality_handle env cfg raw = Some h \<and>
    (screened env cfg raw \<and> passthrough_addr cfg \<noteq> [] \<and> e_dial env (passthrough_addr cfg) = None \<longrightarrow>
       route h = Spliced (passthrough_addr cfg) [] raw) \<and>
    (\<not> screened env cfg raw \<and> e_tls env raw = Inr conn \<and>
       \<not> (token cfg \<noteq> [] \<and> prefix (token cfg) (avail conn)) \<and> fallback cfg \<noteq> [] \<and>
       e_dial env (fallback cfg) = None \<and> (\<forall>bs. e_write env (fallback cfg) bs = None) \<longrightarrow>
       (\<exists>consumed rest. route h = Spliced (fallback cfg) consumed rest))"
  using tls_stage_probe [of env raw conn cfg] by (auto simp: reality_handle_eq pass_through_spliced)

text \<open>
  The listener is safe: whatever connections arrive and in whatever order their handlers run,
  every tunnel \<open>Accept\<close> returns comes from a connection whose plaintext began with the token,
  no connection is handed out twice, and at most one error is returned.
\<close>

theorem reality_listener_safe:
  assumes "(acceptor_step (reality_tunnel env cfg))\<^sup>*\<^sup>* acceptor_init s"
  shows "list_all (\<lambda>(c, t). reality_authentic env cfg c t) (tunnels s) \<and> distinct (map fst (tunnels s)) \<and>
    length (accept_errs s) \<le> 1"
  by (rule reality.handed_authentic [OF assms])

section \<open>Concrete inputs\<close>

text \<open>An environment whose TLS drops one byte, and a server with a fallback.\<close>

definition env1 :: net_env where
  "env1 = \<lparr>e_tls = (\<lambda>raw. if avail raw = [] then Inl EOF else Inr (raw\<lparr>avail := tl (avail raw)\<rparr>)),
     e_dial = (\<lambda>_. None), e_write = (\<lambda>_ _. None), e_fold = (\<lambda>_ _. False), e_on_error = True\<rparr>"

definition cfg1 :: reality_config where
  "cfg1 = \<lparr>token = [5, 6], fallback = ''site:80'', server_names = [], passthrough_addr = [],
     handshake_timeout = 1\<rparr>"

lemma not_screened1: "\<not> screened env1 cfg1 raw"
  by (simp add: screened_def cfg1_def)

theorem reality_probe_sees_site_witness:
  "\<exists>s :: splice. s = splice_init [1, 2] \<lparr>avail = [3], rd_err = EOF\<rparr> \<lparr>avail = [8], rd_err = EOF\<rparr> \<and>
     to_site s @ avail (from_client s) = [1, 2, 3] \<and> prefix (to_site s) [1, 2, 3]"
proof -
  let ?raw = "\<lparr>avail = [9, 1, 2, 3], rd_err = EOF\<rparr>"
  let ?s = "splice_init [1, 2] \<lparr>avail = [3], rd_err = EOF\<rparr> \<lparr>avail = [8], rd_err = EOF\<rparr>"
  let ?h = "\<lparr>route = Spliced ''site:80'' [1, 2] \<lparr>avail = [3], rd_err = EOF\<rparr>, deadline = None, logged = []\<rparr>"
  have t: "e_tls env1 ?raw = Inr \<lparr>avail = [1, 2, 3], rd_err = EOF\<rparr>" "length (token cfg1) = 2"
    "[1, 2] \<noteq> token cfg1" "fallback cfg1 = ''site:80''" "e_dial env1 ''site:80'' = None"
    "e_write env1 ''site:80'' [1, 2] = None"
    by (simp_all add: env1_def cfg1_def)
  have "read_full 2 \<lparr>avail = [1, 2, 3], rd_err = EOF\<rparr> = ([1, 2], None, \<lparr>avail = [3], rd_err = EOF\<rparr>)"
    by (simp add: read_full_def)
  with t have h: "reality_handle env1 cfg1 ?raw = Some ?h"
    by (simp add: reality_handle_eq not_screened1 tls_stage_def reverse_proxy_def)
  have "splice_step\<^sup>*\<^sup>* ?s ?s" by simp
  from reality_probe_sees_site [OF h _ this] obtain sent where
    "prefix (to_site ?s) sent" "upward ?s = Copying \<longrightarrow> to_site ?s @ avail (from_client ?s) = sent"
    by auto
  then have "prefix (to_site ?s) (to_site ?s @ avail (from_client ?s))" by (simp add: splice_init_def)
  then show ?thesis by (simp add: splice_init_def)
qed

theorem reality_serves_probes_witness:
  "\<exists>h consumed rest. reality_handle env1 cfg1 \<lparr>avail = [9, 1, 2, 3], rd_err = EOF\<rparr> = Some h \<and>
     route h = Spliced ''site:80'' consumed rest"
proof -
  let ?raw = "\<lparr>avail = [9, 1, 2, 3], rd_err = EOF\<rparr>"
  have "e_tls env1 ?raw = Inr \<lparr>avail = [1, 2, 3], rd_err = EOF\<rparr>" by (simp add: env1_def)
  moreover have "\<not> (token cfg1 \<noteq> [] \<and> prefix (token cfg1) (avail \<lparr>avail = [1, 2, 3], rd_err = EOF\<rparr>))"
    "fallback cfg1 \<noteq> []" "e_dial env1 (fallback cfg1) = None"
    "\<forall>bs. e_write env1 (fallback cfg1) bs = None" by (simp_all add: cfg1_def env1_def)
  moreover have "fallback cfg1 = ''site:80''" by (simp add: cfg1_def)
  moreover obtain h where "reality_handle env1 cfg1 ?raw = Some h"
    "\<not> screened env1 cfg1 ?raw \<and> e_tls env1 ?raw = Inr \<lparr>avail = [1, 2, 3], rd_err = EOF\<rparr> \<and>
       \<not> (token cfg1 \<noteq> [] \<and> prefix (token cfg1) (avail \<lparr>avail = [1, 2, 3], rd_err = EOF\<rparr>)) \<and>
       fallback cfg1 \<noteq> [] \<and> e_dial env1 (fallback cfg1) = None \<and>
       (\<forall>bs. e_write env1 (fallback cfg1) bs = None) \<longrightarrow>
     (\<exists>consumed rest. route h = Spliced (fallback cfg1) consumed rest)"
    using reality_serves_probes [of env1 cfg1 ?raw "\<lparr>avail = [1, 2, 3], rd_err = EOF\<rparr>"] by (elim exE conjE)
  ultimately show ?thesis using not_screened1 [of ?raw] by (intro exI [of _ h]) simp
qed

theorem reality_listener_safe_witness:
  "\<exists>s :: (nat \<times> instream, instream) acceptor.
     tunnels s = [((0, \<lparr>avail = [9, 5, 6, 7], rd_err = EOF\<rparr>), \<lparr>avail = [7], rd_err = EOF\<rparr>)] \<and>
     list_all (\<lambda>(c, t). reality_authentic env1 cfg1 c t) (tunnels s)"
proof -
  let ?c = "(0 :: nat, \<lparr>avail = [9, 5, 6, 7], rd_err = EOF\<rparr>)"
  have "reality_tunnel env1 cfg1 ?c = Some \<lparr>avail = [7], rd_err = EOF\<rparr>"
    unfolding reality_tunnel_iff snd_conv
  proof (intro conjI not_screened1)
    show "token cfg1 \<noteq> []" by (simp add: cfg1_def)
  next
    show "e_tls env1 \<lparr>avail = [9, 5, 6, 7], rd_err = EOF\<rparr> = Inr (\<lparr>avail = [7], rd_err = EOF\<rparr>\<lparr>avail :=
        token cfg1 @ avail \<lparr>avail = [7], rd_err = EOF\<rparr>\<rparr>)" by (simp add: env1_def cfg1_def)
  qed
  from acceptor_run [where handle = "reality_tunnel env1 cfg1", OF this] obtain s where s:
    "(acceptor_step (reality_tunnel env1 cfg1))\<^sup>*\<^sup>* acceptor_init s"
    "tunnels s = [(?c, \<lparr>avail = [7], rd_err = EOF\<rparr>)]" by (elim exE conjE)
  from reality_listener_safe [OF s(1)] have "list_all (\<lambda>(c, t). reality_authentic env1 cfg1 c t) (tunnels s)"
    by (elim conjE)
  with s(2) show ?thesis by (intro exI [of _ s] conjI)
qed

end
