(* ===== verification/Webrtc_Listener.thy ===== *)
theory Webrtc_Listener
  imports Webrtc
begin

text \<open>
  The listener of \<open>webrtc/webrtc.go\<close>: the accept loop takes offers from the \<open>OfferSource\<close> and
  starts \<open>answer\<close> for each, \<open>Accept\<close> takes what an \<open>answer\<close> or the loop offers on the
  unbuffered channel, and \<open>Close\<close> cancels the context all of them watch. Each run of \<open>answer\<close> is
  an \<open>answer_state\<close> of the theory \<open>Webrtc\<close>; here they run side by side.
\<close>

section \<open>The loop, the runs and the users\<close>

text \<open>
  \<open>runs\<close>: the answers started so far, by offer. \<open>source\<close>: the loop is in \<open>Next\<close>, offers its error,
  or has returned. \<open>handed\<close>, \<open>source_errs\<close>, \<open>refusals\<close>: what \<open>Accept\<close> has returned.
\<close>

record 'o rtc =
  runs :: "'o \<Rightarrow> answer_state option"
  source :: accept_state
  cancelled :: bool
  handed :: "'o list"
  source_errs :: "io_err list"
  refusals :: nat

definition rtc_init :: "'o rtc" where
  "rtc_init = \<lparr>runs = Map.empty, source = Accepting_Conns, cancelled = False, handed = [],
     source_errs = [], refusals = 0\<rparr>"

text \<open>
  The goroutines of the listener. The broker's \<open>OfferSource\<close> is not part of the program:
  \<open>heeds\<close> says whether its \<open>Next\<close> stops to give offers once the context it is passed is cancelled.
\<close>

inductive rtc_own :: "bool \<Rightarrow> 'o rtc \<Rightarrow> 'o rtc \<Rightarrow> bool" for heeds where
  r_offer: "source s = Accepting_Conns \<Longrightarrow> \<not> (heeds \<and> cancelled s) \<Longrightarrow> runs s x = None \<Longrightarrow>
    rtc_own heeds s (s\<lparr>runs := (runs s)(x \<mapsto> answer_init\<lparr>closing := cancelled s\<rparr>)\<rparr>)"
| r_error: "source s = Accepting_Conns \<Longrightarrow> rtc_own heeds s (s\<lparr>source := Offering_Err e\<rparr>)"
| r_end: "source s = Offering_Err e \<Longrightarrow> cancelled s \<Longrightarrow> rtc_own heeds s (s\<lparr>source := Loop_Ended\<rparr>)"
| r_run: "runs s x = Some a \<Longrightarrow> answer_own a a' \<Longrightarrow> rtc_own heeds s (s\<lparr>runs := (runs s)(x \<mapsto> a')\<rparr>)"

text \<open>The callbacks of the library, and the users: \<open>Accept\<close> and \<open>Close\<close>.\<close>

inductive rtc_env :: "'o rtc \<Rightarrow> 'o rtc \<Rightarrow> bool" where
  r_callback: "runs s x = Some a \<Longrightarrow> answer_callback a a' \<Longrightarrow> rtc_env s (s\<lparr>runs := (runs s)(x \<mapsto> a')\<rparr>)"
| r_accept: "runs s x = Some a \<Longrightarrow> astage a = AOffer \<Longrightarrow>
    rtc_env s (s\<lparr>runs := (runs s)(x \<mapsto> a\<lparr>astage := AHanded\<rparr>), handed := handed s @ [x]\<rparr>)"
| r_accept_error: "source s = Offering_Err e \<Longrightarrow>
    rtc_env s (s\<lparr>source := Loop_Ended, source_errs := source_errs s @ [e]\<rparr>)"
| r_refused: "cancelled s \<Longrightarrow> rtc_env s (s\<lparr>refusals := refusals s + 1\<rparr>)"
| r_cancel: "rtc_env s (s\<lparr>cancelled := True, runs := (\<lambda>x. map_option (closing_update (\<lambda>_. True)) (runs s x))\<rparr>)"

definition rtc_step :: "bool \<Rightarrow> 'o rtc \<Rightarrow> 'o rtc \<Rightarrow> bool" where
  "rtc_step heeds s t \<longleftrightarrow> rtc_own heeds s t \<or> rtc_env s t"

section \<open>Each run is a run of answer\<close>

definition rtc_inv :: "'o rtc \<Rightarrow> bool" where
  "rtc_inv s \<longleftrightarrow>
     (\<forall>x a. runs s x = Some a \<longrightarrow> answer_step\<^sup>*\<^sup>* answer_init a \<and> closing a = cancelled s \<and>
        (astage a = AHanded \<longleftrightarrow> x \<in> set (handed s))) \<and>
     set (handed s) \<subseteq> dom (runs s) \<and> distinct (handed s) \<and> finite (dom (runs s)) \<and>
     (source s = Loop_Ended \<or> source_errs s = []) \<and> length (source_errs s) \<le> 1 \<and>
     (0 < refusals s \<longrightarrow> cancelled s)"

lemma rtc_inv_run:
  assumes "rtc_inv s" "runs s x = Some a"
  shows "answer_step\<^sup>*\<^sup>* answer_init a" "closing a = cancelled s" "astage a = AHanded \<longleftrightarrow> x \<in> set (handed s)"
  using assms by (simp_all add: rtc_inv_def)

lemma rtc_inv_update:
  assumes "rtc_inv s" "runs s x = Some a" "answer_step a a'" "closing a' = closing a"
    "astage a' = AHanded \<longleftrightarrow> astage a = AHanded"
  shows "rtc_inv (s\<lparr>runs := (runs s)(x \<mapsto> a')\<rparr>)"
proof -
  note r = rtc_inv_run [OF assms(1,2)]
  have "answer_step\<^sup>*\<^sup>* answer_init a'" using r(1) assms(3) by (rule rtranclp.rtrancl_into_rtrancl)
  with r assms(4,5) assms(1) show ?thesis by (auto simp: rtc_inv_def)
qed

lemma closing_reach: "answer_step\<^sup>*\<^sup>* answer_init a \<Longrightarrow> answer_step\<^sup>*\<^sup>* answer_init (a\<lparr>closing := True\<rparr>)"
  by (erule rtranclp.rtrancl_into_rtrancl) (rule answer_stepI(3), rule w_close)

lemma rtc_inv_own:
  assumes "rtc_own heeds s t" "rtc_inv s"
  shows "rtc_inv t"
  using assms
proof (induction rule: rtc_own.induct)
  case (r_offer s x)
  have "answer_step\<^sup>*\<^sup>* answer_init (answer_init\<lparr>closing := cancelled s\<rparr>)"
    using closing_reach [OF rtranclp.rtrancl_refl] by (cases "cancelled s") (simp_all add: answer_init_def)
  moreover have "x \<notin> set (handed s)" using r_offer by (auto simp: rtc_inv_def)
  ultimately show ?case using r_offer by (auto simp: rtc_inv_def answer_init_def)
next
  case (r_run s x a a')
  have "astage a' \<noteq> AHanded" "astage a \<noteq> AHanded"
    using r_run(2) by (auto elim!: answer_own.cases simp: answer_calls_def)
  with r_run show ?case
    by (intro rtc_inv_update [OF r_run(3,1)] answer_stepI(1)) (simp_all add: answer_own_work)
qed (auto simp: rtc_inv_def)

lemma callback_keeps: "answer_callback a a' \<Longrightarrow> astage a' = astage a \<and> closing a' = closing a"
  by (induction rule: answer_callback.induct) simp_all

lemma rtc_inv_env:
  assumes "rtc_env s t" "rtc_inv s"
  shows "rtc_inv t"
  using assms
proof (induction rule: rtc_env.induct)
  case (r_callback s x a a')
  then show ?case
    using callback_keeps [OF r_callback(2)]
    by (intro rtc_inv_update [OF r_callback(3,1)] answer_stepI(2)) simp_all
next
  case (r_accept s x a)
  note r = rtc_inv_run [OF r_accept(3,1)]
  have "answer_step\<^sup>*\<^sup>* answer_init (a\<lparr>astage := AHanded\<rparr>)"
    using r(1) answer_stepI(3) [OF w_handed [OF r_accept(2)]] by (rule rtranclp.rtrancl_into_rtrancl)
  moreover have "x \<notin> set (handed s)" using r(3) r_accept(2) by simp
  ultimately show ?case using r r_accept by (auto simp: rtc_inv_def)
next
  case (r_cancel s)
  have "dom (\<lambda>x. map_option (closing_update (\<lambda>_. True)) (runs s x)) = dom (runs s)" by (auto simp: dom_def)
  with r_cancel show ?case by (auto simp: rtc_inv_def dest: closing_reach)
qed (auto simp: rtc_inv_def)

lemma rtc_reach: "(rtc_step heeds)\<^sup>*\<^sup>* rtc_init s \<Longrightarrow> rtc_inv s"
proof (erule reach_invariant)
  show "rtc_inv rtc_init" by (simp add: rtc_inv_def rtc_init_def)
qed (use rtc_inv_own rtc_inv_env in \<open>auto simp: rtc_step_def\<close>)

section \<open>Shutting down\<close>

definition rtc_work :: "'o rtc \<Rightarrow> nat" where
  "rtc_work s = loop_work (source s) + (\<Sum>x \<in> dom (runs s). answer_work (astage (the (runs s x))))"

definition stopping :: "'o rtc \<Rightarrow> bool" where
  "stopping s \<longleftrightarrow> cancelled s \<and> finite (dom (runs s))"

lemma rtc_work_update:
  assumes "stopping s" "runs s x = Some a"
  shows "stopping (s\<lparr>runs := (runs s)(x \<mapsto> a')\<rparr>)"
    and "rtc_work (s\<lparr>runs := (runs s)(x \<mapsto> a')\<rparr>) + answer_work (astage a) = rtc_work s + answer_work (astage a')"
  using assms weight_map_upd [of "runs s" x a "\<lambda>a. answer_work (astage a)" a']
  by (simp_all add: stopping_def rtc_work_def del: fun_upd_apply)

lemma rtc_work_own:
  assumes "rtc_own True s t" "stopping s"
  shows "rtc_work t < rtc_work s \<and> stopping t"
  using assms
proof (induction rule: rtc_own.induct)
  case (r_run s x a a')
  then show ?case using rtc_work_update [OF r_run(3,1), of a'] answer_own_work [OF r_run(2)] by simp
qed (simp_all add: rtc_work_def stopping_def)

lemma rtc_work_env:
  assumes "rtc_env s t" "stopping s"
  shows "rtc_work t \<le> rtc_work s \<and> stopping t"
  using assms
proof (induction rule: rtc_env.induct)
  case (r_callback s x a a')
  then show ?case using rtc_work_update [OF r_callback(3,1), of a'] callback_keeps [OF r_callback(2)] by simp
next
  case (r_accept s x a)
  then show ?case
    using rtc_work_update [OF r_accept(3,1), of "a\<lparr>astage := AHanded\<rparr>"]
    by (simp add: rtc_work_def stopping_def del: fun_upd_apply)
next
  case (r_cancel s)
  have d: "dom (\<lambda>x. map_option (closing_update (\<lambda>_. True)) (runs s x)) = dom (runs s)" by (auto simp: dom_def)
  have "(\<Sum>x \<in> dom (runs s). answer_work (astage (the (map_option (closing_update (\<lambda>_. True)) (runs s x))))) =
      (\<Sum>x \<in> dom (runs s). answer_work (astage (the (runs s x))))"
    by (intro sum.cong) auto
  with d r_cancel show ?case by (simp add: rtc_work_def stopping_def)
qed (simp_all add: rtc_work_def stopping_def)

definition rtc_ended :: "'o rtc \<Rightarrow> bool" where
  "rtc_ended s \<longleftrightarrow> source s = Loop_Ended \<and> (\<forall>a \<in> ran (runs s). astage a \<in> {AHanded, ADropped})"

lemma rtc_stuck:
  assumes "cancelled s" "rtc_inv s" "\<And>t. \<not> rtc_own heeds s t"
  shows "rtc_ended s"
proof -
  have "source s = Loop_Ended"
    using assms(3) r_error [of s heeds ErrClosed] r_end [of s _ heeds] assms(1) by (cases "source s") auto
  moreover have "astage a \<in> {AHanded, ADropped}" if "runs s x = Some a" for x a
    by (rule answer_own_stuck) (use that assms r_run [OF that] rtc_inv_run(2) [OF assms(2) that] in blast)+
  ultimately show ?thesis by (auto simp: rtc_ended_def ran_def)
qed

lemma rtc_ended_stays:
  assumes "(rtc_step heeds)\<^sup>*\<^sup>* s t" "rtc_ended s"
  shows "rtc_ended t \<and> handed t = handed s \<and> source_errs t = source_errs s"
  using assms(1)
proof (induction rule: rtranclp_induct)
  case (step t u)
  then have e: "source t = Loop_Ended" "\<And>x a. runs t x = Some a \<Longrightarrow> astage a = AHanded \<or> astage a = ADropped"
    by (auto simp: rtc_ended_def ran_def)
  have "rtc_ended u \<and> handed u = handed t \<and> source_errs u = source_errs t"
    using step(2) unfolding rtc_step_def
  proof (elim disjE)
    assume "rtc_own heeds t u"
    then show ?thesis
    proof cases
      case (r_run x a a')
      with e(2) [of x a] show ?thesis by (auto elim!: answer_own.cases simp: answer_calls_def)
    qed (use e in simp_all)
  next
    assume "rtc_env t u"
    then show ?thesis
    proof cases
      case (r_callback x a a')
      have "astage a' = AHanded \<or> astage a' = ADropped"
        using e(2) [OF r_callback(2)] callback_keeps [OF r_callback(3)] by simp
      with e r_callback(1) show ?thesis by (auto simp: rtc_ended_def ran_def split: if_splits)
    next
      case (r_accept x a)
      with e(2) [of x a] show ?thesis by simp
    next
      case r_cancel
      with e show ?thesis by (auto simp: rtc_ended_def ran_def dest!: e(2))
    qed (use e in \<open>auto simp: rtc_ended_def ran_def dest!: e(2)\<close>)
  qed
  with step show ?case by simp
qed (use assms(2) in simp)

lemma rtc_own_bound:
  assumes "stopping (f 0)" "\<And>n. rtc_step True (f n) (f (Suc n))"
  shows "finite {n. rtc_own True (f n) (f (Suc n))} \<and>
    card {n. rtc_own True (f n) (f (Suc n))} \<le> 10 * card (dom (runs (f 0))) + 2"
proof -
  have inv: "stopping (f n)" for n
  proof (induction n)
    case (Suc n)
    then show ?case using assms(2) [of n] rtc_work_own rtc_work_env unfolding rtc_step_def by blast
  qed (rule assms(1))
  have "rtc_work (f (Suc n)) \<le> rtc_work (f n)" for n
    using inv [of n] assms(2) [of n] rtc_work_own [of "f n"] rtc_work_env [of "f n"] less_imp_le
    unfolding rtc_step_def by metis
  from few_steps [where f = f and w = rtc_work and own = "rtc_own True" and P = stopping, OF this _ inv] rtc_work_own
  have few: "finite {n. rtc_own True (f n) (f (Suc n))} \<and>
      card {n. rtc_own True (f n) (f (Suc n))} \<le> rtc_work (f 0)" by blast
  have "answer_work (astage a) \<le> 10" for a :: answer_state by (cases "astage a") simp_all
  from weight_map_bound [where w = "\<lambda>a. answer_work (astage a)", OF this, of "runs (f 0)"]
  have "rtc_work (f 0) \<le> 10 * card (dom (runs (f 0))) + 2"
    by (cases "source (f 0)") (simp_all add: rtc_work_def)
  with few show ?thesis by simp
qed

text \<open>An answer that fails at its first call, in a listener that is then closed, for the witnesses.\<close>

definition rtc1 :: "(nat \<Rightarrow> answer_state option) \<Rightarrow> accept_state \<Rightarrow> bool \<Rightarrow> nat rtc" where
  "rtc1 m l b = \<lparr>runs = m, source = l, cancelled = b, handed = [], source_errs = [], refusals = 0\<rparr>"

lemma rtc1_opened:
  "(rtc_step True)\<^sup>*\<^sup>* rtc_init (rtc1 [0 \<mapsto> answer_init\<lparr>closing := True\<rparr>] Accepting_Conns True)"
proof -
  have "rtc_step True rtc_init (rtc1 [0 \<mapsto> answer_init] Accepting_Conns False)"
    using r_offer [of "rtc_init :: nat rtc" True 0]
    by (simp add: rtc_step_def rtc1_def rtc_init_def answer_init_def)
  moreover have "rtc_step True (rtc1 [0 \<mapsto> answer_init] Accepting_Conns False)
      (rtc1 [0 \<mapsto> answer_init\<lparr>closing := True\<rparr>] Accepting_Conns True)"
    using r_cancel [of "rtc1 [0 \<mapsto> answer_init] Accepting_Conns False"]
    by (simp add: rtc_step_def rtc1_def fun_upd_def if_distrib [of "map_option _"] cong: if_cong)
  ultimately show ?thesis by (meson converse_rtranclp_into_rtranclp rtranclp.rtrancl_refl)
qed

lemma rtc1_rests:
  defines "a \<equiv> answer_init\<lparr>closing := True, astage := ADropped\<rparr>"
  shows "(rtc_step True)\<^sup>*\<^sup>* (rtc1 [0 \<mapsto> answer_init\<lparr>closing := True\<rparr>] Accepting_Conns True) (rtc1 [0 \<mapsto> a] Loop_Ended True)"
    and "\<nexists>t. rtc_own True (rtc1 [0 \<mapsto> a] Loop_Ended True) t"
proof -
  let ?s = "rtc1 [0 \<mapsto> answer_init\<lparr>closing := True\<rparr>] Accepting_Conns True"
  have "answer_own (answer_init\<lparr>closing := True\<rparr>) a"
    using w_new_fails [of "answer_init\<lparr>closing := True\<rparr>"] by (simp add: a_def answer_init_def)
  then have "rtc_step True ?s (rtc1 [0 \<mapsto> a] Accepting_Conns True)"
    using r_run [of ?s 0 "answer_init\<lparr>closing := True\<rparr>" a True] by (simp add: rtc_step_def rtc1_def)
  moreover have "rtc_step True (rtc1 [0 \<mapsto> a] Accepting_Conns True) (rtc1 [0 \<mapsto> a] (Offering_Err ErrClosed) True)"
    using r_error [of "rtc1 [0 \<mapsto> a] Accepting_Conns True" True ErrClosed] by (simp add: rtc_step_def rtc1_def)
  moreover have "rtc_step True (rtc1 [0 \<mapsto> a] (Offering_Err ErrClosed) True) (rtc1 [0 \<mapsto> a] Loop_Ended True)"
    using r_end [of "rtc1 [0 \<mapsto> a] (Offering_Err ErrClosed) True" ErrClosed True] by (simp add: rtc_step_def rtc1_def)
  ultimately show "(rtc_step True)\<^sup>*\<^sup>* ?s (rtc1 [0 \<mapsto> a] Loop_Ended True)"
    by (meson converse_rtranclp_into_rtranclp rtranclp.rtrancl_refl)
  show "\<nexists>t. rtc_own True (rtc1 [0 \<mapsto> a] Loop_Ended True) t"
    by (auto elim!: rtc_own.cases answer_own.cases simp: rtc1_def a_def answer_init_def answer_calls_def split: if_splits)
qed

text \<open>
  A source that does not heed its context keeps a closed listener going: the loop still starts answers.
\<close>

lemma rtc_close_unheeded:
  assumes "source s = Accepting_Conns" "runs s x = None"
  shows "\<exists>t. rtc_own False s t \<and> runs t x \<noteq> None \<and> source t = Accepting_Conns \<and> cancelled t = cancelled s"
  using r_offer [of s False x] assms
  by (intro exI [of _ "s\<lparr>runs := (runs s)(x \<mapsto> answer_init\<lparr>closing := cancelled s\<rparr>)\<rparr>"]) simp

section \<open>Properties\<close>

text \<open>
  C29. The listener composes its answers soundly: in every interleaving of the loop, the answers, the
  callbacks of the library, \<open>Accept\<close> and \<open>Close\<close>, each run is by itself a run of \<open>answer\<close>; a
  connection is handed out once and exactly if its run says so; a run that was given up has closed
  its peer connection; at most one error of the source is returned, and \<open>Accept\<close> refuses only
  after \<open>Close\<close>.
\<close>

theorem rtc_listener_safe:
  assumes "(rtc_step heeds)\<^sup>*\<^sup>* rtc_init s"
  shows "distinct (handed s) \<and> length (source_errs s) \<le> 1 \<and> (0 < refusals s \<longrightarrow> cancelled s) \<and>
    (\<forall>x a. runs s x = Some a \<longrightarrow> answer_step\<^sup>*\<^sup>* answer_init a \<and>
      (astage a = AHanded \<longleftrightarrow> x \<in> set (handed s)) \<and> (astage a = ADropped \<longrightarrow> \<not> apc_open a))"
  using rtc_reach [OF assms] answer_drops by (simp add: rtc_inv_def)

theorem rtc_listener_safe_witness:
  "\<exists>s :: nat rtc. runs s 0 \<noteq> None \<and> cancelled s \<and> (\<forall>a. runs s 0 = Some a \<longrightarrow> answer_step\<^sup>*\<^sup>* answer_init a)"
  using rtc_listener_safe [OF rtc1_opened]
  by (intro exI [of _ "rtc1 [0 \<mapsto> answer_init\<lparr>closing := True\<rparr>] Accepting_Conns True"]) (simp add: rtc1_def)



end
