(* ===== verification/Echo.thy ===== *)
theory Echo
  imports Shaped_Conn "HOL-Library.Sublist"
begin

text \<open>
  The echo service of \<open>examples/fullstack/main.go\<close>: \<open>io.Copy(shaped, shaped)\<close> on a shaped
  connection. The loop of \<open>io.Copy\<close> reads from the connection and writes back to it while the
  connection's own goroutines send cover; both go on as steps of \<open>echo_step\<close>.
\<close>

section \<open>The copying goroutine\<close>

datatype copy_err = ReadFailed conn_err | WriteFailed io_err | ShortWrite

text \<open>\<open>Panicked\<close>: the \<open>Read\<close> or \<open>Write\<close> called has panicked (which a \<open>Read\<close> never does).\<close>

datatype copy_stage = Copying | Copied "copy_err option" | Panicked

text \<open>
  \<open>rside\<close> and \<open>wside\<close>: the two halves of the connection. \<open>echoed\<close> is the count of \<open>io.Copy\<close>,
  \<open>raw_closed\<close> that the deferred \<open>raw.Close\<close> has run.
\<close>

record 'r echo =
  rside :: rstate
  wside :: "'r sstate"
  echoed :: nat
  cstage :: copy_stage
  raw_closed :: bool

definition copy_buf :: nat where "copy_buf = 32 * 1024"

text \<open>One turn of the loop in \<open>io.Copy\<close>: read, write what was read, then look at the errors.\<close>

definition copy_turn ::
  "(int \<Rightarrow> 'r \<Rightarrow> (int \<times> 'r) option) \<Rightarrow> 'r shaper \<Rightarrow> base_write \<Rightarrow> 'r echo \<Rightarrow> 'r echo" where
  "copy_turn jd c res t =
     (case shaped_read c copy_buf (rside t) of
        None \<Rightarrow> t\<lparr>cstage := Panicked\<rparr>
      | Some (bs, er, r1) \<Rightarrow>
          (case (if bs = [] then Some ((0, None), wside t) else shaped_write jd c bs res (wside t)) of
             None \<Rightarrow> t\<lparr>rside := r1, cstage := Panicked\<rparr>
           | Some ((nw, ew), w1) \<Rightarrow>
               let t = t\<lparr>rside := r1, wside := w1, echoed := echoed t + nw\<rparr> in
               (case ew of
                  Some e \<Rightarrow> t\<lparr>cstage := Copied (Some (WriteFailed e))\<rparr>
                | None \<Rightarrow>
                    if nw \<noteq> length bs then t\<lparr>cstage := Copied (Some ShortWrite)\<rparr>
                    else (case er of
                        None \<Rightarrow> t
                      | Some e \<Rightarrow>
                          t\<lparr>cstage := Copied (if e = IoErr EOF then None else Some (ReadFailed e))\<rparr>))))"

text \<open>
  The interleavings. The rest of the connection are the steps of \<open>shaped_step\<close> that accept no data
  of their own: the loops, the clock, \<open>Close\<close>.
\<close>

inductive echo_step ::
  "(int \<Rightarrow> 'r \<Rightarrow> (int \<times> 'r) option) \<Rightarrow> 'r shaper \<Rightarrow> background list \<Rightarrow> 'r echo \<Rightarrow> 'r echo \<Rightarrow> bool"
  for jd c ls where
  e_turn: "cstage t = Copying \<Longrightarrow> (base_closed (wside t) \<Longrightarrow> res \<noteq> WriteOk) \<Longrightarrow>
    echo_step jd c ls t (copy_turn jd c res t)"
| e_background: "shaped_step jd c ls (wside t) w \<Longrightarrow> accepted w = accepted (wside t) \<Longrightarrow>
    echo_step jd c ls t (t\<lparr>wside := w\<rparr>)"
| e_close: "cstage t \<noteq> Copying \<Longrightarrow>
    echo_step jd c ls t (t\<lparr>raw_closed := True, wside := (wside t)\<lparr>base_closed := True\<rparr>\<rparr>)"

definition echo_init :: "instream \<Rightarrow> 'r \<Rightarrow> instant \<Rightarrow> int list \<Rightarrow> 'r echo" where
  "echo_init i r now due = \<lparr>rside = \<lparr>src = i, pending = [], rbuf_cap = 0\<rparr>,
     wside = shaped_init r now due, echoed = 0, cstage = Copying, raw_closed = False\<rparr>"

section \<open>What a turn does\<close>

lemma shaped_step_failed: "shaped_step jd c ls s s' \<Longrightarrow> failed s \<Longrightarrow> failed s'"
proof (induction rule: shaped_step.induct)
  case (app_write p res s r s')
  then show ?case
    by (cases res) (auto simp: shaped_write_def flush_def Let_def bind_eq_Some_conv split: if_splits prod.splits)
qed (auto simp: cover_tick_def front_send_def flush_def Let_def split: base_write.splits prod.splits)

text \<open>A write that returns either accepts all its bytes or fails, and then says so.\<close>

lemma shaped_write_cases:
  assumes "shaped_write jd c p res s = Some ((n, e), s')" "p \<noteq> []"
  obtains "e = None" "n = length p" "accepted s' = accepted s @ p" "failed s' = failed s"
  | err where "e = Some err" "failed s'"
  using assms by (cases res)
    (auto simp: shaped_write_def flush_def Let_def bind_eq_Some_conv split: prod.splits)

lemma turn_end:
  assumes "shaped.delivers c (rside t) [] e"
  shows "\<exists>r1. copy_turn jd c res t = t\<lparr>rside := r1,
      cstage := Copied (if e = IoErr EOF then None else Some (ReadFailed e))\<rparr> \<and> shaped.delivers c r1 [] e"
proof -
  obtain r1 where "shaped_read c copy_buf (rside t) = Some ([], Some e, r1)" "shaped.delivers c r1 [] e"
    using shaped.shaped_reader.read_end [OF assms, of copy_buf] by (auto simp: shaped_read_eq copy_buf_def)
  then show ?thesis by (intro exI [of _ r1]) (simp add: copy_turn_def)
qed

lemma turn_some:
  assumes "shaped.delivers c (rside t) bs e" "bs \<noteq> []"
  shows "\<exists>k r1. 0 < k \<and> k \<le> length bs \<and> shaped.delivers c r1 (drop k bs) e \<and>
    copy_turn jd c res t =
      (case shaped_write jd c (take k bs) res (wside t) of
         None \<Rightarrow> t\<lparr>rside := r1, cstage := Panicked\<rparr>
       | Some ((nw, ew), w1) \<Rightarrow>
           let t = t\<lparr>rside := r1, wside := w1, echoed := echoed t + nw\<rparr> in
           (case ew of
              Some x \<Rightarrow> t\<lparr>cstage := Copied (Some (WriteFailed x))\<rparr>
            | None \<Rightarrow> if nw \<noteq> k then t\<lparr>cstage := Copied (Some ShortWrite)\<rparr> else t))"
proof -
  obtain k r1 where k: "0 < k" "k \<le> length bs" "shaped_read c copy_buf (rside t) = Some (take k bs, None, r1)"
    "shaped.delivers c r1 (drop k bs) e"
    using shaped.shaped_reader.read_some [OF assms(1) _ assms(2), of copy_buf]
    by (auto simp: shaped_read_eq copy_buf_def)
  moreover have "take k bs \<noteq> []" using k assms(2) by simp
  ultimately show ?thesis
    by (intro exI [of _ k] exI [of _ r1]) (simp add: copy_turn_def Let_def min_absorb1 split: option.split prod.split)
qed

section \<open>The echo\<close>

text \<open>
  \<open>d\<close>: all the data the client's stream carries, before the error \<open>e\<close>. Until a base write fails,
  what has been written back and what is still to be read make up the stream.
\<close>

definition echo_inv :: "'r shaper \<Rightarrow> bytes \<Rightarrow> conn_err \<Rightarrow> 'r echo \<Rightarrow> bool" where
  "echo_inv c d e t \<longleftrightarrow> shaped_wf c \<and> wire_inv c (wside t) \<and>
     (\<exists>bs. shaped.delivers c (rside t) bs e \<and>
       (failed (wside t) \<or>
        (case cstage t of
           Copying \<Rightarrow> d = accepted (wside t) @ bs
         | Copied r \<Rightarrow> d = accepted (wside t) \<and> r = (if e = IoErr EOF then None else Some (ReadFailed e))
         | Panicked \<Rightarrow> prefix (accepted (wside t)) d)))"

lemma echo_invI:
  assumes "shaped_wf c" "wire_inv c (wside t)" "shaped.delivers c (rside t) bs e"
    and "\<not> failed (wside t) \<Longrightarrow> cstage t = Copying \<Longrightarrow> d = accepted (wside t) @ bs"
    and "\<And>r. \<not> failed (wside t) \<Longrightarrow> cstage t = Copied r \<Longrightarrow>
      d = accepted (wside t) \<and> r = (if e = IoErr EOF then None else Some (ReadFailed e))"
    and "\<not> failed (wside t) \<Longrightarrow> cstage t = Panicked \<Longrightarrow> prefix (accepted (wside t)) d"
  shows "echo_inv c d e t"
  unfolding echo_inv_def using assms by (intro conjI exI [of _ bs]) (auto split: copy_stage.split)

lemma echo_inv_turn:
  assumes "echo_inv c d e t" "cstage t = Copying"
  shows "echo_inv c d e (copy_turn jd c res t)"
proof -
  from assms obtain bs where wf: "shaped_wf c" "wire_inv c (wside t)"
    and bs: "shaped.delivers c (rside t) bs e" "\<not> failed (wside t) \<Longrightarrow> d = accepted (wside t) @ bs"
    by (auto simp: echo_inv_def)
  show ?thesis
  proof (cases "bs = []")
    case True
    with turn_end [of c t e jd res] bs(1) obtain r1 where
      "copy_turn jd c res t = t\<lparr>rside := r1, cstage := Copied (if e = IoErr EOF then None else Some (ReadFailed e))\<rparr>"
      "shaped.delivers c r1 [] e" by blast
    with True wf bs(2) show ?thesis by (intro echo_invI [of c _ "[]"]) auto
  next
    case False
    from turn_some [OF bs(1) False, of jd res] obtain k r1 where
      k: "0 < k" "k \<le> length bs" "shaped.delivers c r1 (drop k bs) e" and turn: "copy_turn jd c res t =
        (case shaped_write jd c (take k bs) res (wside t) of
           None \<Rightarrow> t\<lparr>rside := r1, cstage := Panicked\<rparr>
         | Some ((nw, ew), w1) \<Rightarrow>
             let t = t\<lparr>rside := r1, wside := w1, echoed := echoed t + nw\<rparr> in
             (case ew of
                Some x \<Rightarrow> t\<lparr>cstage := Copied (Some (WriteFailed x))\<rparr>
              | None \<Rightarrow> if nw \<noteq> k then t\<lparr>cstage := Copied (Some ShortWrite)\<rparr> else t))"
      by (elim exE conjE)
    show ?thesis
    proof (cases "shaped_write jd c (take k bs) res (wside t)")
      case None
      with turn have "copy_turn jd c res t = t\<lparr>rside := r1, cstage := Panicked\<rparr>" by simp
      with wf bs(2) k(3) show ?thesis by (intro echo_invI [of c _ "drop k bs"]) auto
    next
      case (Some x)
      obtain n er w1 where w: "shaped_write jd c (take k bs) res (wside t) = Some ((n, er), w1)"
        using Some by (cases x) force
      have inv: "wire_inv c w1" by (rule shaped_write_inv [OF wf w])
      have "take k bs \<noteq> []" using k(1) False by simp
      from w this show ?thesis
      proof (cases rule: shaped_write_cases)
        case 1
        then have t: "copy_turn jd c res t = t\<lparr>rside := r1, wside := w1, echoed := echoed t + n\<rparr>"
          using turn w k(2) by simp
        have d: "d = accepted w1 @ drop k bs" if "\<not> failed w1" using that bs(2) 1(3,4) by simp
        show ?thesis unfolding t
          by (rule echo_invI [of c _ "drop k bs"]) (use wf(1) inv k(3) d assms(2) in simp_all)
      next
        case (2 err)
        then have t: "copy_turn jd c res t = t\<lparr>rside := r1, wside := w1,
            echoed := echoed t + n, cstage := Copied (Some (WriteFailed err))\<rparr>" using turn w by simp
        show ?thesis unfolding t
          by (rule echo_invI [of c _ "drop k bs"]) (use wf(1) inv k(3) 2(2) in simp_all)
      qed
    qed
  qed
qed

lemma echo_inv_step:
  assumes "echo_step jd c ls t t'" "echo_inv c d e t"
  shows "echo_inv c d e t'"
  using assms
proof (induction rule: echo_step.induct)
  case (e_turn t res)
  then show ?case by (intro echo_inv_turn)
next
  case (e_background t w)
  then have "wire_inv c w" by (auto simp: echo_inv_def intro: shaped_step_inv)
  moreover have "failed (wside t) \<longrightarrow> failed w" using shaped_step_failed e_background(1) by blast
  ultimately show ?case
    using e_background(2,3) unfolding echo_inv_def by (auto split: copy_stage.splits)
next
  case (e_close t)
  then show ?case by (cases "cstage t") (simp_all add: echo_inv_def)
qed

lemma echo_reach:
  assumes "(echo_step jd c ls)\<^sup>*\<^sup>* (echo_init i r now due) t" "shaped_wf c"
    and "shaped.delivers c (rside (echo_init i r now due)) d e"
  shows "echo_inv c d e t"
proof (rule reach_invariant [OF assms(1)])
  have "wire_inv c (shaped_init r now due)" by (rule wire_invI [of c "[]" "[]"]) (simp_all add: shaped_init_def)
  then show "echo_inv c d e (echo_init i r now due)"
    using assms(2,3) by (intro echo_invI [of c _ d]) (simp_all add: echo_init_def shaped_init_def)
qed (rule echo_inv_step)

section \<open>The copier ends\<close>

definition turn_step ::
  "(int \<Rightarrow> 'r \<Rightarrow> (int \<times> 'r) option) \<Rightarrow> 'r shaper \<Rightarrow> 'r echo \<Rightarrow> 'r echo \<Rightarrow> bool" where
  "turn_step jd c t t' \<longleftrightarrow> cstage t = Copying \<and>
     (\<exists>res. (base_closed (wside t) \<longrightarrow> res \<noteq> WriteOk) \<and> t' = copy_turn jd c res t)"

definition copy_work :: "'r echo \<Rightarrow> nat" where
  "copy_work t = (if cstage t = Copying then Suc (unread (rside t)) else 0)"

lemma turn_work:
  assumes "shaped_wf c" "cstage t = Copying"
  shows "copy_work (copy_turn jd c res t) < copy_work t"
proof -
  obtain bs e r1 where rd: "shaped_read c copy_buf (rside t) = Some (bs, e, r1)"
    and ne: "e = None \<longrightarrow> bs \<noteq> []" and le: "e = None \<longrightarrow> unread r1 + length bs \<le> unread (rside t)"
    using shaped.read_total [OF assms(1), of copy_buf "rside t"] by (auto simp: shaped_read_eq copy_buf_def)
  have "unread r1 < unread (rside t)" if "e = None" using that ne le by (cases bs) auto
  then show ?thesis
    using rd assms(2) by (auto simp: copy_work_def copy_turn_def Let_def split: option.split prod.split)
qed

lemma echo_work:
  assumes "echo_step jd c ls t t'" "shaped_wf c"
  shows "copy_work t' \<le> copy_work t"
  using assms
proof (induction rule: echo_step.induct)
  case (e_turn t res)
  then show ?case using turn_work [of c t jd res] by simp
qed (simp_all add: copy_work_def)

text \<open>A turn whose write succeeds.\<close>

lemma turn_progress:
  assumes "echo_inv c d e t" "cstage t = Copying" "\<not> failed (wside t)"
    and "\<And>r. \<exists>x. apply_delay jd c r = Some x"
  shows "cstage (copy_turn jd c WriteOk t) \<noteq> Panicked \<and> \<not> failed (wside (copy_turn jd c WriteOk t)) \<and>
    base_closed (wside (copy_turn jd c WriteOk t)) = base_closed (wside t)"
proof -
  from assms obtain bs where bs: "shaped.delivers c (rside t) bs e" by (auto simp: echo_inv_def)
  show ?thesis
  proof (cases "bs = []")
    case True
    then obtain r1 where "copy_turn jd c WriteOk t = t\<lparr>rside := r1,
        cstage := Copied (if e = IoErr EOF then None else Some (ReadFailed e))\<rparr>"
      using turn_end [of c t e jd WriteOk] bs by blast
    with assms(3) show ?thesis by simp
  next
    case False
    have "\<exists>w1. shaped_write jd c p WriteOk s = Some ((length p, None), w1) \<and> failed w1 = failed s \<and>
        base_closed w1 = base_closed s" if "p \<noteq> []" for p s
    proof -
      obtain cells r1 where f: "frame_cells c p (rnd s) = (cells, r1)" by force
      obtain d r2 where "apply_delay jd c r1 = Some (d, r2)" using assms(4) by fastforce
      with f that show ?thesis by (simp add: shaped_write_def flush_def)
    qed
    note w = this
    from turn_some [OF bs False, of jd WriteOk] obtain k r1 where k: "0 < k" "k \<le> length bs"
      and turn: "copy_turn jd c WriteOk t =
        (case shaped_write jd c (take k bs) WriteOk (wside t) of
           None \<Rightarrow> t\<lparr>rside := r1, cstage := Panicked\<rparr>
         | Some ((nw, ew), w1) \<Rightarrow>
             let t = t\<lparr>rside := r1, wside := w1, echoed := echoed t + nw\<rparr> in
             (case ew of
                Some x \<Rightarrow> t\<lparr>cstage := Copied (Some (WriteFailed x))\<rparr>
              | None \<Rightarrow> if nw \<noteq> k then t\<lparr>cstage := Copied (Some ShortWrite)\<rparr> else t))"
      by (elim exE conjE)
    have "take k bs \<noteq> []" using k(1) False by simp
    from w [OF this, of "wside t"] obtain w1 where "shaped_write jd c (take k bs) WriteOk (wside t) =
        Some ((k, None), w1)" "failed w1 = failed (wside t)" "base_closed w1 = base_closed (wside t)"
      using k(2) by (auto simp: min_absorb1)
    with turn assms(2,3) show ?thesis by simp
  qed
qed

lemma echo_completes:
  assumes "echo_inv c d e t" "cstage t = Copying" "\<not> failed (wside t)" "\<not> base_closed (wside t)"
    and "\<And>r. \<exists>x. apply_delay jd c r = Some x"
  shows "\<exists>t'. (echo_step jd c ls)\<^sup>*\<^sup>* t t' \<and> echo_inv c d e t' \<and> \<not> failed (wside t') \<and> (\<exists>x. cstage t' = Copied x)"
  using assms(1-4)
proof (induction "copy_work t" arbitrary: t rule: less_induct)
  case less
  let ?t = "copy_turn jd c WriteOk t"
  have step: "echo_step jd c ls t ?t" using less.prems by (intro e_turn) simp_all
  have inv: "echo_inv c d e ?t" by (rule echo_inv_turn [OF less.prems(1,2)])
  note p = turn_progress [OF less.prems(1-3) assms(5)]
  show ?case
  proof (cases "cstage ?t = Copying")
    case True
    have wf: "shaped_wf c" using less.prems(1) by (simp add: echo_inv_def)
    have "copy_work ?t < copy_work t" by (rule turn_work [OF wf less.prems(2)])
    moreover have "\<not> failed (wside ?t)" "\<not> base_closed (wside ?t)" using p less.prems(4) by simp_all
    ultimately obtain t' where "(echo_step jd c ls)\<^sup>*\<^sup>* ?t t'" "echo_inv c d e t'" "\<not> failed (wside t')"
      "\<exists>x. cstage t' = Copied x" using less.hyps [of ?t] True inv by blast
    with step show ?thesis by (meson converse_rtranclp_into_rtranclp)
  next
    case False
    with p have "\<exists>x. cstage ?t = Copied x" by (cases "cstage ?t") auto
    with step inv p show ?thesis by blast
  qed
qed

section \<open>Properties\<close>

lemma matching_delivers:
  assumes "shaped_wf c'" "matching c c'" "wire_inv c s" "\<not> failed s"
  shows "shaped.delivers c' \<lparr>src = \<lparr>avail = wire s, rd_err = e\<rparr>, pending = [], rbuf_cap = k\<rparr> (accepted s) (IoErr e)"
proof -
  from assms(3,4) obtain ws ds where w: "list_all2 (shaped_frame c) ws ds" "wire s = concat ws"
    "accepted s = concat ds" by (auto simp: wire_inv_def)
  have "list_all2 (shaped_frame c') ws ds" using w(1) matching_frame [OF assms(2)] by simp
  from shaped.deliversI [OF assms(1) this,
      of "\<lparr>src = \<lparr>avail = wire s, rd_err = e\<rparr>, pending = [], rbuf_cap = k\<rparr>"] w(2,3)
  show ?thesis by simp
qed

lemma echo_of_shaped:
  assumes "shaped_wf c" "shaped_wf c'" "matching c c'"
    and "(shaped_step jd c ls)\<^sup>*\<^sup>* (shaped_init r now due) s" "\<not> failed s"
    and "(echo_step jd' c' ls')\<^sup>*\<^sup>* (echo_init \<lparr>avail = wire s, rd_err = e\<rparr> r' now' due') t"
  shows "echo_inv c' (accepted s) (IoErr e) t"
  using echo_reach [OF assms(6,2)] matching_delivers [OF assms(2,3) shaped_reach_inv [OF assms(4,1)] assms(5)]
  by (simp add: echo_init_def)

lemma echo_prefix: "echo_inv c d e t \<Longrightarrow> \<not> failed (wside t) \<Longrightarrow> prefix (accepted (wside t)) d"
  by (cases "cstage t") (auto simp: echo_inv_def)

text \<open>
  C13. The echo, there and back. A client writes on a shaped connection, a server with a matching policy
  copies its shaped connection to itself, each with its own cover traffic, delays and clock, under
  every interleaving. As long as no base write has failed, what the server has echoed is a
  beginning of what the client's writes accepted; when the copier has ended it is all of it, and the
  result of \<open>io.Copy\<close> is the error of the stream; and the client reads back exactly the bytes it
  wrote.
\<close>

theorem echo_round_trip:
  assumes "new_shaped_conn rf p = Some (c, ls)" and "filler (fill c)" and "p_cell_size p \<le> 65537"
    and "new_shaped_conn rf' p' = Some (c', ls')" and "filler (fill c')" and "p_cell_size p' \<le> 65537"
    and "matching c c'"
    and "(shaped_step jd c ls)\<^sup>*\<^sup>* (shaped_init r now due) s" and "\<not> failed s"
    and "(echo_step jd' c' ls')\<^sup>*\<^sup>* (echo_init \<lparr>avail = wire s, rd_err = e\<rparr> r' now' due') t"
    and "\<not> failed (wside t)" and "n \<le> length (accepted (wside t))"
  shows "prefix (accepted (wside t)) (accepted s) \<and>
    (\<forall>x. cstage t = Copied x \<longrightarrow> accepted (wside t) = accepted s \<and>
      x = (if e = EOF then None else Some (ReadFailed (IoErr e)))) \<and>
    (\<exists>u. read_full_loop (shaped_read c) conn_unexpected n []
        \<lparr>src = \<lparr>avail = wire (wside t), rd_err = e'\<rparr>, pending = [], rbuf_cap = k\<rparr> =
      Some (take n (accepted s), None, u))"
proof -
  have wf: "shaped_wf c" "shaped_wf c'" by (rule new_shaped_wf [OF assms(1-3)], rule new_shaped_wf [OF assms(4-6)])
  have inv: "echo_inv c' (accepted s) (IoErr e) t" by (rule echo_of_shaped [OF wf assms(7-10)])
  have pre: "prefix (accepted (wside t)) (accepted s)" by (rule echo_prefix [OF inv assms(11)])
  then have "take n (accepted (wside t)) = take n (accepted s)" using assms(12) by (auto simp: prefix_def)
  moreover have "\<exists>u. read_full_loop (shaped_read c) conn_unexpected n []
        \<lparr>src = \<lparr>avail = wire (wside t), rd_err = e'\<rparr>, pending = [], rbuf_cap = k\<rparr> =
      Some (take n (accepted (wside t)), None, u)"
    using inv by (intro wire_inv_read_full [OF _ assms(11) wf(2) matching_sym [OF assms(7)]])
      (simp_all add: echo_inv_def assms(12))
  ultimately show ?thesis
    using inv assms(11) pre by (intro conjI allI impI) (auto simp: echo_inv_def)
qed

theorem echo_round_trip_witness:
  "\<exists>(s :: unit sstate) (t :: unit echo) u. accepted s = [1, 2, 3] \<and> cstage t = Copied None \<and> accepted (wside t) = accepted s \<and>
     (echo_step (\<lambda>_ r. Some (0, r)) fixed4 [])\<^sup>*\<^sup>* (echo_init \<lparr>avail = wire s, rd_err = EOF\<rparr> () (Instant 0) []) t \<and>
     read_full_loop (shaped_read fixed4) conn_unexpected 3 []
       \<lparr>src = \<lparr>avail = wire (wside t), rd_err = EOF\<rparr>, pending = [], rbuf_cap = 0\<rparr> = Some ([1, 2, 3], None, u)"
proof -
  let ?jd = "\<lambda>_ r. Some (0, r)"
  obtain s where s: "(shaped_step ?jd fixed4 [])\<^sup>*\<^sup>* (shaped_init () (Instant 0) []) s"
    "accepted s = [1, 2, 3]" "\<not> failed s" using fixed4_sent by blast
  let ?i = "echo_init \<lparr>avail = wire s, rd_err = EOF\<rparr> () (Instant 0) []"
  have wf: "shaped_wf fixed4" by (rule new_shaped_wf [OF fixed4_new fixed4_conditions(1,2)])
  have "echo_inv fixed4 (accepted s) (IoErr EOF) ?i"
    by (rule echo_of_shaped [OF wf wf fixed4_conditions(3) s(1,3)]) (rule rtranclp.rtrancl_refl)
  then obtain t where t: "(echo_step ?jd fixed4 [])\<^sup>*\<^sup>* ?i t" "echo_inv fixed4 (accepted s) (IoErr EOF) t"
    "\<not> failed (wside t)" "\<exists>x. cstage t = Copied x"
    using echo_completes [of fixed4 "accepted s" "IoErr EOF" ?i ?jd "[]"]
    by (auto simp: echo_init_def shaped_init_def apply_delay_def fixed4_def)
  then have d: "accepted (wside t) = accepted s" by (auto simp: echo_inv_def)
  then have "3 \<le> length (accepted (wside t))" using s(2) by simp
  from echo_round_trip [OF fixed4_new fixed4_conditions(1,2) fixed4_new fixed4_conditions(1,2) fixed4_conditions(3)
      s(1,3) t(1,3) this, of EOF 0] t(4) s(2) d t(1)
  show ?thesis by (intro exI [of _ s] exI [of _ t]) auto
qed

text \<open>
  The copier ends: in every schedule it makes at most one turn for each byte its stream still holds and
  one more, malformed streams included, and it never waits for anything but its own turn. If the
  base keeps accepting writes, then from every state it can finish with the whole stream echoed.
\<close>

theorem echo_ends:
  assumes "shaped_wf c" and "\<forall>n. echo_step jd c ls (f n) (f (Suc n))"
  shows "finite {n. turn_step jd c (f n) (f (Suc n))} \<and>
    card {n. turn_step jd c (f n) (f (Suc n))} \<le> unread (rside (f 0)) + 1 \<and>
    ((\<nexists>t'. turn_step jd c (f n) t') \<longrightarrow> cstage (f n) \<noteq> Copying)"
proof -
  have "finite {n. turn_step jd c (f n) (f (Suc n))} \<and>
      card {n. turn_step jd c (f n) (f (Suc n))} \<le> copy_work (f 0)"
  proof (rule few_steps [where P = "\<lambda>_. True"])
    show "copy_work (f (Suc n)) \<le> copy_work (f n)" for n
      using assms(2) by (intro echo_work [OF _ assms(1)]) blast
    show "turn_step jd c t t' \<Longrightarrow> copy_work t' < copy_work t" for t t'
      using turn_work [OF assms(1)] by (auto simp: turn_step_def)
  qed simp
  moreover have "copy_work (f 0) \<le> unread (rside (f 0)) + 1" by (simp add: copy_work_def)
  moreover have "turn_step jd c (f n) (copy_turn jd c (WriteErr ErrClosed 0) (f n))" if "cstage (f n) = Copying"
    using that by (auto simp: turn_step_def)
  ultimately show ?thesis by auto
qed

theorem echo_ends_witness:
  "\<exists>f. f 0 = echo_init \<lparr>avail = [], rd_err = EOF\<rparr> () (Instant 0) [] \<and>
     (\<forall>n. echo_step (\<lambda>_ r. Some (0, r)) fixed4 [] (f n) (f (Suc n))) \<and>
     card {n. turn_step (\<lambda>_ r. Some (0, r)) fixed4 (f n) (f (Suc n))} \<le> 1"
proof -
  let ?jd = "\<lambda>_ r. Some (0, r)" and ?i = "echo_init \<lparr>avail = [], rd_err = EOF\<rparr> () (Instant 0) []"
  let ?t = "copy_turn ?jd fixed4 WriteOk ?i"
  define f where "f n = (if n = 0 then ?i else ?t)" for n :: nat
  have wf: "shaped_wf fixed4" by (rule new_shaped_wf [OF fixed4_new fixed4_conditions(1,2)])
  have "echo_step ?jd fixed4 [] ?i ?t" by (intro e_turn) (simp_all add: echo_init_def shaped_init_def)
  moreover have "?t\<lparr>wside := (wside ?t)\<lparr>clock := clock (wside ?t)\<rparr>\<rparr> = ?t" by (cases ?t; cases "wside ?t") simp
  then have "echo_step ?jd fixed4 [] ?t ?t"
    using e_background [of ?jd fixed4 "[]" ?t "(wside ?t)\<lparr>clock := clock (wside ?t)\<rparr>", OF pass_time] by simp
  ultimately have steps: "\<forall>n. echo_step ?jd fixed4 [] (f n) (f (Suc n))" by (simp add: f_def)
  have "f 0 = ?i" "unread (rside (f 0)) = 0" by (simp_all add: f_def echo_init_def unread_def)
  with echo_ends [OF wf steps] steps show ?thesis by (intro exI [of _ f]) simp
qed

end
