(* ===== verification/Hop.thy ===== *)
theory Hop
  imports Go_Prelude "HOL-Library.Signed_Division" "HOL-Library.Multiset"
begin

text \<open>
  Address hopping, \<open>hop/hop.go\<close>: the client's \<open>Dialer\<close> picks the address of the current time
  window; the server's \<open>MultiListener\<close> opens a listener per address and fans their connections
  into one. The fan-in is the step relation \<open>fan_step\<close>; which connection was handed out, is
  held by a loop or was closed is part of its state.
\<close>

datatype hop_err = ErrNoAddrs | ErrBadPeriod | ListenErr io_err

section \<open>The dialer\<close>

text \<open>
  \<open>UnixNano\<close> and the period are 64-bit; \<open>/\<close> and \<open>%\<close> truncate towards zero. \<open>net_dial\<close> is the
  default dial function. The result of \<open>Dialer\<close> is a function of the time of the call.
\<close>

definition hop_index :: "int \<Rightarrow> int \<Rightarrow> int \<Rightarrow> int" where
  "hop_index now period n =
     (let w = now sdiv period in wrap64 ((w smod n) + n) smod n)"

definition hop_dialer ::
  "(string \<Rightarrow> 'c) \<Rightarrow> string list \<Rightarrow> int \<Rightarrow> (string \<Rightarrow> 'c) option \<Rightarrow>
   hop_err + (int \<Rightarrow> 'c option)" where
  "hop_dialer net_dial addrs period dial =
     (if length addrs = 0 then Inl ErrNoAddrs
      else if period \<le> 0 then Inl ErrBadPeriod
      else let dl = (case dial of None \<Rightarrow> net_dial | Some f \<Rightarrow> f);
               cp = addrs
           in Inr (\<lambda>now. let i = hop_index now period (int (length cp)) in
                if i < 0 then None else map_option dl (idx cp (nat i))))"

lemma smod_mod: "(w smod n) mod n = w mod (n :: int)"
  using modulo_int_eq_signed_modulo_int [of w n] by (metis mod_add_right_eq mod_mod_trivial mod_mult_self2)

lemma hop_index_mod:
  assumes "0 < n" "n < 2 ^ 62"
  shows "hop_index now period n = (now sdiv period) mod n"
proof -
  let ?w = "now sdiv period"
  have b: "- n < ?w smod n" "?w smod n < n" using smod_int_range [of n ?w] assms(1) by auto
  then have "wrap64 (?w smod n + n) = ?w smod n + n" using assms by (intro wrap64_id) auto
  moreover have "(?w smod n + n) smod n = (?w smod n + n) mod n"
    using b assms by (intro smod_mod_positive) auto
  ultimately show ?thesis by (simp add: hop_index_def Let_def smod_mod)
qed

lemma sdiv_floor:
  assumes "0 < (p :: int)"
  shows "t sdiv p = (if 0 \<le> t \<or> p dvd t then t div p else t div p + 1)"
  using assms signed_divide_int_eq_divide_int [of t p] by (auto simp: of_bool_def sgn_if dvd_def)

lemma hop_dialer_at:
  assumes "hop_dialer nd addrs period dial = Inr f" "length addrs < 2 ^ 62"
  shows "f now = Some ((case dial of None \<Rightarrow> nd | Some g \<Rightarrow> g)
    (addrs ! nat ((now sdiv period) mod int (length addrs))))"
proof -
  have n: "addrs \<noteq> []" "0 < int (length addrs)" "int (length addrs) < 2 ^ 62"
    using assms by (auto simp: hop_dialer_def split: if_splits)
  let ?i = "(now sdiv period) mod int (length addrs)"
  from n have i: "\<not> ?i < 0" "nat ?i < length addrs" by (simp_all add: nat_less_iff not_less)
  have "f now = (if ?i < 0 then None
      else map_option (case dial of None \<Rightarrow> nd | Some g \<Rightarrow> g) (idx addrs (nat ?i)))"
    using assms(1) n hop_index_mod [OF n(2,3)] by (auto simp: hop_dialer_def Let_def split: if_splits)
  then show ?thesis using i(2) unfolding if_not_P [OF i(1)] by (simp add: idx_def)
qed

text \<open>
  The schedule: \<open>Dialer\<close> fails on an empty address list or a period that is not positive,
  and otherwise every dial picks the address of its time window: \<open>floor(now/period)\<close> modulo the
  number of addresses at and after the epoch. Before the epoch, inside a window, the truncating
  division names the window after it.
\<close>

theorem hop_dialer_window:
  assumes "length addrs < 2 ^ 62"
  shows "case hop_dialer nd addrs period (Some g) of
      Inl e \<Rightarrow> (addrs = [] \<and> e = ErrNoAddrs) \<or> (addrs \<noteq> [] \<and> period \<le> 0 \<and> e = ErrBadPeriod)
    | Inr f \<Rightarrow> addrs \<noteq> [] \<and> 0 < period \<and> (\<forall>now. f now = Some (g (addrs ! nat
        ((now div period + (if 0 \<le> now \<or> period dvd now then 0 else 1)) mod int (length addrs)))))"
proof (cases "hop_dialer nd addrs period (Some g)")
  case (Inl e)
  then show ?thesis by (auto simp: hop_dialer_def Let_def split: if_splits)
next
  case (Inr f)
  then have "addrs \<noteq> []" "0 < period" by (auto simp: hop_dialer_def split: if_splits)
  with Inr hop_dialer_at [OF Inr assms] show ?thesis by (simp add: sdiv_floor)
qed

theorem hop_dialer_window_witness:
  "\<exists>f. hop_dialer id [''a'', ''b'', ''c''] 10 (Some id) = Inr f \<and>
     f 25 = Some ''c'' \<and> f (- 5) = Some ''a'' \<and> (- 5) div (10 :: int) = - 1"
proof -
  obtain f where f: "hop_dialer id [''a'', ''b'', ''c''] 10 (Some id) = Inr f"
    by (simp add: hop_dialer_def Let_def)
  from hop_dialer_window [where addrs = "[''a'', ''b'', ''c'']" and nd = id and g = id and period = 10] f show ?thesis
    by simp
qed

text \<open>
  Rotation: from any time at or after the epoch, one dial per period visits every
  address once, in order, before it repeats.
\<close>

theorem hop_dialer_rotates:
  assumes "hop_dialer nd addrs period (Some g) = Inr f" and "length addrs < 2 ^ 62" and "0 \<le> now"
  shows "map (\<lambda>k. f (now + int k * period)) [0..<length addrs] =
    map (Some \<circ> g) (rotate (nat (now div period mod int (length addrs))) addrs)"
proof (rule nth_equalityI)
  have p: "0 < period" "addrs \<noteq> []" using assms(1) by (auto simp: hop_dialer_def split: if_splits)
  let ?n = "length addrs" and ?j = "nat (now div period mod int (length addrs))"
  fix k assume "k < length (map (\<lambda>k. f (now + int k * period)) [0..<?n])"
  then have k: "k < ?n" by simp
  have "f (now + int k * period) = Some (g (addrs ! nat ((now + int k * period) div period mod int ?n)))"
    using hop_dialer_at [OF assms(1,2)] p(1) assms(3) by (simp add: sdiv_floor)
  also have "(now + int k * period) div period = int k + now div period" using p(1) by simp
  also have "nat ((int k + now div period) mod int ?n) = (?j + k) mod ?n"
  proof -
    have "int ?j = now div period mod int ?n" using p(2) by (intro int_nat_eq [THEN trans]) simp
    then have "int ((?j + k) mod ?n) = (now div period mod int ?n + int k) mod int ?n"
      unfolding of_nat_mod of_nat_add by (rule arg_cong)
    also have "\<dots> = (int k + now div period) mod int ?n" by (simp add: mod_add_left_eq mod_add_right_eq add.commute)
    finally show ?thesis by (metis nat_int)
  qed
  finally show "map (\<lambda>k. f (now + int k * period)) [0..<?n] ! k = map (Some \<circ> g) (rotate ?j addrs) ! k"
    using k by (simp add: nth_rotate)
qed simp

theorem hop_dialer_rotates_witness:
  "\<exists>f. hop_dialer id [''a'', ''b'', ''c''] 10 (Some id) = Inr f \<and>
     map (\<lambda>k. f (45 + int k * 10)) [0..<3] = [Some ''b'', Some ''c'', Some ''a'']"
proof -
  obtain f where f: "hop_dialer id [''a'', ''b'', ''c''] 10 (Some id) = Inr f"
    by (simp add: hop_dialer_def Let_def)
  have "rotate 1 [''a'', ''b'', ''c''] = [''b'', ''c'', ''a'']" by simp
  with hop_dialer_rotates [OF f, of 45] f show ?thesis by (intro exI [of _ f]) (simp add: upt_rec)
qed

section \<open>The multi-listener\<close>

text \<open>
  \<open>listen\<close> is called on the addresses in order and may change the state of the world
  \<open>'w\<close>; \<open>shut\<close> collects the listeners that the failing construction closes. The result is the
  list of open listeners, \<open>ml.lis\<close>.
\<close>

fun listen_all ::
  "(string \<Rightarrow> 'w \<Rightarrow> (io_err + 'l) \<times> 'w) \<Rightarrow> string list \<Rightarrow> 'l list \<Rightarrow> 'w \<Rightarrow>
   (hop_err + 'l list) \<times> 'l list \<times> 'w" where
  "listen_all listen [] lis w = (Inr lis, [], w)"
| "listen_all listen (a # as) lis w =
     (case listen a w of
        (Inl err, w1) \<Rightarrow> (Inl (ListenErr err), lis, w1)
      | (Inr l, w1) \<Rightarrow> listen_all listen as (lis @ [l]) w1)"

definition multi_listener ::
  "(string \<Rightarrow> 'w \<Rightarrow> (io_err + 'l) \<times> 'w) \<Rightarrow> string list \<Rightarrow>
   (string \<Rightarrow> 'w \<Rightarrow> (io_err + 'l) \<times> 'w) option \<Rightarrow> 'w \<Rightarrow> (hop_err + 'l list) \<times> 'l list \<times> 'w" where
  "multi_listener net_listen addrs listen w =
     (if length addrs = 0 then (Inl ErrNoAddrs, [], w)
      else listen_all (case listen of None \<Rightarrow> net_listen | Some f \<Rightarrow> f) addrs [] w)"

text \<open>\<open>Close\<close>: every listener is closed; the first error is returned.\<close>

fun close_listeners :: "('l \<Rightarrow> io_err option) \<Rightarrow> 'l list \<Rightarrow> io_err option \<Rightarrow> io_err option \<times> 'l list" where
  "close_listeners cl [] first_err = (first_err, [])"
| "close_listeners cl (l # ls) first_err =
     (let err = cl l;
          (e, closed) = close_listeners cl ls (if err \<noteq> None \<and> first_err = None then err else first_err)
      in (e, l # closed))"

text \<open>\<open>Addr\<close>: that of the first listener; \<open>None\<close> is the nil of a fan-in without listeners.\<close>

definition multi_addr :: "('l \<Rightarrow> 'a) \<Rightarrow> 'l list \<Rightarrow> 'a option" where
  "multi_addr addr_of lis = (if length lis > 0 then map_option addr_of (idx lis 0) else None)"

lemma close_listeners_all: "snd (close_listeners cl ls e) = ls"
  by (induction ls arbitrary: e) (simp_all add: Let_def case_prod_beta)

text \<open>The listeners that a run of the calls opens before one fails.\<close>

fun opened_by ::
  "(string \<Rightarrow> 'w \<Rightarrow> (io_err + 'l) \<times> 'w) \<Rightarrow> string list \<Rightarrow> 'w \<Rightarrow> 'l list \<times> io_err option" where
  "opened_by listen [] w = ([], None)"
| "opened_by listen (a # as) w =
     (case listen a w of
        (Inl err, w1) \<Rightarrow> ([], Some err)
      | (Inr l, w1) \<Rightarrow> (case opened_by listen as w1 of (ls, e) \<Rightarrow> (l # ls, e)))"

lemma listen_all_opened:
  "listen_all listen as lis w = (res, shut, w') \<Longrightarrow> opened_by listen as w = (ls, e) \<Longrightarrow>
   (case e of None \<Rightarrow> res = Inr (lis @ ls) \<and> shut = [] | Some err \<Rightarrow> res = Inl (ListenErr err) \<and> shut = lis @ ls)"
  by (induction listen as lis w arbitrary: ls rule: listen_all.induct)
    (fastforce split: prod.splits sum.splits option.splits)+

lemma opened_by_length: "opened_by listen as w = (ls, None) \<Longrightarrow> length ls = length as"
  by (induction listen as w arbitrary: ls rule: opened_by.induct)
    (auto split: prod.splits sum.splits)

text \<open>A fan-in that \<open>MultiListener\<close> returns has an address.\<close>

lemma multi_addr_listening:
  assumes "multi_listener nl addrs listen w = (Inr lis, shut, w')"
  shows "multi_addr addr_of lis = Some (addr_of (hd lis))"
proof -
  let ?f = "case listen of None \<Rightarrow> nl | Some f \<Rightarrow> f"
  obtain ls e where o: "opened_by ?f addrs w = (ls, e)" by force
  have a: "addrs \<noteq> []" "listen_all ?f addrs [] w = (Inr lis, shut, w')"
    using assms by (auto simp: multi_listener_def split: if_splits)
  from listen_all_opened [OF a(2) o] have "e = None" "lis = ls" by (auto split: option.splits)
  with opened_by_length [of ?f addrs w ls] o a(1) have "lis \<noteq> []" by auto
  then show ?thesis by (simp add: multi_addr_def idx_def hd_conv_nth)
qed

text \<open>
  No listener leaks: \<open>MultiListener\<close> either returns one open listener per address and closes
  none, or the error of the first address that failed, and then every listener it had opened is
  closed. An empty address list opens nothing.
\<close>

theorem multi_listener_no_leak:
  assumes "multi_listener nl addrs (Some listen) w = (res, shut, w')"
  shows "case res of
      Inr lis \<Rightarrow> opened_by listen addrs w = (lis, None) \<and> length lis = length addrs \<and> addrs \<noteq> [] \<and> shut = []
    | Inl err \<Rightarrow> (addrs = [] \<and> err = ErrNoAddrs \<and> shut = []) \<or>
        (\<exists>e. opened_by listen addrs w = (shut, Some e) \<and> err = ListenErr e)"
proof (cases "addrs = []")
  case False
  obtain ls e where o: "opened_by listen addrs w = (ls, e)" by force
  from assms False have "listen_all listen addrs [] w = (res, shut, w')"
    by (simp add: multi_listener_def)
  from listen_all_opened [OF this o] o False opened_by_length [of listen addrs w ls] show ?thesis
    by (auto split: option.splits)
qed (use assms in \<open>auto simp: multi_listener_def\<close>)

theorem multi_listener_no_leak_witness:
  "opened_by (\<lambda>a w. if w = 1 then (Inl ErrClosed, w) else (Inr (a, w), w + 1)) [''a'', ''b'', ''c''] (0 :: nat) =
   ([(''a'', 0)], Some ErrClosed)"
proof -
  let ?l = "\<lambda>a w. if w = 1 then (Inl ErrClosed, w) else (Inr (a, w), w + 1 :: nat)"
  have "multi_listener ?l [''a'', ''b'', ''c''] (Some ?l) 0 = (Inl (ListenErr ErrClosed), [(''a'', 0)], 1)"
    by (simp add: multi_listener_def)
  from multi_listener_no_leak [OF this] show ?thesis by (simp only: sum.case list.distinct) auto
qed

section \<open>The fan-in\<close>

text \<open>
  The goroutine \<open>acceptLoop\<close> of listener \<open>i\<close> is in \<open>l.Accept\<close>, or holds its result in the
  select, or has returned. \<open>fdone\<close> is the closed channel \<open>done\<close>, \<open>fbases\<close> that \<open>Close\<close> has closed the
  listeners; \<open>handed\<close> is what \<open>Accept\<close> has received, \<open>frefused\<close> how often it has returned
  \<open>net.ErrClosed\<close>, \<open>fshut\<close> the connections the loops closed, \<open>arrived\<close> all that a listener has
  accepted.
\<close>

datatype 'c accept_loop = Accepting | Holding "io_err + 'c" | Ended

record 'c fan =
  floops :: "nat \<Rightarrow> 'c accept_loop"
  fdone :: bool
  fbases :: bool
  frefused :: nat
  handed :: "(io_err + 'c) list"
  fshut :: "'c list"
  arrived :: "'c list"

text \<open>The two cases of the select.\<close>

definition hand_over :: "nat \<Rightarrow> 'c fan \<Rightarrow> 'c fan" where
  "hand_over i s =
     (case floops s i of
        Holding (Inr c) \<Rightarrow> s\<lparr>handed := handed s @ [Inr c], floops := (floops s)(i := Accepting)\<rparr>
      | Holding (Inl e) \<Rightarrow> s\<lparr>handed := handed s @ [Inl e], floops := (floops s)(i := Ended)\<rparr>
      | _ \<Rightarrow> s)"

definition give_up :: "nat \<Rightarrow> 'c fan \<Rightarrow> 'c fan" where
  "give_up i s =
     (case floops s i of
        Holding (Inr c) \<Rightarrow> s\<lparr>fshut := fshut s @ [c], floops := (floops s)(i := Ended)\<rparr>
      | Holding (Inl e) \<Rightarrow> s\<lparr>floops := (floops s)(i := Ended)\<rparr>
      | _ \<Rightarrow> s)"

text \<open>
  The \<open>n\<close> loops. A base listener hands out each connection once, and none after it was closed.
\<close>

inductive fan_loop :: "nat \<Rightarrow> 'c fan \<Rightarrow> 'c fan \<Rightarrow> bool" for n where
  l_accept: "i < n \<Longrightarrow> floops s i = Accepting \<Longrightarrow> \<not> fbases s \<Longrightarrow> c \<notin> set (arrived s) \<Longrightarrow>
    fan_loop n s (s\<lparr>floops := (floops s)(i := Holding (Inr c)), arrived := arrived s @ [c]\<rparr>)"
| l_error: "i < n \<Longrightarrow> floops s i = Accepting \<Longrightarrow>
    fan_loop n s (s\<lparr>floops := (floops s)(i := Holding (Inl e))\<rparr>)"
| l_give_up: "i < n \<Longrightarrow> floops s i = Holding x \<Longrightarrow> fdone s \<Longrightarrow> fan_loop n s (give_up i s)"

text \<open>
  The users: \<open>Accept\<close> receives what a loop holds or is refused, \<open>Close\<close> closes the channel, then the
  listeners.
\<close>

inductive fan_api :: "nat \<Rightarrow> 'c fan \<Rightarrow> 'c fan \<Rightarrow> bool" for n where
  u_hand: "i < n \<Longrightarrow> floops s i = Holding x \<Longrightarrow> fan_api n s (hand_over i s)"
| u_refused: "fdone s \<Longrightarrow> fan_api n s (s\<lparr>frefused := frefused s + 1\<rparr>)"
| u_close: "fan_api n s (s\<lparr>fdone := True\<rparr>)"
| u_close_bases: "fdone s \<Longrightarrow> fan_api n s (s\<lparr>fbases := True\<rparr>)"

definition fan_step :: "nat \<Rightarrow> 'c fan \<Rightarrow> 'c fan \<Rightarrow> bool" where
  "fan_step n s t \<longleftrightarrow> fan_loop n s t \<or> fan_api n s t"

lemma fan_stepI: "fan_loop n s t \<Longrightarrow> fan_step n s t" "fan_api n s t \<Longrightarrow> fan_step n s t"
  by (simp_all add: fan_step_def)

lemmas f_accept = l_accept [THEN fan_stepI(1)] and f_error = l_error [THEN fan_stepI(1)]
  and f_give_up = l_give_up [THEN fan_stepI(1)] and f_hand = u_hand [THEN fan_stepI(2)]
  and f_close = u_close [THEN fan_stepI(2)]

lemma fan_step_cases [consumes 1, case_names f_accept f_error f_hand f_give_up f_flags]:
  assumes "fan_step n s t"
    and "\<And>i c. i < n \<Longrightarrow> floops s i = Accepting \<Longrightarrow> c \<notin> set (arrived s) \<Longrightarrow>
      P (s\<lparr>floops := (floops s)(i := Holding (Inr c)), arrived := arrived s @ [c]\<rparr>)"
    and "\<And>i e. i < n \<Longrightarrow> floops s i = Accepting \<Longrightarrow> P (s\<lparr>floops := (floops s)(i := Holding (Inl e))\<rparr>)"
    and "\<And>i x. i < n \<Longrightarrow> floops s i = Holding x \<Longrightarrow> P (hand_over i s)"
    and "\<And>i x. i < n \<Longrightarrow> floops s i = Holding x \<Longrightarrow> P (give_up i s)"
    and "\<And>d b k. P (s\<lparr>fdone := d, fbases := b, frefused := k\<rparr>)"
  shows "P t"
proof -
  have flags: "P (s\<lparr>frefused := frefused s + 1\<rparr>)" "P (s\<lparr>fdone := True\<rparr>)" "P (s\<lparr>fbases := True\<rparr>)"
    using assms(6) [where d = "fdone s" and b = "fbases s" and k = "frefused s + 1"]
      assms(6) [where d = True and b = "fbases s" and k = "frefused s"]
      assms(6) [where d = "fdone s" and b = True and k = "frefused s"]
    by (cases s; simp)+
  from assms(1) show ?thesis
    unfolding fan_step_def
  proof (elim disjE)
    assume "fan_loop n s t"
    then show ?thesis by cases (simp_all only: assms(2-5) not_False_eq_True)
  next
    assume "fan_api n s t"
    then show ?thesis by cases (simp_all only: assms(4) flags)
  qed
qed

definition fan_init :: "nat \<Rightarrow> 'c fan" where
  "fan_init n = \<lparr>floops = (\<lambda>i. if i < n then Accepting else Ended), fdone = False, fbases = False,
     frefused = 0, handed = [], fshut = [], arrived = []\<rparr>"

text \<open>The connections among the results of \<open>Accept\<close>.\<close>

definition conns :: "(io_err + 'c) list \<Rightarrow> 'c list" where
  "conns rs = List.map_filter (\<lambda>r. case r of Inr c \<Rightarrow> Some c | Inl e \<Rightarrow> None) rs"

lemma conns_simps [simp]:
  "conns [] = []" "conns (rs @ [Inr c]) = conns rs @ [c]" "conns (rs @ [Inl e]) = conns rs"
  by (simp_all add: conns_def map_filter_simps) (simp_all add: map_filter_def)

text \<open>
  Every connection a listener has accepted is at one place: handed out by \<open>Accept\<close>, closed, or
  held by one loop.
\<close>

fun held :: "'c accept_loop \<Rightarrow> 'c multiset" where
  "held (Holding (Inr c)) = {#c#}"
| "held _ = {#}"

definition fan_inv :: "nat \<Rightarrow> 'c fan \<Rightarrow> bool" where
  "fan_inv n s \<longleftrightarrow> distinct (arrived s) \<and> (\<forall>i \<ge> n. floops s i = Ended) \<and>
     mset (arrived s) = mset (conns (handed s)) + mset (fshut s) + (\<Sum>i<n. held (floops s i))"

lemma held_update:
  fixes i n :: nat
  assumes "i < n"
  shows "(\<Sum>j<n. held (if j = i then x else fl j)) + held (fl i) = (\<Sum>j<n. held (fl j)) + held x"
proof -
  have "(\<Sum>j\<in>{..<n} - {i}. held (if j = i then x else fl j)) = (\<Sum>j\<in>{..<n} - {i}. held (fl j))"
    by (rule sum.cong) auto
  moreover have "(\<Sum>j<n. held (if j = i then x else fl j)) =
      held x + (\<Sum>j\<in>{..<n} - {i}. held (if j = i then x else fl j))"
    using assms by (subst sum.remove [of _ i]) auto
  moreover have "(\<Sum>j<n. held (fl j)) = held (fl i) + (\<Sum>j\<in>{..<n} - {i}. held (fl j))"
    using assms by (subst sum.remove [of _ i]) auto
  ultimately show ?thesis by simp
qed

lemma fan_inv_step:
  assumes "fan_step n s s'" "fan_inv n s"
  shows "fan_inv n s'"
  using assms(1)
proof (induct rule: fan_step_cases)
  case (f_accept i c)
  with assms(2) held_update [of i n "Holding (Inr c)" "floops s"] show ?case
    by (auto simp: fan_inv_def fun_upd_def)
next
  case (f_error i e)
  with assms(2) held_update [of i n "Holding (Inl e)" "floops s"] show ?case
    by (auto simp: fan_inv_def fun_upd_def)
next
  case (f_hand i x)
  with assms(2) held_update [of i n Accepting "floops s"] held_update [of i n Ended "floops s"] show ?case
    by (cases x) (auto simp: fan_inv_def fun_upd_def hand_over_def)
next
  case (f_give_up i x)
  with assms(2) held_update [of i n Ended "floops s"] show ?case
    by (cases x) (auto simp: fan_inv_def fun_upd_def give_up_def)
next
  case (f_flags d b k)
  with assms(2) show ?case by (simp add: fan_inv_def)
qed

lemma fan_reach: "(fan_step n)\<^sup>*\<^sup>* (fan_init n) s \<Longrightarrow> fan_inv n s"
proof (induction rule: rtranclp_induct)
  case base
  show ?case by (simp add: fan_inv_def fan_init_def)
next
  case (step s t)
  then show ?case by (blast intro: fan_inv_step)
qed

lemma fan_placed:
  assumes "(fan_step n)\<^sup>*\<^sup>* (fan_init n) s"
  shows "distinct (conns (handed s) @ fshut s) \<and>
    set (conns (handed s) @ fshut s) \<subseteq> set (arrived s) \<and>
    ((\<forall>i<n. floops s i = Ended) \<longrightarrow> set (arrived s) = set (conns (handed s) @ fshut s))"
proof -
  from fan_reach [OF assms] have d: "distinct (arrived s)"
    and m: "mset (arrived s) = mset (conns (handed s) @ fshut s) + (\<Sum>i<n. held (floops s i))"
    by (simp_all add: fan_inv_def)
  obtain rest where "mset rest = (\<Sum>i<n. held (floops s i))" using ex_mset by blast
  with m have "mset (arrived s) = mset ((conns (handed s) @ fshut s) @ rest)" by simp
  from mset_eq_imp_distinct_iff [OF this] d have "distinct (conns (handed s) @ fshut s)" by auto
  moreover have "set (conns (handed s) @ fshut s) \<subseteq> set (arrived s)"
    using arg_cong [OF m, of set_mset] by auto
  moreover have "set (arrived s) = set (conns (handed s) @ fshut s)" if "\<forall>i<n. floops s i = Ended"
    using that arg_cong [OF m, of set_mset] by simp
  ultimately show ?thesis by auto
qed

text \<open>
  No connection is lost or handed out twice: \<open>Accept\<close> never returns a connection twice
  and never one that a loop has closed, and once all loops have returned every connection any
  listener accepted was either handed to the caller or closed.
\<close>

theorem fan_in_no_leak:
  assumes "(fan_step n)\<^sup>*\<^sup>* (fan_init n) s"
  shows "distinct (conns (handed s) @ fshut s) \<and>
    set (conns (handed s) @ fshut s) \<subseteq> set (arrived s) \<and>
    ((\<forall>i<n. floops s i = Ended) \<longrightarrow> set (arrived s) = set (conns (handed s) @ fshut s))"
  by (rule fan_placed [OF assms])

text \<open>The errors among the results of \<open>Accept\<close>, and the loops that still run.\<close>

definition errors :: "(io_err + 'c) list \<Rightarrow> nat" where
  "errors rs = length (filter isl rs)"

definition err_inv :: "nat \<Rightarrow> 'c fan \<Rightarrow> bool" where
  "err_inv n s \<longleftrightarrow> errors (handed s) + card {i. i < n \<and> floops s i \<noteq> Ended} \<le> n"

lemma live_update:
  fixes i n :: nat
  assumes "i < n" "x \<noteq> Ended"
  shows "card {j. j < n \<and> (if j = i then x else fl j) \<noteq> Ended} \<le>
    card {j. j < n \<and> fl j \<noteq> Ended} + (if fl i = Ended then 1 else 0)"
proof -
  have "{j. j < n \<and> (if j = i then x else fl j) \<noteq> Ended} = insert i {j. j < n \<and> fl j \<noteq> Ended}"
    using assms by auto
  then show ?thesis using assms(1) by (simp add: card_insert_if)
qed

lemma live_end:
  fixes i n :: nat
  assumes "i < n" "fl i \<noteq> Ended"
  shows "Suc (card {j. j < n \<and> (if j = i then Ended else fl j) \<noteq> Ended}) = card {j. j < n \<and> fl j \<noteq> Ended}"
proof -
  have "{j. j < n \<and> (if j = i then Ended else fl j) \<noteq> Ended} = {j. j < n \<and> fl j \<noteq> Ended} - {i}" by auto
  moreover have "i \<in> {j. j < n \<and> fl j \<noteq> Ended}" using assms by simp
  ultimately show ?thesis by (simp add: card_Suc_Diff1 del: card_Diff_insert)
qed

lemma errors_simps [simp]:
  "errors [] = 0" "errors (rs @ [Inr c]) = errors rs" "errors (rs @ [Inl e]) = Suc (errors rs)"
  by (simp_all add: errors_def)

lemma err_inv_step:
  assumes "fan_step n s s'" "err_inv n s"
  shows "err_inv n s'"
  using assms(1)
proof (induct rule: fan_step_cases)
  case (f_accept i c)
  with assms(2) live_update [of i n "Holding (Inr c)" "floops s"] show ?case
    by (auto simp: err_inv_def fun_upd_def)
next
  case (f_error i e)
  with assms(2) live_update [of i n "Holding (Inl e)" "floops s"] show ?case
    by (auto simp: err_inv_def fun_upd_def)
next
  case (f_hand i x)
  with assms(2) live_update [of i n Accepting "floops s"] live_end [of i n "floops s"] show ?case
    by (cases x) (auto simp: err_inv_def fun_upd_def hand_over_def)
next
  case (f_give_up i x)
  with assms(2) live_end [of i n "floops s"] show ?case
    by (cases x) (auto simp: err_inv_def fun_upd_def give_up_def)
next
  case (f_flags d b k)
  with assms(2) show ?case by (simp add: err_inv_def)
qed

lemma err_reach: "(fan_step n)\<^sup>*\<^sup>* (fan_init n) s \<Longrightarrow> err_inv n s"
proof (induction rule: rtranclp_induct)
  case base
  have "{i. i < n \<and> floops (fan_init n :: 'a fan) i \<noteq> Ended} = {..<n}" by (auto simp: fan_init_def)
  then show ?case by (simp add: err_inv_def) (simp add: fan_init_def)
next
  case (step s t)
  then show ?case by (blast intro: err_inv_step)
qed

lemma ended_handed:
  assumes "(fan_step n)\<^sup>*\<^sup>* s t" "\<forall>i<n. floops s i = Ended"
  shows "handed t = handed s \<and> (\<forall>i<n. floops t i = Ended)"
  using assms(1)
proof (induction rule: rtranclp_induct)
  case base
  with assms(2) show ?case by simp
next
  case (step t u)
  from step.hyps(2) step.IH show ?case by (induct rule: fan_step_cases) (auto simp: hand_over_def give_up_def)
qed

text \<open>
  Errors end the listener quietly: each loop hands out at most one error and then stops,
  so after \<open>n\<close> errors, whether or not they were temporary, \<open>Accept\<close> returns nothing more until
  \<open>Close\<close> is called.
\<close>

theorem fan_in_errors:
  assumes "(fan_step n)\<^sup>*\<^sup>* (fan_init n) s"
  shows "errors (handed s) \<le> n \<and>
    (errors (handed s) = n \<longrightarrow> (\<forall>t. (fan_step n)\<^sup>*\<^sup>* s t \<longrightarrow> handed t = handed s))"
proof -
  from err_reach [OF assms] have e: "errors (handed s) + card {i. i < n \<and> floops s i \<noteq> Ended} \<le> n"
    by (simp add: err_inv_def)
  have "\<forall>i<n. floops s i = Ended" if n: "errors (handed s) = n"
  proof -
    from e n have "card {i. i < n \<and> floops s i \<noteq> Ended} = 0" by simp
    moreover have "finite {i. i < n \<and> floops s i \<noteq> Ended}" by simp
    ultimately have "{i. i < n \<and> floops s i \<noteq> Ended} = {}" by (simp only: card_0_eq)
    then show ?thesis by blast
  qed
  note ended = this
  from e have "errors (handed s) \<le> n" by simp
  moreover have "handed t = handed s" if "errors (handed s) = n" "(fan_step n)\<^sup>*\<^sup>* s t" for t
    by (rule conjunct1 [OF ended_handed [OF that(2) ended [OF that(1)]]])
  ultimately show ?thesis by (intro conjI impI allI)
qed

theorem fan_in_errors_witness:
  "\<exists>s :: nat fan. (fan_step 1)\<^sup>*\<^sup>* (fan_init 1) s \<and> handed s = [Inl (OtherErr 7)] \<and> \<not> fdone s \<and>
     (\<forall>t. (fan_step 1)\<^sup>*\<^sup>* s t \<longrightarrow> handed t = [Inl (OtherErr 7)])"
proof -
  let ?i = "fan_init 1 :: nat fan" and ?h = "\<lambda>x. (floops (fan_init 1))(0 := x)"
  let ?s = "?i\<lparr>handed := [Inl (OtherErr 7)], floops := ?h Ended\<rparr>"
  have "fan_step 1 ?i (?i\<lparr>floops := ?h (Holding (Inl (OtherErr 7)))\<rparr>)"
    by (rule f_error) (simp_all add: fan_init_def)
  moreover have "fan_step 1 (?i\<lparr>floops := ?h (Holding (Inl (OtherErr 7)))\<rparr>) ?s"
    using f_hand [of 0 1 "?i\<lparr>floops := ?h (Holding (Inl (OtherErr 7)))\<rparr>"]
    by (simp add: hand_over_def fan_init_def)
  ultimately have r: "(fan_step 1)\<^sup>*\<^sup>* ?i ?s"
    by (meson converse_rtranclp_into_rtranclp rtranclp.rtrancl_refl)
  have f: "handed ?s = [Inl (OtherErr 7)]" "\<not> fdone ?s" by (simp_all add: fan_init_def)
  from fan_in_errors [OF r] r f show ?thesis by (intro exI [of _ ?s]) (simp add: errors_def)
qed

theorem fan_in_no_leak_witness:
  "\<exists>s :: nat fan. (fan_step 1)\<^sup>*\<^sup>* (fan_init 1) s \<and> arrived s = [5, 6] \<and>
     handed s = [Inr 5] \<and> fshut s = [6] \<and> set (arrived s) = set (conns (handed s) @ fshut s)"
proof -
  let ?i = "fan_init 1 :: nat fan" and ?h = "\<lambda>x. (floops (fan_init 1))(0 := x)"
  let ?a = "?i\<lparr>arrived := [5], floops := ?h (Holding (Inr 5))\<rparr>"
  let ?b = "?i\<lparr>arrived := [5], handed := [Inr 5], floops := ?h Accepting\<rparr>"
  let ?c = "?i\<lparr>arrived := [5, 6], handed := [Inr 5], floops := ?h (Holding (Inr 6))\<rparr>"
  let ?d = "?c\<lparr>fdone := True\<rparr>"
  let ?e = "?d\<lparr>fshut := [6], floops := ?h Ended\<rparr>"
  have "fan_step 1 ?i ?a" using f_accept [of 0 1 ?i 5] by (simp add: fan_init_def)
  moreover have "fan_step 1 ?a ?b" using f_hand [of 0 1 ?a] by (simp add: hand_over_def fan_init_def)
  moreover have "fan_step 1 ?b ?c" using f_accept [of 0 1 ?b 6] by (simp add: fan_init_def)
  moreover have "fan_step 1 ?c ?d" by (rule f_close)
  moreover have "fan_step 1 ?d ?e" using f_give_up [of 0 1 ?d] by (simp add: give_up_def fan_init_def)
  ultimately have r: "(fan_step 1)\<^sup>*\<^sup>* ?i ?e"
    by (meson converse_rtranclp_into_rtranclp rtranclp.rtrancl_refl)
  have "arrived ?e = [5, 6]" "handed ?e = [Inr 5]" "fshut ?e = [6]" "\<forall>i<1. floops ?e i = Ended"
    by (simp_all add: fan_init_def)
  with fan_in_no_leak [OF r] r show ?thesis by blast
qed

section \<open>Closing the fan-in\<close>

text \<open>
  Once \<open>Close\<close> has closed the channel and the listeners, a loop has at most three steps left: handing
  over what it holds, the error of its listener, and that error's way out.
\<close>

fun loop_left :: "'c accept_loop \<Rightarrow> nat" where
  "loop_left (Holding (Inr c)) = 3"
| "loop_left Accepting = 2"
| "loop_left (Holding (Inl e)) = 1"
| "loop_left Ended = 0"

definition fan_left :: "nat \<Rightarrow> 'c fan \<Rightarrow> nat" where
  "fan_left n s = (\<Sum>i<n. loop_left (floops s i))"

lemma fan_left_update:
  assumes "i < n" "loop_left x < loop_left (floops s i)" "floops t = (floops s)(i := x)"
  shows "fan_left n t < fan_left n s"
  unfolding fan_left_def assms(3)
  by (rule sum_strict_mono_ex1) (use assms(1,2) in auto)

definition fan_closed :: "'c fan \<Rightarrow> bool" where
  "fan_closed s \<longleftrightarrow> fdone s \<and> fbases s"

lemma fan_left_loop:
  assumes "fan_loop n s t" "fan_closed s"
  shows "fan_left n t < fan_left n s \<and> fan_closed t"
  using assms(1)
proof cases
  case (l_accept i c)
  with assms(2) show ?thesis by (simp add: fan_closed_def)
next
  case (l_error i e)
  with assms(2) fan_left_update [of i n "Holding (Inl e)" s t] show ?thesis by (simp add: fan_closed_def)
next
  case (l_give_up i x)
  with assms(2) fan_left_update [of i n Ended s t] show ?thesis
    by (cases x) (simp_all add: fan_closed_def give_up_def)
qed

lemma fan_left_api:
  assumes "fan_api n s t" "fan_closed s"
  shows "fan_left n t \<le> fan_left n s \<and> fan_closed t"
  using assms(1)
proof cases
  case (u_hand i x)
  with assms(2) fan_left_update [of i n Ended s t] fan_left_update [of i n Accepting s t] show ?thesis
    by (cases x) (simp_all add: fan_closed_def hand_over_def less_imp_le)
qed (use assms(2) in \<open>simp_all add: fan_closed_def fan_left_def\<close>)

lemma fan_closed_step: "fan_step n s t \<Longrightarrow> fan_closed s \<Longrightarrow> fan_closed t"
  using fan_left_loop fan_left_api unfolding fan_step_def by blast

lemma fan_flags:
  assumes "(fan_step n)\<^sup>*\<^sup>* (fan_init n) s"
  shows "fbases s \<longrightarrow> fdone s"
proof (rule reach_invariant [OF assms])
  fix s t :: "'a fan"
  assume "fan_step n s t" "fbases s \<longrightarrow> fdone s"
  then show "fbases t \<longrightarrow> fdone t"
    unfolding fan_step_def
    by (elim disjE fan_loop.cases fan_api.cases)
      (auto simp: hand_over_def give_up_def split: accept_loop.splits sum.splits)
qed (simp add: fan_init_def)

lemma fan_stuck:
  assumes "fan_closed s" "\<And>t. \<not> fan_loop n s t" "i < n"
  shows "floops s i = Ended"
  using assms l_error [of i n s] l_give_up [of i n s] by (cases "floops s i") (auto simp: fan_closed_def)

text \<open>
  C39. \<open>Close\<close> drains the fan-in. Once it has returned, the loops make at most three steps each in every
  schedule, whoever still calls \<open>Accept\<close>; where they can do nothing more all of them have returned,
  every connection any listener accepted was handed out or closed, and \<open>Accept\<close> receives nothing
  more.
\<close>

theorem fan_in_close:
  fixes s :: "'c fan"
  assumes "(fan_step n)\<^sup>*\<^sup>* (fan_init n) s" and "fbases s"
  shows "(\<forall>f. f 0 = s \<and> (\<forall>k. fan_step n (f k) (f (Suc k))) \<longrightarrow>
      finite {k. fan_loop n (f k) (f (Suc k))} \<and> card {k. fan_loop n (f k) (f (Suc k))} \<le> 3 * n) \<and>
    (\<forall>s'. (fan_step n)\<^sup>*\<^sup>* s s' \<and> (\<nexists>t. fan_loop n s' t) \<longrightarrow>
      (\<forall>i<n. floops s' i = Ended) \<and> set (arrived s') = set (conns (handed s') @ fshut s') \<and>
      (\<forall>t. (fan_step n)\<^sup>*\<^sup>* s' t \<longrightarrow> handed t = handed s'))"
proof (rule conjI; intro allI impI)
  have closed: "fan_closed s" using fan_flags [OF assms(1)] assms(2) by (simp add: fan_closed_def)
  fix f assume f: "f 0 = s \<and> (\<forall>k. fan_step n (f k) (f (Suc k)))"
  have inv: "fan_closed (f k)" for k by (induction k) (use f closed fan_closed_step in auto)
  have "finite {k. fan_loop n (f k) (f (Suc k))} \<and> card {k. fan_loop n (f k) (f (Suc k))} \<le> fan_left n (f 0)"
  proof (rule few_steps [where P = fan_closed, OF _ _ inv])
    show "fan_left n (f (Suc k)) \<le> fan_left n (f k)" for k
      using f inv [of k] fan_left_loop [of n "f k"] fan_left_api [of n "f k"] less_imp_le
      unfolding fan_step_def by metis
  qed (use fan_left_loop in blast)
  moreover have "loop_left l \<le> 3" for l :: "'c accept_loop" by (cases l rule: loop_left.cases) simp_all
  then have "fan_left n (f 0) \<le> 3 * n"
    using sum_bounded_above [of "{..<n}" "\<lambda>i. loop_left (floops (f 0) i)" 3] by (simp add: fan_left_def mult.commute)
  ultimately show "finite {k. fan_loop n (f k) (f (Suc k))} \<and> card {k. fan_loop n (f k) (f (Suc k))} \<le> 3 * n"
    by linarith
next
  have closed: "fan_closed s" using fan_flags [OF assms(1)] assms(2) by (simp add: fan_closed_def)
  fix s' assume s': "(fan_step n)\<^sup>*\<^sup>* s s' \<and> (\<nexists>t. fan_loop n s' t)"
  have "fan_closed s'"
    by (rule reach_invariant [where P = fan_closed, OF conjunct1 [OF s'] closed]) (rule fan_closed_step)
  then have ended: "\<forall>i<n. floops s' i = Ended" using fan_stuck s' by blast
  have "(fan_step n)\<^sup>*\<^sup>* (fan_init n) s'" using assms(1) s' by (meson rtranclp_trans)
  from fan_placed [OF this] ended ended_handed [OF _ ended]
  show "(\<forall>i<n. floops s' i = Ended) \<and> set (arrived s') = set (conns (handed s') @ fshut s') \<and>
      (\<forall>t. (fan_step n)\<^sup>*\<^sup>* s' t \<longrightarrow> handed t = handed s')" by blast
qed

theorem fan_in_close_witness:
  "\<exists>s :: nat fan. (fan_step 1)\<^sup>*\<^sup>* (fan_init 1) s \<and> fshut s = [5] \<and> set (arrived s) = {5} \<and>
     (\<forall>t. (fan_step 1)\<^sup>*\<^sup>* s t \<longrightarrow> handed t = [])"
proof -
  let ?i = "fan_init 1 :: nat fan" and ?h = "\<lambda>x. (floops (fan_init 1))(0 := x)"
  let ?a = "?i\<lparr>arrived := [5], floops := ?h (Holding (Inr 5))\<rparr>"
  let ?b = "?a\<lparr>fdone := True\<rparr>" and ?c = "?a\<lparr>fdone := True, fbases := True\<rparr>"
  let ?d = "?c\<lparr>fshut := [5], floops := ?h Ended\<rparr>"
  have "fan_step 1 ?i ?a" using f_accept [of 0 1 ?i 5] by (simp add: fan_init_def)
  moreover have "fan_step 1 ?a ?b" by (rule f_close)
  moreover have "fan_step 1 ?b ?c" using fan_stepI(2) [OF u_close_bases, of ?b 1] by simp
  ultimately have r: "(fan_step 1)\<^sup>*\<^sup>* ?i ?c"
    by (meson converse_rtranclp_into_rtranclp rtranclp.rtrancl_refl)
  have d: "fan_step 1 ?c ?d" using f_give_up [of 0 1 ?c] by (simp add: give_up_def fan_init_def)
  define e where "e = ?d"
  have r': "(fan_step 1)\<^sup>*\<^sup>* ?c e" unfolding e_def by (rule r_into_rtranclp [of "fan_step 1", OF d])
  have stuck: "\<nexists>t. fan_loop 1 e t" unfolding e_def by (auto elim!: fan_loop.cases)
  have "fbases ?c" by simp
  note all = conjunct2 [OF fan_in_close [OF r this]]
  have g: "set (arrived e) = set (conns (handed e) @ fshut e) \<and> (\<forall>t. (fan_step 1)\<^sup>*\<^sup>* e t \<longrightarrow> handed t = handed e)"
    by (rule conjunct2 [OF mp [OF spec [OF all, of e] conjI [OF r' stuck]]])
  have f: "fshut e = [5]" "handed e = []" by (simp_all add: e_def fan_init_def)
  have "(fan_step 1)\<^sup>*\<^sup>* ?i e" using r r' by (rule rtranclp_trans)
  with g f show ?thesis by auto
qed

end
