(* ===== verification/Fullstack.thy ===== *)
theory Fullstack
  imports Echo Hop Tls_Camo
begin

text \<open>
  The program \<open>examples/fullstack/main.go\<close>: three layers composed in one process. The server
  listens on all addresses with \<open>hop.MultiListener\<close>, terminates TLS and echoes inside a shaped
  connection; the client dials with \<open>hop.Dialer\<close>, imitates a browser with \<open>tlscamo.Client\<close>, and
  shapes inside the tunnel. \<open>log.Fatal\<close> ends the program, so each one is a value of \<open>fatal\<close>.
\<close>

section \<open>The program\<close>

datatype fatal = SetupFatal io_err | HopFatal hop_err | DialFatal io_err | TlsFatal io_err | WriteFatal io_err |
  ReadFatal conn_err

text \<open>The policy of both ends.\<close>

definition shaping :: "'r policy" where
  "shaping = zero_policy\<lparr>p_cell_size := 512, p_front := Some \<lparr>fc_window = 500000000, fc_max_count = 8\<rparr>\<rparr>"

text \<open>The message, in the bytes of the Go string constant.\<close>

definition hello_msg :: bytes where
  "hello_msg = map (\<lambda>ch. of_nat (of_char ch)) ''hello through hop + tlscamo + shaping''"

definition listen_hops ::
  "(string \<Rightarrow> 'w \<Rightarrow> (io_err + 'l) \<times> 'w) \<Rightarrow> string list \<Rightarrow> 'w \<Rightarrow> fatal + 'l list" where
  "listen_hops nl addrs w =
     (case multi_listener nl addrs None w of
        (Inl err, _) \<Rightarrow> Inl (HopFatal err)
      | (Inr lis, _) \<Rightarrow> Inr lis)"

text \<open>
  The accept loop of the server, by the results of its calls of \<open>Accept\<close>: the connections it
  starts a goroutine for. It returns at the first error.
\<close>

fun serve :: "(io_err + 'b) list \<Rightarrow> 'b list" where
  "serve [] = []"
| "serve (Inl err # rs) = []"
| "serve (Inr raw # rs) = raw # serve rs"

text \<open>
  That goroutine: \<open>tls\<close> is the TLS server on the raw connection, whose first read does the handshake
  and returns its error; the copier starts on the shaped connection. \<open>None\<close> would be a
  connection that is not shaped.
\<close>

definition serve_conn ::
  "'r fill_func \<Rightarrow> ('b \<Rightarrow> io_err + instream) \<Rightarrow> 'b \<Rightarrow> 'r \<Rightarrow> instant \<Rightarrow> int list \<Rightarrow>
   ('r shaper \<times> background list \<times> 'r echo) option" where
  "serve_conn rf tls raw r now due =
     (let stream = (case tls raw of Inl err \<Rightarrow> \<lparr>avail = [], rd_err = err\<rparr> | Inr s \<Rightarrow> s) in
      case wrap rf stream shaping of
        BaseConn _ \<Rightarrow> None
      | ShapedConn stream c ls \<Rightarrow> Some (c, ls, echo_init stream r now due))"

text \<open>The configuration of \<open>tlscamo.Client\<close>.\<close>

definition hop_camo :: "presets \<Rightarrow> 'ca \<Rightarrow> 'ca camo_config" where
  "hop_camo ps pool = \<lparr>camo_name = ''localhost'', fingerprint = chrome ps, next_protos = [], root_cas = pool,
     insecure = False, roll = False, ech_list = []\<rparr>"

text \<open>
  The client up to its shaped connection: \<open>nd\<close> is \<open>net.Dial\<close>, \<open>hs raw\<close> the uTLS handshake on a
  connection. \<open>None\<close> is a panic.
\<close>

definition client_connect ::
  "(string \<Rightarrow> io_err + 'b) \<Rightarrow> ('b \<Rightarrow> 'ca utls_config \<Rightarrow> hello_id \<Rightarrow> io_err + 'c) \<Rightarrow> presets \<Rightarrow>
   'r fill_func \<Rightarrow> string list \<Rightarrow> int \<Rightarrow> 'ca \<Rightarrow> rng \<Rightarrow> (fatal + ('c, 'r) conn) option" where
  "client_connect nd hs ps rf addrs now pool g =
     (case hop_dialer nd addrs (30 * second) None of
        Inl err \<Rightarrow> Some (Inl (HopFatal err))
      | Inr dial \<Rightarrow> do {
          res \<leftarrow> dial now;
          (case res of
             Inl err \<Rightarrow> Some (Inl (DialFatal err))
           | Inr raw \<Rightarrow> do {
               (_, res) \<leftarrow> camo_client ps (hs raw) (hop_camo ps pool, g);
               (case res of
                  Inl err \<Rightarrow> Some (Inl (TlsFatal err))
                | Inr tls_conn \<Rightarrow> Some (Inr (wrap rf tls_conn shaping))) }) })"

text \<open>
  The exchange: the message is written, then as many bytes are read. \<open>reply\<close> is the read side of the
  connection after the write.
\<close>

definition client_talk ::
  "(int \<Rightarrow> 'r \<Rightarrow> (int \<times> 'r) option) \<Rightarrow> 'r shaper \<Rightarrow> base_write \<Rightarrow> 'r sstate \<Rightarrow> ('r sstate \<Rightarrow> rstate) \<Rightarrow>
   (fatal + bytes) option" where
  "client_talk jd c res s reply = do {
     ((_, err), s1) \<leftarrow> shaped_write jd c hello_msg res s;
     (case err of
        Some e \<Rightarrow> Some (Inl (WriteFatal e))
      | None \<Rightarrow> do {
          (buf, err, _) \<leftarrow> read_full_loop (shaped_read c) conn_unexpected (length hello_msg) [] (reply s1);
          (case err of
             Some e \<Rightarrow> Some (Inl (ReadFatal e))
           | None \<Rightarrow> Some (Inr buf)) }) }"

section \<open>Lemmas\<close>

definition shaping_shaper :: "'r fill_func \<Rightarrow> 'r shaper" where
  "shaping_shaper rf = \<lparr>cell_size = 512, max_data = 510, fill = rf, jitter = 0, size_sampler = None,
     delay_sampler = None, pace = None\<rparr>"

definition shaping_loops :: "background list" where
  "shaping_loops = [FrontLoop \<lparr>fc_window = 500000000, fc_max_count = 8\<rparr>]"

lemma shaping_new: "new_shaped_conn rf shaping = Some (shaping_shaper rf, shaping_loops)"
  by (simp add: policy_defs shaping_def zero_policy_def shaping_shaper_def shaping_loops_def)

lemma shaping_wrap: "wrap rf b shaping = ShapedConn b (shaping_shaper rf) shaping_loops"
  by (simp add: wrap_def shaping_new)

lemma shaping_simps [simp]:
  "fill (shaping_shaper rf) = rf" "p_cell_size shaping \<le> 65537"
  by (simp_all add: shaping_shaper_def shaping_def zero_policy_def)

lemma shaping_matching [simp]: "matching (shaping_shaper rf) (shaping_shaper rf')"
  by (simp add: shaping_shaper_def matching_def)

lemma shaping_delay [simp]: "apply_delay jitter_delay (shaping_shaper rf) r = Some (0, r)"
  by (simp add: shaping_shaper_def apply_delay_def jitter_delay_def)

lemma shaping_wf: "filler rf \<Longrightarrow> shaped_wf (shaping_shaper rf)"
  by (rule new_shaped_wf [OF shaping_new]) simp_all

lemma hello_length: "length hello_msg = 37" "hello_msg \<noteq> []"
  by (simp_all add: hello_msg_def)

text \<open>
  What the accept loop serves of the results of the fan-in: every connection at most once, none that
  no listener accepted, and none that the fan-in closed.
\<close>

lemma serve_prefix: "prefix (serve rs) (conns rs)"
  by (induction rs rule: serve.induct) (simp_all add: conns_def map_filter_simps)

lemma serve_once:
  assumes "(fan_step n)\<^sup>*\<^sup>* (fan_init n) s"
  shows "distinct (serve (handed s)) \<and> set (serve (handed s)) \<subseteq> set (arrived s) - set (fshut s)"
proof -
  obtain zs where "conns (handed s) = serve (handed s) @ zs" using serve_prefix by (auto simp: prefix_def)
  with fan_placed [OF assms] show ?thesis by auto
qed

text \<open>The client connects through the address of its time window, as Chrome.\<close>

lemma client_connects:
  assumes "addrs \<noteq> []" "length addrs < 2 ^ 62"
    and "nd (addrs ! nat ((now sdiv (30 * second)) mod int (length addrs))) = Inr raw"
    and "hs raw (camo_utls (hop_camo ps pool)) (chrome ps) = Inr ch"
  shows "client_connect nd hs ps rf addrs now pool g = Some (Inr (ShapedConn ch (shaping_shaper rf) shaping_loops))"
proof -
  obtain dial where d: "hop_dialer nd addrs (30 * second) None = Inr dial"
    using assms(1) by (simp add: hop_dialer_def second_def Let_def)
  have "dial now = Some (Inr raw)" using hop_dialer_at [OF d assms(2), of now] assms(3) by simp
  moreover have "camo_client ps (hs raw) (hop_camo ps pool, g) = Some ([], Inr ch)"
    using assms(4) by (simp add: camo_client_def pick_hello_id_def hop_camo_def)
  ultimately show ?thesis using d by (simp add: client_connect_def shaping_wrap)
qed

lemma serves_shaped:
  assumes "tls raw = Inr stream"
  shows "serve_conn rf tls raw r now due =
    Some (shaping_shaper rf, shaping_loops, echo_init stream r now due)"
  using assms by (simp add: serve_conn_def shaping_wrap)

text \<open>The exchange on a connection whose write succeeds and whose reply carries the message.\<close>

lemma client_talks:
  assumes "shaped_write jd c hello_msg WriteOk s0 = Some (r, s1)"
    and "read_full_loop (shaped_read c) conn_unexpected (length hello_msg) [] (reply s1) = Some (buf, None, u)"
  shows "client_talk jd c WriteOk s0 reply = Some (Inr buf)"
proof -
  obtain n e where r: "r = (n, e)" by (cases r)
  from assms(1) have "e = None"
    by (auto simp: r shaped_write_def flush_def Let_def bind_eq_Some_conv hello_length split: prod.splits)
  with assms show ?thesis by (simp add: client_talk_def r)
qed

section \<open>The round trip\<close>

text \<open>
  If the network connects the client at the address of its time window, the handshake as Chrome succeeds,
  and TLS hands the server what the client wrote, the client gets a shaped connection and reads back its
  greeting.
\<close>

lemma fullstack_echo:
  fixes rf :: "rng fill_func" and rf' :: "'q fill_func"
  assumes "filler rf" and "filler rf'" and "addrs \<noteq> []" and "length addrs < 2 ^ 62"
    and "nd (addrs ! nat ((now sdiv (30 * second)) mod int (length addrs))) = Inr raw"
    and "hs raw (camo_utls (hop_camo ps pool)) (chrome ps) = Inr ch"
    and "(shaped_step jitter_delay (shaping_shaper rf) shaping_loops)\<^sup>*\<^sup>* (shaped_init r t0 due) s0"
    and "\<not> base_closed s0" and "shaped_write jitter_delay (shaping_shaper rf) hello_msg WriteOk s0 = Some (r0, s1)"
    and "(shaped_step jitter_delay (shaping_shaper rf) shaping_loops)\<^sup>*\<^sup>* s1 s"
    and "\<not> failed s" and "accepted s = hello_msg"
    and "tls raw' = Inr \<lparr>avail = wire s, rd_err = e\<rparr>"
    and "serve_conn rf' tls raw' r' t0' due' = Some (c', ls', i)"
    and "(echo_step jd' c' ls')\<^sup>*\<^sup>* i t" and "\<not> failed (wside t)"
    and "length hello_msg \<le> length (accepted (wside t))"
    and "reply s1 = \<lparr>src = \<lparr>avail = wire (wside t), rd_err = e'\<rparr>, pending = [], rbuf_cap = k\<rparr>"
  shows "client_connect nd hs ps rf addrs now pool g = Some (Inr (ShapedConn ch (shaping_shaper rf) shaping_loops)) \<and>
    client_talk jitter_delay (shaping_shaper rf) WriteOk s0 reply = Some (Inr hello_msg)"
proof -
  let ?c = "shaping_shaper rf"
  have "shaped_step jitter_delay ?c shaping_loops s0 s1" by (rule app_write [OF assms(9)]) (simp add: assms(8))
  with assms(7,10) have reach: "(shaped_step jitter_delay ?c shaping_loops)\<^sup>*\<^sup>* (shaped_init r t0 due) s"
    by (meson rtranclp.rtrancl_into_rtrancl rtranclp_trans)
  have srv: "c' = shaping_shaper rf'" "ls' = shaping_loops" "i = echo_init \<lparr>avail = wire s, rd_err = e\<rparr> r' t0' due'"
    using assms(14) serves_shaped [where tls = tls and raw = raw' and rf = rf' and r = r' and now = t0' and due = due', OF assms(13)] by auto
  have wf: "shaped_wf ?c" "shaped_wf c'" using shaping_wf assms(1,2) srv(1) by simp_all
  have m: "matching ?c c'" by (simp add: srv(1))
  have inv: "echo_inv c' hello_msg (IoErr e) t"
    using echo_of_shaped [OF wf m reach assms(11) assms(15) [unfolded srv(3)]] by (simp add: assms(12))
  have acc: "accepted (wside t) = hello_msg"
    using echo_prefix [OF inv assms(16)] assms(17) prefix_length_less [of "accepted (wside t)" hello_msg]
    by (cases "accepted (wside t) = hello_msg") (simp_all add: strict_prefix_def)
  have "\<exists>u. read_full_loop (shaped_read ?c) conn_unexpected (length hello_msg) [] (reply s1) =
      Some (take (length hello_msg) (accepted (wside t)), None, u)"
    using inv by (intro wire_inv_read_full [OF _ assms(16) wf(2) matching_sym [OF m]])
      (simp_all add: echo_inv_def assms(18) acc)
  then show ?thesis
    using client_connects [of addrs nd now raw hs ps pool ch rf g, OF assms(3-6)] client_talks [OF assms(9)] acc by auto
qed

end
