(* ===== verification/Fullstack_Main.thy ===== *)
theory Fullstack_Main
  imports Fullstack
begin

text \<open>
  \<open>main\<close> of \<open>examples/fullstack/main.go\<close> from its first line to the last: \<open>genCert\<close>, \<open>freeAddr\<close>, the
  listener and its accept loop, the client, and what is printed. Key generation and X.509 are a record
  of functions, \<open>net.Listen\<close> a function on a state \<open>'w\<close> of the network.
\<close>

section \<open>The certificate\<close>

datatype key_usage = DigitalSignature | CertSign

datatype ext_key_usage = ServerAuth

record cert_template =
  serial_number :: int
  common_name :: string
  not_before :: instant
  not_after :: instant
  key_usages :: "key_usage list"
  ext_key_usages :: "ext_key_usage list"
  basic_constraints_valid :: bool
  is_ca :: bool
  dns_names :: "string list"
  ip_addresses :: "string list"

text \<open>
  \<open>ecdsa.GenerateKey\<close>, \<open>x509.CreateCertificate\<close> with template, parent, public key and signing key, and
  \<open>x509.ParseCertificate\<close>.
\<close>

record ('key, 'cert) x509_lib =
  generate_key :: "io_err + 'key"
  create_certificate :: "cert_template \<Rightarrow> cert_template \<Rightarrow> 'key \<Rightarrow> 'key \<Rightarrow> io_err + bytes"
  parse_certificate :: "bytes \<Rightarrow> 'cert option"

record ('key, 'cert) tls_certificate =
  certificate_chain :: "bytes list"
  cert_key :: 'key
  leaf :: 'cert

definition localhost_template :: "instant \<Rightarrow> cert_template" where
  "localhost_template now = \<lparr>serial_number = 1, common_name = ''localhost'',
     not_before = time_add now (- 3600 * second), not_after = time_add now (24 * 3600 * second),
     key_usages = [DigitalSignature, CertSign], ext_key_usages = [ServerAuth],
     basic_constraints_valid = True, is_ca = True, dns_names = [''localhost''], ip_addresses = [''127.0.0.1'']\<rparr>"

text \<open>
  \<open>genCert\<close>. The error of \<open>ParseCertificate\<close> is dropped; \<open>AddCert\<close> panics on the nil that comes with
  it, which is \<open>None\<close> here. The pool is the list of its certificates.
\<close>

definition gen_cert ::
  "('key, 'cert) x509_lib \<Rightarrow> instant \<Rightarrow> (fatal + ('key, 'cert) tls_certificate \<times> 'cert list) option" where
  "gen_cert lib now =
     (case generate_key lib of
        Inl err \<Rightarrow> Some (Inl (SetupFatal err))
      | Inr key \<Rightarrow>
          let tmpl = localhost_template now in
          (case create_certificate lib tmpl tmpl key key of
             Inl err \<Rightarrow> Some (Inl (SetupFatal err))
           | Inr der \<Rightarrow> do {
               c \<leftarrow> parse_certificate lib der;
               let pool = [c];
               Some (Inr (\<lparr>certificate_chain = [der], cert_key = key, leaf = c\<rparr>, pool)) }))"

section \<open>Free addresses\<close>

text \<open>
  \<open>freeAddr\<close>: listen on a port of the system's choice, and close the listener after taking its address.
\<close>

definition free_addr ::
  "(string \<Rightarrow> 'w \<Rightarrow> (io_err + 'l) \<times> 'w) \<Rightarrow> ('l \<Rightarrow> string) \<Rightarrow> ('l \<Rightarrow> 'w \<Rightarrow> 'w) \<Rightarrow> 'w \<Rightarrow> (fatal + string) \<times> 'w" where
  "free_addr nl addr_of close w =
     (case nl ''127.0.0.1:0'' w of
        (Inl err, w) \<Rightarrow> (Inl (SetupFatal err), w)
      | (Inr l, w) \<Rightarrow> (Inr (addr_of l), close l w))"

fun free_addrs ::
  "(string \<Rightarrow> 'w \<Rightarrow> (io_err + 'l) \<times> 'w) \<Rightarrow> ('l \<Rightarrow> string) \<Rightarrow> ('l \<Rightarrow> 'w \<Rightarrow> 'w) \<Rightarrow> nat \<Rightarrow> 'w \<Rightarrow>
   (fatal + string list) \<times> 'w" where
  "free_addrs nl addr_of close 0 w = (Inr [], w)"
| "free_addrs nl addr_of close (Suc n) w =
     (case free_addr nl addr_of close w of
        (Inl err, w) \<Rightarrow> (Inl err, w)
      | (Inr a, w) \<Rightarrow>
          (case free_addrs nl addr_of close n w of
             (Inl err, w) \<Rightarrow> (Inl err, w)
           | (Inr as, w) \<Rightarrow> (Inr (a # as), w)))"

section \<open>main\<close>

text \<open>The three values of the line that is printed.\<close>

record printed =
  hopped :: nat
  cell_bytes :: int
  echoed :: bytes

text \<open>
  \<open>nd lis\<close> is \<open>net.Dial\<close> while \<open>lis\<close> listen, \<open>hs cert raw\<close> the handshake with a server that has the
  certificate; \<open>s\<close> is the state of the client's shaped connection when it writes, \<open>reply\<close> what it can
  read afterwards. \<open>None\<close> is a panic, or would be a connection that is not shaped.
\<close>

definition fs_main ::
  "('key, 'cert) x509_lib \<Rightarrow> (string \<Rightarrow> 'w \<Rightarrow> (io_err + 'l) \<times> 'w) \<Rightarrow> ('l \<Rightarrow> string) \<Rightarrow> ('l \<Rightarrow> 'w \<Rightarrow> 'w) \<Rightarrow>
   ('l list \<Rightarrow> string \<Rightarrow> io_err + 'b) \<Rightarrow>
   (('key, 'cert) tls_certificate \<Rightarrow> 'b \<Rightarrow> 'cert list utls_config \<Rightarrow> hello_id \<Rightarrow> io_err + 'c) \<Rightarrow> presets \<Rightarrow>
   'r fill_func \<Rightarrow> (int \<Rightarrow> 'r \<Rightarrow> (int \<times> 'r) option) \<Rightarrow> instant \<Rightarrow> int \<Rightarrow> rng \<Rightarrow> base_write \<Rightarrow> 'r sstate \<Rightarrow>
   ('r sstate \<Rightarrow> rstate) \<Rightarrow> 'w \<Rightarrow> (fatal + printed) option" where
  "fs_main lib nl addr_of close nd hs ps rf jd start dial_at g res s reply w = do {
     made \<leftarrow> gen_cert lib start;
     (case made of
        Inl err \<Rightarrow> Some (Inl err)
      | Inr (cert, pool) \<Rightarrow>
          (case free_addrs nl addr_of close 3 w of
             (Inl err, _) \<Rightarrow> Some (Inl err)
           | (Inr addrs, w) \<Rightarrow>
               (case listen_hops nl addrs w of
                  Inl err \<Rightarrow> Some (Inl err)
                | Inr lis \<Rightarrow> do {
                    con \<leftarrow> client_connect (nd lis) (hs cert) ps rf addrs dial_at pool g;
                    (case con of
                       Inl err \<Rightarrow> Some (Inl err)
                     | Inr (BaseConn _) \<Rightarrow> None
                     | Inr (ShapedConn _ c _) \<Rightarrow> do {
                         got \<leftarrow> client_talk jd c res s reply;
                         (case got of
                            Inl err \<Rightarrow> Some (Inl err)
                          | Inr buf \<Rightarrow> Some (Inr \<lparr>hopped = length addrs,
                              cell_bytes = p_cell_size (shaping :: 'r policy), echoed = buf\<rparr>)) }) }))) }"

section \<open>Lemmas\<close>

lemma gen_cert_ok:
  assumes "gen_cert lib now = Some (Inr (cert, pool))"
  obtains key der where "generate_key lib = Inr key" "pool = [leaf cert]" "certificate_chain cert = [der]" "cert_key cert = key"
    "create_certificate lib (localhost_template now) (localhost_template now) key key = Inr der"
    "parse_certificate lib der = Some (leaf cert)"
  using assms by (auto simp: gen_cert_def Let_def bind_eq_Some_conv split: sum.splits)

lemma free_addrs_length: "free_addrs nl addr_of close n w = (Inr as, w') \<Longrightarrow> length as = n"
  by (induction n arbitrary: w as w') (auto split: prod.splits sum.splits)

lemma listen_hops_addrs: "listen_hops nl addrs w = Inr lis \<Longrightarrow> addrs \<noteq> []"
  by (auto simp: listen_hops_def multi_listener_def split: prod.splits)

text \<open>
  The client of \<open>main\<close> accepts the server of \<open>main\<close>, as far as the certificate goes: the leaf the server
  presents is the one in the client's pool, it is its own issuer, it names the host the client asks for, may
  serve TLS, and is within its lifetime from an hour before to a day after it was made.
\<close>

theorem main_certificate_fits:
  assumes "\<And>t p pub key der. create_certificate lib t p pub key = Inr der \<Longrightarrow>
      \<exists>c. parse_certificate lib der = Some c \<and> described c = t"
    and "gen_cert lib start = Some (Inr (cert, pool))"
    and "time_add start (- 3600 * second) \<le> now" and "now \<le> time_add start (24 * 3600 * second)"
  shows "u_roots (camo_utls (hop_camo ps pool)) = [leaf cert] \<and> \<not> u_insecure (camo_utls (hop_camo ps pool)) \<and>
    u_name (camo_utls (hop_camo ps pool)) \<in> set (dns_names (described (leaf cert))) \<and>
    ServerAuth \<in> set (ext_key_usages (described (leaf cert))) \<and> is_ca (described (leaf cert)) \<and>
    not_before (described (leaf cert)) \<le> now \<and> now \<le> not_after (described (leaf cert))"
proof -
  obtain key der where g: "pool = [leaf cert]" "parse_certificate lib der = Some (leaf cert)"
    "create_certificate lib (localhost_template start) (localhost_template start) key key = Inr der"
    by (rule gen_cert_ok [OF assms(2)])
  from assms(1) [OF g(3)] g(2) have "described (leaf cert) = localhost_template start" by simp
  with g(1) assms(3,4) show ?thesis by (simp add: localhost_template_def hop_camo_def camo_utls_def)
qed

section \<open>Properties\<close>

text \<open>
  C5. The composed stack works, all of \<open>main\<close>. If the certificate is made, three addresses are free and the
  server listens on them, the network connects the client at the address of its time window, the
  handshake as Chrome succeeds against the server's certificate with the pool that trusts it, and TLS hands
  the server what the client wrote, then \<open>main\<close> prints three hops, the cell size of the policy and exactly
  the greeting, once the server's copier has come that far: under every interleaving of the writes with the
  FRONT cover of both ends, and whatever padding is drawn.
\<close>

theorem main_prints_greeting:
  fixes rf :: "rng fill_func" and rf' :: "'q fill_func"
  assumes "filler rf" and "filler rf'" and "gen_cert lib start = Some (Inr (cert, pool))"
    and "free_addrs nl addr_of close 3 w = (Inr addrs, w')" and "listen_hops nl addrs w' = Inr lis"
    and "nd lis (addrs ! nat ((now sdiv (30 * second)) mod 3)) = Inr raw"
    and "hs cert raw (camo_utls (hop_camo ps [leaf cert])) (chrome ps) = Inr ch"
    and "(shaped_step jitter_delay (shaping_shaper rf) shaping_loops)\<^sup>*\<^sup>* (shaped_init r t0 due) s0"
    and "\<not> base_closed s0" and "shaped_write jitter_delay (shaping_shaper rf) hello_msg WriteOk s0 = Some (r0, s1)"
    and "(shaped_step jitter_delay (shaping_shaper rf) shaping_loops)\<^sup>*\<^sup>* s1 s"
    and "\<not> failed s" and "accepted s = hello_msg"
    and "tls raw' = Inr \<lparr>avail = wire s, rd_err = e\<rparr>"
    and "serve_conn rf' tls raw' r' t0' due' = Some (c', ls', i)"
    and "(echo_step jd' c' ls')\<^sup>*\<^sup>* i t" and "\<not> failed (wside t)"
    and "length hello_msg \<le> length (accepted (wside t))"
    and "reply s1 = \<lparr>src = \<lparr>avail = wire (wside t), rd_err = e'\<rparr>, pending = [], rbuf_cap = k\<rparr>"
  shows "fs_main lib nl addr_of close nd hs ps rf jitter_delay start now g WriteOk s0 reply w =
    Some (Inr \<lparr>hopped = 3, cell_bytes = 512, echoed = hello_msg\<rparr>)"
proof -
  have a: "length addrs = 3" by (rule free_addrs_length [OF assms(4)])
  then have a': "addrs \<noteq> []" "length addrs < 2 ^ 62"
    "nd lis (addrs ! nat ((now sdiv (30 * second)) mod int (length addrs))) = Inr raw" using assms(6) by auto
  have pool: "pool = [leaf cert]" by (rule gen_cert_ok [OF assms(3)])
  have "client_connect (nd lis) (hs cert) ps rf addrs now [leaf cert] g =
      Some (Inr (ShapedConn ch (shaping_shaper rf) shaping_loops)) \<and>
    client_talk jitter_delay (shaping_shaper rf) WriteOk s0 reply = Some (Inr hello_msg)"
    by (rule fullstack_echo [where nd = "nd lis" and hs = "hs cert" and ps = ps and pool = "[leaf cert]" and
          tls = tls and raw' = raw' and reply = reply, OF assms(1,2) a' assms(7-19)])
  then show ?thesis using assms(3-5) a by (simp add: fs_main_def pool shaping_def zero_policy_def)
qed

text \<open>A library for the one certificate, a network that numbers its listeners and dials those it has.\<close>

definition lib1 :: "(unit, cert_template) x509_lib" where
  "lib1 = \<lparr>generate_key = Inr (),
     create_certificate = (\<lambda>t p pub key. if t = localhost_template (Instant 0) then Inr [1] else Inl ErrClosed),
     parse_certificate = (\<lambda>_. Some (localhost_template (Instant 0)))\<rparr>"

definition listen1 :: "string \<Rightarrow> nat \<Rightarrow> (io_err + string \<times> nat) \<times> nat" where
  "listen1 a n = (Inr (a, n), Suc n)"

definition address1 :: "string \<times> nat \<Rightarrow> string" where
  "address1 l = replicate (Suc (snd l)) CHR ''h''"

definition dial1 :: "(string \<times> nat) list \<Rightarrow> string \<Rightarrow> io_err + string" where
  "dial1 lis a = (if a \<in> fst ` set lis then Inr a else Inl ErrClosed)"

definition cert1 :: "(unit, cert_template) tls_certificate" where
  "cert1 = \<lparr>certificate_chain = [[1]], cert_key = (), leaf = localhost_template (Instant 0)\<rparr>"

lemma main1_setup:
  "gen_cert lib1 (Instant 0) = Some (Inr (cert1, [leaf cert1]))"
  "free_addrs listen1 address1 (\<lambda>_ n. n) 3 0 = (Inr [''h'', ''hh'', ''hhh''], 3)"
  "listen_hops listen1 [''h'', ''hh'', ''hhh''] 3 = Inr [(''h'', 3), (''hh'', 4), (''hhh'', 5)]"
  "dial1 [(''h'', 3), (''hh'', 4), (''hhh'', 5)] ([''h'', ''hh'', ''hhh''] ! nat ((45000000000 sdiv (30 * second)) mod 3)) = Inr ''hh''"
  by (simp_all add: gen_cert_def lib1_def cert1_def free_addr_def listen1_def address1_def listen_hops_def
      multi_listener_def dial1_def second_def numeral_3_eq_3)

theorem main_certificate_fits_witness:
  "''localhost'' \<in> set (dns_names (leaf cert1)) \<and> not_before (leaf cert1) \<le> Instant 5 \<and> Instant 5 \<le> not_after (leaf cert1)"
proof -
  have "create_certificate lib1 t p pub key = Inr der \<Longrightarrow> \<exists>c. parse_certificate lib1 der = Some c \<and> c = t" for t p pub key der
    by (auto simp: lib1_def split: if_splits)
  from main_certificate_fits [where described = "\<lambda>c. c" and now = "Instant 5" and ps = presets1, OF _ main1_setup(1)] this
  show ?thesis by (simp add: second_def time_add_def less_eq_instant_def hop_camo_def camo_utls_def)
qed

theorem main_prints_greeting_witness:
  "\<exists>s0 reply. fs_main lib1 listen1 address1 (\<lambda>_ n. n) dial1 (\<lambda>_ a _ _. Inr a) presets1 random_fill jitter_delay
     (Instant 0) 45000000000 (sconst 0) WriteOk s0 reply 0 =
    Some (Inr \<lparr>hopped = 3, cell_bytes = 512, echoed = hello_msg\<rparr>)"
proof -
  let ?c = "shaping_shaper random_fill" and ?s = "shaped_init (sconst 0) (Instant 0) []"
    and ?c' = "shaping_shaper zero_fill :: unit shaper"
  obtain cells r1 where f: "frame_cells ?c hello_msg (rnd ?s) = (cells, r1)" by force
  define s1 where "s1 = ?s\<lparr>rnd := r1, wire := concat cells, accepted := hello_msg\<rparr>"
  have w: "shaped_write jitter_delay ?c hello_msg WriteOk ?s = Some ((37, None), s1)"
    using f by (simp add: shaped_write_def hello_length flush_def s1_def shaped_init_def time_add_def)
  have s1: "\<not> failed s1" "accepted s1 = hello_msg" "\<not> base_closed ?s"
    by (simp_all add: s1_def shaped_init_def)
  let ?i = "echo_init \<lparr>avail = wire s1, rd_err = EOF\<rparr> () (Instant 0) []"
  have wf: "shaped_wf ?c" "shaped_wf ?c'"
    using shaping_wf random_filler.filler_axioms zero_filler.filler_axioms by blast+
  have "shaped_step jitter_delay ?c shaping_loops ?s s1" by (rule app_write [OF w]) (simp add: s1)
  then have "echo_inv ?c' (accepted s1) (IoErr EOF) ?i"
    by (rule echo_of_shaped [OF wf shaping_matching r_into_rtranclp s1(1) rtranclp.rtrancl_refl])
  moreover have "apply_delay (\<lambda>_ r. Some (0, r)) ?c' r = Some (0, r)" for r
    by (simp add: apply_delay_def shaping_shaper_def)
  ultimately obtain t where t: "(echo_step (\<lambda>_ r. Some (0, r)) ?c' shaping_loops)\<^sup>*\<^sup>* ?i t"
    "echo_inv ?c' (accepted s1) (IoErr EOF) t" "\<not> failed (wside t)" "\<exists>x. cstage t = Copied x"
    using echo_completes [of ?c' "accepted s1" "IoErr EOF" ?i "\<lambda>_ r. Some (0, r)" shaping_loops]
    by (auto simp: echo_init_def shaped_init_def)
  then have "accepted (wside t) = hello_msg" using s1(2) by (auto simp: echo_inv_def)
  then have len: "length hello_msg \<le> length (accepted (wside t))" by simp
  define reply where "reply = (\<lambda>_ :: rng sstate. \<lparr>src = \<lparr>avail = wire (wside t), rd_err = EOF\<rparr>, pending = [], rbuf_cap = 0\<rparr>)"
  have "fs_main lib1 listen1 address1 (\<lambda>_ n. n) dial1 (\<lambda>_ a _ _. Inr a) presets1 random_fill jitter_delay
     (Instant 0) 45000000000 (sconst 0) WriteOk ?s reply 0 =
    Some (Inr \<lparr>hopped = 3, cell_bytes = 512, echoed = hello_msg\<rparr>)"
    by (rule main_prints_greeting [where nd = dial1 and hs = "\<lambda>_ a _ _. Inr a" and reply = reply and
          tls = "\<lambda>_. Inr \<lparr>avail = wire s1, rd_err = EOF\<rparr>" and raw' = "()", OF
          random_filler.filler_axioms zero_filler.filler_axioms main1_setup refl
          rtranclp.rtrancl_refl s1(3) w rtranclp.rtrancl_refl s1(1,2) refl _ t(1,3) len])
      (simp_all add: serve_conn_def shaping_wrap reply_def)
  then show ?thesis by blast
qed

end
