(* ===== verification/Spec2Isabelle.thy ===== *)
theory Spec2Isabelle
  imports Paced_Refine Paced_Live Paced_Hiding Cover_Timing Dc_Stream Packet X_Stack X_Ray Reality
    Webrtc_Listener Fullstack_Main
begin

text \<open>
  Traffic obfuscation for network connections, the Go module \<open>go.arpabet.com/obfs\<close>.

  The program. Package \<open>obfs\<close> wraps a connection so that what an observer sees are cells of
  fixed or sampled sizes, with padding, cover traffic, delays or constant-rate pacing; it also wraps
  datagram sockets. Package \<open>hop\<close> spreads connections over addresses. The packages \<open>reality\<close>,
  \<open>xreality\<close> and \<open>xrayreality\<close> hide a tunnel behind a TLS server that forwards everybody who does
  not authenticate to a real site; \<open>tlscamo\<close> imitates a browser on the client; \<open>webrtc\<close> is a
  transport over a data channel. A client stacks them: dial, TLS, tunnel, shaped connection; the
  theorem of this theory follows a message through all of it.

  Which theory models what.
  \<^item> \<open>Go_Prelude\<close>: slices and indices that may panic, big-endian fields, 64-bit times, random
    numbers, reachability. \<open>Go_IO\<close>: the read side of a connection, \<open>io.ReadFull\<close>, the contract of
    \<open>io.Reader\<close> as a locale, and its interpretation on a connection in arbitrary segments.
  \<^item> \<open>Fill\<close> (\<open>fill.go\<close>), \<open>Samplers\<close> (\<open>morph.go\<close>, the schedule of \<open>conn.go\<close>), \<open>Policy\<close>
    (\<open>obfs.go\<close>, \<open>newShapedConn\<close>): padding bytes, size and delay samplers, configuration and the loops it
    starts. \<open>Framing\<close>: the contract of a cell format as a locale, interpreted in \<open>Fixed_Cells\<close>
    (\<open>fixedCells\<close>, \<open>Read\<close>) and \<open>Morph\<close> (\<open>morphCells\<close>, \<open>readMorph\<close>).
  \<^item> \<open>Shaped_Conn\<close> (\<open>conn.go\<close>): \<open>Write\<close>, \<open>coverLoop\<close>, \<open>frontLoop\<close> as steps on one state;
    \<open>Cover_Timing\<close>: the cover loop on its ticker;
    \<open>Paced\<close> and \<open>Paced_Safety\<close>: \<open>writePaced\<close>, \<open>pacingLoop\<close>, \<open>Close\<close>, \<open>flushQueue\<close> as steps with any
    number of writers. \<open>Paced_Refine\<close>: the bounded pipe those steps implement, by simulation.
    \<open>Paced_Live\<close>: why no writer waits for ever.
  \<^item> \<open>Watching\<close>: what an observer of times and byte counts sees of a run, and the contract (a locale of
    unwinding conditions) under which two systems look alike to him. \<open>Paced_Hiding\<close> interprets it for
    a connection with writers beside one nobody writes to, \<open>Shaped_Hiding\<close> for two connections that
    send different messages of as many cells.
  \<^item> \<open>Packet\<close> (\<open>packet.go\<close>) and \<open>Hop\<close> (\<open>hop/hop.go\<close>).
  \<^item> \<open>Client_Hello\<close>, \<open>X_Auth\<close>, \<open>Peek\<close>, \<open>X_Channel\<close>, \<open>X_Server\<close>, \<open>X_Client\<close>: the package \<open>xreality\<close>,
    parser, sealing and opening of the session id, peeking and replay, mutual proof in the channel,
    the handler, the client. \<open>X_Stack\<close>: shaped connections through such a tunnel, both ways.
  \<^item> \<open>Reality_Sni\<close> and \<open>Reality\<close>: the package \<open>reality\<close>, its host name peek, handler and listener.
    \<open>Splice\<close>: the two copiers at the end of every passthrough. \<open>Acceptor\<close>: accept loop, handlers,
    \<open>Accept\<close> and \<open>Close\<close> of the listeners; the contract of a handler is a locale, interpreted by the
    handlers of \<open>reality\<close> and \<open>xreality\<close>.
  \<^item> \<open>Dialing\<close>: what the dialers do to a connection; the contract of a \<open>Client\<close> is a locale,
    interpreted in \<open>Tls_Camo\<close> (\<open>tlscamo\<close> and \<open>reality.Dialer\<close>), \<open>X_Client\<close> and \<open>X_Ray\<close>
    (\<open>xrayreality\<close>).
  \<^item> \<open>Webrtc\<close>: \<open>Dial\<close> and \<open>answer\<close> with the callbacks of the library. \<open>Webrtc_Listener\<close>: the listener,
    any number of answers side by side with accept loop, \<open>Accept\<close> and \<open>Close\<close>. \<open>Dc_Stream\<close>: its \<open>conn\<close> as
    the base of a shaped connection.
  \<^item> \<open>Echo\<close>, \<open>Fullstack\<close> and \<open>Fullstack_Main\<close> (\<open>examples/fullstack/main.go\<close>): \<open>io.Copy\<close> from a shaped
    connection to itself beside the connection's own loops, the program that composes hopping, browser
    mimicry and shaping around it, and \<open>main\<close> from \<open>genCert\<close> and \<open>freeAddr\<close> to the line it prints.

  State and operations. A struct is a record, a method a function that returns the record after, a
  panic the value None, an error a value of a sum or an option. Goroutines are the rules of a
  step relation whose steps are the critical sections of the code, so a theorem about reachable
  states holds for every interleaving. Where a statement needs history, the state carries it in
  fields the code does not have (\<open>accepted\<close>, \<open>enq_data\<close>, \<open>tunnels\<close>); no step reads them.

  What is shown. For the shaped connection: a peer reads exactly the accepted bytes, writes
  report all or nothing, reading ends on any input, buffers are bounded, the pacer keeps its order
  and its rate and implements a bounded pipe; an echo server returns to its client what the client wrote.
  What it hides: with a constant rate an observer cannot tell traffic from silence, with fixed cells he
  learns of a message its number of cells, and idle cover bounds silence. For datagrams: round trip,
  refinement of an abstract decoder. For the listeners: exactly who gets a tunnel, that everybody else
  sees the site and nothing else, that each tunnel is handed out once, and that a closed listener comes
  to rest with nothing left on offer. For the clients: they fail closed, and \<open>Dial\<close> of the WebRTC
  transport returns. For the parsers: no input makes them panic, well-formed hellos are read back, the
  two parsers agree. Some theorems state what the code does where its comments promise more, among them
  the half-closed splice, the callbacks that stay blocked, writes after \<open>Close\<close>, interleaved paced
  writes, the surge of a decaying rate that shows a \<open>Write\<close>, idle cover that does not hide one, and
  messages of several cells over a data channel.

  Parameters. Cryptography (AES, SHA-256, HMAC, HKDF, X25519), \<open>crypto/tls\<close>, uTLS, X.509,
  \<open>net.Dial\<close>, Unicode case folding and the pion library are arguments of the definitions; what is
  assumed of them is \<open>crypto_ok\<close> and \<open>hmac_ok\<close>, with a model of both in \<open>X_Auth\<close> and \<open>X_Channel\<close>,
  in the end-to-end theorems that TLS delivers what the other side wrote, and in \<open>Dc_Stream\<close> that a data
  channel is read message by message. An observer sees times and byte counts; the contents of what
  he sees are the business of the TLS layer, and no theorem says what an attacker cannot compute.

  Bounds. No fuel is used: loops are recursive functions with a measure, or \<open>partial_function\<close>
  where the loop may run on, and then the theorem that it returns is proved. That a goroutine ends
  among others that go on is a bound on its steps in every infinite schedule (\<open>few_steps\<close>), together
  with the states in which it cannot move. Integers are words where
  the code relies on their width (lengths, session ids, generator words) and wrap-around is written
  out for times and durations. A stream is the bytes that will arrive and the error after them; what
  a peer would send in reply to what it has not yet received is outside that view, so time a peer
  makes us wait does not show.

  Not modelled. Key generation (\<open>GenerateX25519\<close>, \<open>GenerateKeyPair\<close>) is a call of the library, the SDP
  codec of \<open>webrtc\<close> is JSON of the library, \<open>newAPI\<close> sets an option of it. \<open>Addr\<close> of
  the single listeners forwards to the base. The line \<open>main\<close> prints is the
  record of its three values, without the text around them, and the deferred \<open>Close\<close> calls after it are
  left out. \<open>lastWrite\<close> is not kept in paced mode, where nothing reads it. Floating point in the samplers
  and in the rate is real arithmetic.
\<close>

section \<open>A shaped connection inside a camouflaged tunnel\<close>

text \<open>
  C4. The layers together: a client dials with \<open>reality.Dialer\<close> and runs a shaped connection inside
  the tunnel. If TLS delivers what was written (the token, then the wire of the shaped connection)
  and the client's host name is ours, the server hands out a tunnel without a deadline, and a
  matching shaped connection on it reads exactly the bytes the client's writes accepted, under every
  interleaving of writes, cover traffic and clock.
\<close>

theorem tunnel_carries_shaped:
  assumes "new_shaped_conn rf p = Some (c, ls)" and "filler (fill c)" and "p_cell_size p \<le> 65537"
    and "(shaped_step jd c ls)\<^sup>*\<^sup>* (shaped_init r now due) s" and "\<not> failed s"
    and "matching c c'" and "n \<le> length (accepted s)"
    and "reality_dialer ps hs wr d ccfg (token cfg) g = Some (evs, Inr conn)"
    and "token cfg \<noteq> []" and "\<not> screened env cfg raw"
    and "e_tls env raw = Inr \<lparr>avail = sent_bytes evs @ wire s, rd_err = e\<rparr>"
  shows "\<exists>h t u. reality_handle env cfg raw = Some h \<and> route h = Tunnel t \<and> deadline h = None \<and>
    read_full_loop (shaped_read c') conn_unexpected n [] \<lparr>src = t, pending = [], rbuf_cap = k\<rparr> =
      Some (take n (accepted s), None, u)"
proof -
  let ?t = "\<lparr>avail = wire s, rd_err = e\<rparr>"
  have "sent_bytes evs = token cfg" using reality_dialer_ok [OF assms(8)] by (simp add: sent_bytes_def)
  then have "e_tls env raw = Inr (?t\<lparr>avail := token cfg @ avail ?t\<rparr>)" using assms(11) by simp
  then have r: "route (tls_stage env cfg raw) = Tunnel ?t" using assms(9) tls_stage_tunnel by blast
  have h: "reality_handle env cfg raw = Some (tls_stage env cfg raw)"
    using assms(10) by (simp add: reality_handle_eq)
  have "deadline (tls_stage env cfg raw) = None" using live_deadline [OF _ h] r by simp
  with h r shaped_delivers [OF assms(1-7), of e k] show ?thesis by blast
qed

theorem tunnel_carries_shaped_witness:
  "\<exists>env raw h t u. reality_handle env cfg1 raw = Some h \<and> route h = Tunnel t \<and>
     read_full_loop (shaped_read fixed4) conn_unexpected 3 [] \<lparr>src = t, pending = [], rbuf_cap = 0\<rparr> =
       Some ([1, 2, 3], None, u)"
proof -
  obtain s where s: "(shaped_step (\<lambda>_ r. Some (0, r)) fixed4 [])\<^sup>*\<^sup>* (shaped_init () (Instant 0) []) s"
    "accepted s = [1, 2, 3]" "\<not> failed s" using fixed4_sent by blast
  have d: "reality_dialer presets1 (\<lambda>_ _. Inr ()) (\<lambda>_ _. None) None camo1 (token cfg1) (sconst 0) =
      Some ([Dialed, Sent (token cfg1)], Inr ())"
    by (simp add: reality_dialer_def dial_with_def camo_client_def pick_hello_id_def camo1_def)
  let ?env = "env1\<lparr>e_tls := \<lambda>_. Inr \<lparr>avail = sent_bytes [Dialed, Sent (token cfg1)] @ wire s, rd_err = EOF\<rparr>\<rparr>"
  let ?raw = "\<lparr>avail = [], rd_err = EOF\<rparr>"
  have n: "3 \<le> length (accepted s)" "token cfg1 \<noteq> []" "\<not> screened ?env cfg1 ?raw"
    "e_tls ?env ?raw = Inr \<lparr>avail = sent_bytes [Dialed, Sent (token cfg1)] @ wire s, rd_err = EOF\<rparr>"
    by (simp_all add: s(2) cfg1_def screened_def)
  from tunnel_carries_shaped [OF fixed4_new fixed4_conditions(1,2) s(1,3) fixed4_conditions(3) n(1) d n(2-4), of 0]
  obtain h t u where "reality_handle ?env cfg1 ?raw = Some h" "route h = Tunnel t"
    "read_full_loop (shaped_read fixed4) conn_unexpected 3 [] \<lparr>src = t, pending = [], rbuf_cap = 0\<rparr> =
      Some (take 3 (accepted s), None, u)" by (elim exE conjE)
  then show ?thesis
    by (intro exI [of _ ?env] exI [of _ ?raw] exI [of _ h] exI [of _ t] exI [of _ u]) (simp add: s(2))
qed

end
